(* ===== verification/Prelude.thy ===== *)
theory Prelude
  imports Complex_Main "HOL-Library.AList" "HOL-Library.Word" "HOL-Library.Code_Target_Numeral"
begin

text \<open>
  Shared vocabulary of the development: the machine integers of the source as natural numbers
  with their saturating, wrapping and checked operations written out, the error plumbing of
  \<^verbatim>\<open>Result\<close> (\<^verbatim>\<open>?\<close>, \<^verbatim>\<open>collect\<close>), and generic facts on association lists, which model the hash maps
  of the source in an arbitrary iteration order.
\<close>

named_theorems int_ops "definitions of the machine-integer operations"
named_theorems inv_intros "operations preserve the invariant of their component"

text \<open>Lookups stay lookups: with distinct keys the simplifier would turn them into membership.\<close>

declare map_of_eq_Some_iff [simp del] Some_eq_map_of_iff [simp del]

section \<open>Machine integers\<close>

definition u64_max :: nat where
  "u64_max = 2 ^ 64 - 1"

definition sat_add :: "nat \<Rightarrow> nat \<Rightarrow> nat" where
  [int_ops]: "sat_add a b = min u64_max (a + b)"

text \<open>\<^verbatim>\<open>fetch_add\<close> and \<^verbatim>\<open>fetch_sub\<close> on the 64-bit atomics wrap around.\<close>

definition wrap_add :: "nat \<Rightarrow> nat \<Rightarrow> nat" where
  [int_ops]: "wrap_add a b = (a + b) mod 2 ^ 64"

definition wrap_sub :: "nat \<Rightarrow> nat \<Rightarrow> nat" where
  [int_ops]: "wrap_sub a b = (a + (2 ^ 64 - b mod 2 ^ 64)) mod 2 ^ 64"

definition checked_add :: "nat \<Rightarrow> nat \<Rightarrow> nat option" where
  [int_ops]: "checked_add a b = (if a + b \<le> u64_max then Some (a + b) else None)"

definition checked_mul :: "nat \<Rightarrow> nat \<Rightarrow> nat option" where
  [int_ops]: "checked_mul a b = (if a * b \<le> u64_max then Some (a * b) else None)"

lemma u64_max_less [simp]: "u64_max < 2 ^ 64"
  by (simp add: u64_max_def)

lemma sat_add_le [simp]: "sat_add a b \<le> u64_max"
  by (simp add: sat_add_def)

lemma sat_add_0 [simp]: "sat_add 0 b = min u64_max b" "sat_add a 0 = min u64_max a"
  by (simp_all add: sat_add_def)

lemma wrap_sub_exact: "b \<le> a \<Longrightarrow> a \<le> u64_max \<Longrightarrow> wrap_sub a b = a - b"
proof -
  assume h: "b \<le> a" "a \<le> u64_max"
  then have b: "b < 2 ^ 64" "a < 2 ^ 64" using u64_max_less by linarith+
  then have "a + (2 ^ 64 - b mod 2 ^ 64) = (a - b) + 2 ^ 64" using h by simp
  then have "wrap_sub a b = (a - b) mod 2 ^ 64" by (simp add: wrap_sub_def)
  with b show ?thesis by simp
qed

lemma wrap_add_exact: "a + b \<le> u64_max \<Longrightarrow> wrap_add a b = a + b"
  using u64_max_less by (simp add: wrap_add_def)

text \<open>A saturating sum over a list saturates once, whatever the order of the additions.\<close>

lemma fold_sat_add: "foldl (\<lambda>s x. sat_add s (f x)) a xs = min u64_max (a + (\<Sum>x\<leftarrow>xs. f x))"
  if "a \<le> u64_max"
  using that
proof (induction xs arbitrary: a)
  case (Cons x xs)
  have "sat_add a (f x) \<le> u64_max" by simp
  from Cons.IH [OF this] show ?case by (simp add: sat_add_def min_def)
qed simp

section \<open>Results\<close>

text \<open>The \<^verbatim>\<open>?\<close> operator: return the error, continue with the value.\<close>

definition res_bind :: "'e + 'a \<Rightarrow> ('a \<Rightarrow> 'e + 'b) \<Rightarrow> 'e + 'b" where
  "res_bind m f = (case m of Inl e \<Rightarrow> Inl e | Inr x \<Rightarrow> f x)"

lemma res_bind_simps [simp]:
  "res_bind (Inl e) f = Inl e" "res_bind (Inr x) f = f x"
  by (simp_all add: res_bind_def)

lemma res_bind_Inr_iff: "res_bind m f = Inr y \<longleftrightarrow> (\<exists>x. m = Inr x \<and> f x = Inr y)"
  by (cases m) simp_all

lemma res_bind_Inl_iff: "res_bind m f = Inl e \<longleftrightarrow> m = Inl e \<or> (\<exists>x. m = Inr x \<and> f x = Inl e)"
  by (cases m) auto

definition res_guard :: "bool \<Rightarrow> 'e \<Rightarrow> 'e + unit" where
  "res_guard bad e = (if bad then Inl e else Inr ())"

lemma res_guard_Inr [simp]: "res_guard bad e = Inr u \<longleftrightarrow> \<not> bad"
  by (simp add: res_guard_def)

text \<open>\<^verbatim>\<open>iter().map(f).collect::<Result<Vec<_>, _>>()\<close>: the first error wins.\<close>

fun res_map :: "('a \<Rightarrow> 'e + 'b) \<Rightarrow> 'a list \<Rightarrow> 'e + 'b list" where
  "res_map f [] = Inr []"
| "res_map f (x # xs) = res_bind (f x) (\<lambda>y. res_bind (res_map f xs) (\<lambda>ys. Inr (y # ys)))"

lemma res_map_Inr: "res_map f xs = Inr ys \<longleftrightarrow> list_all2 (\<lambda>x y. f x = Inr y) xs ys"
  by (induction xs arbitrary: ys) (auto simp: res_bind_Inr_iff list_all2_Cons1)

fun each_ok :: "('a \<Rightarrow> 'e + unit) \<Rightarrow> 'a list \<Rightarrow> 'e + unit" where
  "each_ok f [] = Inr ()"
| "each_ok f (x # xs) = res_bind (f x) (\<lambda>_. each_ok f xs)"

lemma each_ok_Inr: "each_ok f xs = Inr () \<longleftrightarrow> (\<forall>x \<in> set xs. f x = Inr ())"
  by (induction xs) (auto simp: res_bind_Inr_iff)

definition ok_or :: "'a option \<Rightarrow> 'e \<Rightarrow> 'e + 'a" where
  "ok_or v e = (case v of None \<Rightarrow> Inl e | Some x \<Rightarrow> Inr x)"

lemma ok_or_simps [simp]: "ok_or None e = Inl e" "ok_or (Some x) e = Inr x"
  by (simp_all add: ok_or_def)

lemma ok_or_Inr [simp]: "ok_or v e = Inr x \<longleftrightarrow> v = Some x"
  by (cases v) simp_all

section \<open>Time\<close>

text \<open>Instants and durations in nanoseconds; the readings of the clock during one call, in order.\<close>

definition duration_from_secs :: "nat \<Rightarrow> nat" where
  "duration_from_secs secs = secs * 1000000000"

type_synonym clock = "nat \<Rightarrow> nat"

end
