(* ===== verification/F64.thy ===== *)
theory F64
  imports Prelude
begin

text \<open>
  IEEE 754 binary64 arithmetic as the Rust \<^verbatim>\<open>f64\<close> type uses it. A finite value is the rational
  number it denotes; \<open>rne\<close> is round-half-to-even and \<open>rnd_pos\<close> rounds a positive rational to
  the 53-bit significand of its binade (52 fraction bits, subnormals below \<open>2 powi -1022\<close>);
  \<open>f64_round\<close> adds the overflow to infinity. Every operation is the exact rational operation
  followed by one rounding, as the standard prescribes. The sign of zero is not kept: the code
  never divides by a zero and never prints a float it computed with.
  The lemmas show that rounding is monotone and idempotent and exact on the integers up to
  \<open>2 ^ 53\<close>, which is what the token accounting relies on.
\<close>

section \<open>Definitions\<close>

fun nlog2 :: "nat \<Rightarrow> nat" where
  "nlog2 n = (if n < 2 then 0 else Suc (nlog2 (n div 2)))"

declare nlog2.simps [simp del]

definition ilog2 :: "rat \<Rightarrow> int" where
  "ilog2 x = (let (p, q) = quotient_of x;
                  e = int (nlog2 (nat p)) - int (nlog2 (nat q))
              in if 2 powi e \<le> x then e else e - 1)"

definition rne :: "rat \<Rightarrow> int" where
  "rne y = (let f = \<lfloor>y\<rfloor>; d = y - of_int f
            in if d < 1 / 2 then f else if d > 1 / 2 then f + 1
               else if even f then f else f + 1)"

definition qexp :: "rat \<Rightarrow> int" where
  "qexp x = max (ilog2 x - 52) (- 1074)"

definition rnd_pos :: "rat \<Rightarrow> rat" where
  "rnd_pos x = of_int (rne (x / 2 powi qexp x)) * 2 powi qexp x"

definition f64_overflow :: rat where
  "f64_overflow = 2 ^ 1024"

datatype f64 = F_NaN | F_PInf | F_NInf | F_Fin rat

definition f64_round :: "rat \<Rightarrow> f64" where
  "f64_round x =
     (if x = 0 then F_Fin 0
      else if 0 < x then (if rnd_pos x < f64_overflow then F_Fin (rnd_pos x) else F_PInf)
      else (if rnd_pos (- x) < f64_overflow then F_Fin (- rnd_pos (- x)) else F_NInf))"

text \<open>The finite values the format can represent.\<close>

definition f64_rep :: "rat \<Rightarrow> bool" where
  "f64_rep r \<longleftrightarrow> f64_round r = F_Fin r"

fun f64_le :: "f64 \<Rightarrow> f64 \<Rightarrow> bool" where
  "f64_le F_NaN _ = False"
| "f64_le _ F_NaN = False"
| "f64_le F_NInf _ = True"
| "f64_le _ F_PInf = True"
| "f64_le (F_Fin a) (F_Fin b) = (a \<le> b)"
| "f64_le _ _ = False"

fun f64_lt :: "f64 \<Rightarrow> f64 \<Rightarrow> bool" where
  "f64_lt F_NaN _ = False"
| "f64_lt _ F_NaN = False"
| "f64_lt F_NInf F_NInf = False"
| "f64_lt F_NInf _ = True"
| "f64_lt F_PInf _ = False"
| "f64_lt _ F_PInf = True"
| "f64_lt (F_Fin a) (F_Fin b) = (a < b)"
| "f64_lt _ _ = False"

text \<open>\<^verbatim>\<open>f64::is_finite\<close>, \<^verbatim>\<open>is_nan\<close> and \<^verbatim>\<open>is_infinite\<close>.\<close>

fun f64_is_finite :: "f64 \<Rightarrow> bool" where
  "f64_is_finite (F_Fin _) = True"
| "f64_is_finite _ = False"

fun f64_is_nan :: "f64 \<Rightarrow> bool" where
  "f64_is_nan F_NaN = True"
| "f64_is_nan _ = False"

fun f64_is_infinite :: "f64 \<Rightarrow> bool" where
  "f64_is_infinite F_PInf = True"
| "f64_is_infinite F_NInf = True"
| "f64_is_infinite _ = False"

fun f64_neg :: "f64 \<Rightarrow> f64" where
  "f64_neg F_NaN = F_NaN"
| "f64_neg F_PInf = F_NInf"
| "f64_neg F_NInf = F_PInf"
| "f64_neg (F_Fin a) = F_Fin (- a)"

fun f64_add :: "f64 \<Rightarrow> f64 \<Rightarrow> f64" where
  "f64_add F_NaN _ = F_NaN"
| "f64_add _ F_NaN = F_NaN"
| "f64_add F_PInf F_NInf = F_NaN"
| "f64_add F_NInf F_PInf = F_NaN"
| "f64_add F_PInf _ = F_PInf"
| "f64_add _ F_PInf = F_PInf"
| "f64_add F_NInf _ = F_NInf"
| "f64_add _ F_NInf = F_NInf"
| "f64_add (F_Fin a) (F_Fin b) = f64_round (a + b)"

definition f64_sub :: "f64 \<Rightarrow> f64 \<Rightarrow> f64" where
  "f64_sub a b = f64_add a (f64_neg b)"

definition f64_signed_inf :: "bool \<Rightarrow> f64" where
  "f64_signed_inf pos = (if pos then F_PInf else F_NInf)"

fun f64_mul :: "f64 \<Rightarrow> f64 \<Rightarrow> f64" where
  "f64_mul (F_Fin a) (F_Fin b) = f64_round (a * b)"
| "f64_mul F_NaN _ = F_NaN"
| "f64_mul _ F_NaN = F_NaN"
| "f64_mul (F_Fin a) F_PInf = (if a = 0 then F_NaN else f64_signed_inf (0 < a))"
| "f64_mul (F_Fin a) F_NInf = (if a = 0 then F_NaN else f64_signed_inf (a < 0))"
| "f64_mul F_PInf (F_Fin b) = (if b = 0 then F_NaN else f64_signed_inf (0 < b))"
| "f64_mul F_NInf (F_Fin b) = (if b = 0 then F_NaN else f64_signed_inf (b < 0))"
| "f64_mul F_PInf F_PInf = F_PInf"
| "f64_mul F_NInf F_NInf = F_PInf"
| "f64_mul F_PInf F_NInf = F_NInf"
| "f64_mul F_NInf F_PInf = F_NInf"

text \<open>Division; a zero divisor is read as positive zero.\<close>

fun f64_div :: "f64 \<Rightarrow> f64 \<Rightarrow> f64" where
  "f64_div (F_Fin a) (F_Fin b) =
     (if b = 0 then (if a = 0 then F_NaN else f64_signed_inf (0 < a)) else f64_round (a / b))"
| "f64_div F_NaN _ = F_NaN"
| "f64_div _ F_NaN = F_NaN"
| "f64_div (F_Fin _) F_PInf = F_Fin 0"
| "f64_div (F_Fin _) F_NInf = F_Fin 0"
| "f64_div F_PInf (F_Fin b) = f64_signed_inf (0 \<le> b)"
| "f64_div F_NInf (F_Fin b) = f64_signed_inf (b < 0)"
| "f64_div _ _ = F_NaN"

text \<open>\<^verbatim>\<open>f64::min\<close> and \<^verbatim>\<open>f64::max\<close> ignore one NaN operand.\<close>

definition f64_min :: "f64 \<Rightarrow> f64 \<Rightarrow> f64" where
  "f64_min a b = (if f64_is_nan a then b else if f64_is_nan b then a else if f64_le a b then a else b)"

definition f64_max :: "f64 \<Rightarrow> f64 \<Rightarrow> f64" where
  "f64_max a b = (if f64_is_nan a then b else if f64_is_nan b then a else if f64_le a b then b else a)"

fun f64_ceil :: "f64 \<Rightarrow> f64" where
  "f64_ceil (F_Fin a) = F_Fin (of_int \<lceil>a\<rceil>)"
| "f64_ceil x = x"

fun f64_floor :: "f64 \<Rightarrow> f64" where
  "f64_floor (F_Fin a) = F_Fin (of_int \<lfloor>a\<rfloor>)"
| "f64_floor x = x"

text \<open>\<^verbatim>\<open>as f64\<close> on a \<^verbatim>\<open>u64\<close> rounds to nearest; \<^verbatim>\<open>as u64\<close> truncates and saturates.\<close>

definition f64_of_u64 :: "nat \<Rightarrow> f64" where
  "f64_of_u64 n = f64_round (of_nat n)"

fun f64_to_u64 :: "f64 \<Rightarrow> nat" where
  "f64_to_u64 F_NaN = 0"
| "f64_to_u64 F_NInf = 0"
| "f64_to_u64 F_PInf = u64_max"
| "f64_to_u64 (F_Fin a) = min u64_max (nat \<lfloor>a\<rfloor>)"

section \<open>Rounding is monotone, idempotent and exact on small integers\<close>

lemma nlog2_bounds: "0 < n \<Longrightarrow> 2 ^ nlog2 n \<le> n \<and> n < 2 ^ Suc (nlog2 n)"
proof (induction n rule: nlog2.induct)
  case (1 n)
  show ?case
  proof (cases "n < 2")
    case True
    with "1.prems" show ?thesis by (simp add: nlog2.simps [of n])
  next
    case False
    then have "0 < n div 2" by simp
    with False "1.IH" have "2 ^ nlog2 (n div 2) \<le> n div 2 \<and> n div 2 < 2 ^ Suc (nlog2 (n div 2))"
      by blast
    with False show ?thesis by (auto simp: nlog2.simps [of n])
  qed
qed

lemma pow2_pos [simp]: "0 < (2::rat) powi e"
  by (simp add: zero_less_power_int)

lemma ilog2_bounds:
  assumes "0 < x"
  shows "2 powi (ilog2 x) \<le> x \<and> x < 2 powi (ilog2 x + 1)"
proof -
  obtain p q where pq: "quotient_of x = (p, q)" by (cases "quotient_of x")
  then have x: "x = of_int p / of_int q" and q: "0 < q"
    by (auto intro: quotient_of_div quotient_of_denom_pos)
  from assms x q have p: "0 < p" by (simp add: zero_less_divide_iff)
  define a where "a = nlog2 (nat p)"
  define b where "b = nlog2 (nat q)"
  define e where "e = int a - int b"
  have "2 ^ a \<le> nat p" "nat p < 2 ^ Suc a"
    using nlog2_bounds [of "nat p"] p by (auto simp: a_def)
  then have "(2::int) ^ a \<le> p" "p < 2 ^ Suc a"
    using p by (auto simp: nat_less_iff le_nat_iff)
  then have pa: "(2::rat) ^ a \<le> of_int p" "of_int p < (2::rat) ^ Suc a"
    by (metis of_int_le_iff of_int_numeral of_int_power, metis of_int_less_iff of_int_numeral of_int_power)
  have "2 ^ b \<le> nat q" "nat q < 2 ^ Suc b"
    using nlog2_bounds [of "nat q"] q by (auto simp: b_def)
  then have "(2::int) ^ b \<le> q" "q < 2 ^ Suc b"
    using q by (auto simp: nat_less_iff le_nat_iff)
  then have qb: "(2::rat) ^ b \<le> of_int q" "of_int q < (2::rat) ^ Suc b"
    by (metis of_int_le_iff of_int_numeral of_int_power, metis of_int_less_iff of_int_numeral of_int_power)
  have e: "(2::rat) powi e = 2 ^ a / 2 ^ b"
    by (simp add: e_def power_int_diff)
  have qpos: "(0::rat) < of_int q" using q by simp
  have up: "x < 2 powi (e + 1)"
  proof -
    have "x < 2 ^ Suc a / of_int q" using pa qpos x by (simp add: divide_strict_right_mono)
    also have "\<dots> \<le> 2 ^ Suc a / 2 ^ b" using qb qpos by (intro divide_left_mono) auto
    finally show ?thesis using e by (simp add: power_int_add mult.commute)
  qed
  have lo: "2 powi (e - 1) \<le> x"
  proof -
    have "2 powi (e - 1) = (2::rat) ^ a / 2 ^ Suc b" using e by (simp add: power_int_diff)
    also have "\<dots> \<le> 2 ^ a / of_int q" using qb qpos by (intro divide_left_mono) auto
    also have "\<dots> \<le> x" using pa qpos x by (simp add: divide_right_mono)
    finally show ?thesis .
  qed
  show ?thesis
    using up lo pq by (auto simp: ilog2_def a_def [symmetric] b_def [symmetric] e_def [symmetric] Let_def)
qed

lemma pow2_less_iff: "(2::rat) powi a < 2 powi b \<longleftrightarrow> a < b"
proof
  show "(2::rat) powi a < 2 powi b" if "a < b"
    using that by (rule power_int_strict_increasing) simp
  show "a < b" if "(2::rat) powi a < 2 powi b"
  proof (rule ccontr)
    assume "\<not> a < b"
    then have "(2::rat) powi b \<le> 2 powi a" by (intro power_int_increasing) auto
    with that show False by simp
  qed
qed

lemma pow2_le_iff: "(2::rat) powi a \<le> 2 powi b \<longleftrightarrow> a \<le> b"
  using pow2_less_iff [of b a] by linarith

lemma ilog2_eqI:
  assumes "2 powi e \<le> x" and "x < 2 powi (e + 1)"
  shows "ilog2 x = e"
proof -
  have "0 < x" using assms(1) pow2_pos [of e] by linarith
  then have "(2::rat) powi e < 2 powi (ilog2 x + 1)" "(2::rat) powi (ilog2 x) < 2 powi (e + 1)"
    using ilog2_bounds [of x] assms by linarith+
  then show ?thesis by (simp add: pow2_less_iff)
qed

lemma ilog2_mono: "0 < x \<Longrightarrow> x \<le> y \<Longrightarrow> ilog2 x \<le> ilog2 y"
proof -
  assume "0 < x" "x \<le> y"
  then have "(2::rat) powi (ilog2 x) < 2 powi (ilog2 y + 1)"
    using ilog2_bounds [of x] ilog2_bounds [of y] by linarith
  then show ?thesis by (simp add: pow2_less_iff)
qed

lemma rne_of_int [simp]: "rne (of_int n) = n"
  by (simp add: rne_def)

lemma rne_bounds: "\<lfloor>y\<rfloor> \<le> rne y \<and> rne y \<le> \<lfloor>y\<rfloor> + 1"
  by (simp add: rne_def Let_def)

lemma rne_mono: assumes "x \<le> y" shows "rne x \<le> rne y"
proof (cases "\<lfloor>x\<rfloor> = \<lfloor>y\<rfloor>")
  case True
  with assms show ?thesis by (auto simp: rne_def Let_def)
next
  case False
  with assms have "\<lfloor>x\<rfloor> + 1 \<le> \<lfloor>y\<rfloor>" using floor_mono [OF assms] by linarith
  with rne_bounds [of x] rne_bounds [of y] show ?thesis by linarith
qed

lemma rne_half: "\<bar>of_int (rne y) - y\<bar> \<le> 1 / 2"
proof -
  have "of_int \<lfloor>y\<rfloor> \<le> y" "y < of_int \<lfloor>y\<rfloor> + 1" using floor_correct [of y] by simp_all
  then show ?thesis by (auto simp: rne_def Let_def abs_le_iff)
qed

lemma pow2_multiple: assumes "a \<le> b" shows "(2::rat) powi b / 2 powi a = of_int (2 ^ nat (b - a))"
proof -
  have "(2::rat) powi b / 2 powi a = 2 powi (b - a)" by (simp add: power_int_diff)
  also have "\<dots> = 2 ^ nat (b - a)" using assms by (simp add: power_int_def)
  finally show ?thesis by simp
qed

lemma rnd_pos_mono: assumes "0 < x" "x \<le> y" shows "rnd_pos x \<le> rnd_pos y"
proof -
  have q: "qexp x \<le> qexp y" using ilog2_mono [OF assms] by (simp add: qexp_def)
  show ?thesis
  proof (cases "qexp x = qexp y")
    case True
    have "x / 2 powi qexp y \<le> y / 2 powi qexp y" using assms by (simp add: divide_right_mono)
    then have "rne (x / 2 powi qexp y) \<le> rne (y / 2 powi qexp y)" by (rule rne_mono)
    then show ?thesis using True by (simp add: rnd_pos_def)
  next
    case False
    define m where "m = ilog2 y"
    from False q have qy: "qexp y = m - 52" "ilog2 x < m" "qexp x < m - 52"
      by (auto simp: qexp_def m_def max_def split: if_splits)
    have xm: "x \<le> 2 powi m"
      using ilog2_bounds [OF assms(1)] qy pow2_le_iff [of "ilog2 x + 1" m] by linarith
    have my: "2 powi m \<le> y" using ilog2_bounds [of y] assms by (simp add: m_def)
    have exact: "of_int (rne (2 powi m / 2 powi a)) * 2 powi a = (2::rat) powi m" if "a \<le> m" for a
      using pow2_multiple [OF that] by (metis nonzero_eq_divide_eq pow2_pos rne_of_int less_irrefl)
    have "rnd_pos x \<le> of_int (rne (2 powi m / 2 powi qexp x)) * 2 powi qexp x"
      using rne_mono [of "x / 2 powi qexp x" "2 powi m / 2 powi qexp x"] xm
      by (simp add: rnd_pos_def divide_right_mono)
    also have "\<dots> = 2 powi m" using qy by (intro exact) simp
    also have "\<dots> = of_int (rne (2 powi m / 2 powi qexp y)) * 2 powi qexp y"
      using qy by (intro exact [symmetric]) simp
    also have "\<dots> \<le> rnd_pos y"
      using rne_mono [of "2 powi m / 2 powi qexp y" "y / 2 powi qexp y"] my
      by (simp add: rnd_pos_def divide_right_mono)
    finally show ?thesis .
  qed
qed

lemma rnd_pos_exact:
  assumes "x / 2 powi qexp x = of_int n"
  shows "rnd_pos x = x"
  using assms by (simp add: rnd_pos_def) (metis nonzero_eq_divide_eq pow2_pos less_irrefl)

lemma rnd_pos_nat:
  assumes "0 < n" "n \<le> 2 ^ 53"
  shows "rnd_pos (of_nat n) = of_nat n"
proof (cases "n = 2 ^ 53")
  case True
  have "ilog2 (2 ^ 53) = 53" by (rule ilog2_eqI) (simp_all add: power_int_def)
  then have "qexp (2 ^ 53) = 1" by (simp add: qexp_def)
  then show ?thesis using True rnd_pos_exact [of "2 ^ 53" "2 ^ 52"] by simp
next
  case False
  with assms have lt: "(of_nat n :: rat) < 2 ^ 53" by (metis le_neq_implies_less of_nat_less_iff of_nat_numeral of_nat_power)
  have pos: "(0::rat) < of_nat n" using assms by simp
  have "ilog2 (of_nat n) \<le> 52"
  proof -
    have "2 powi (ilog2 (of_nat n)) < (2::rat) powi 53"
      using ilog2_bounds [OF pos] lt by (simp add: power_int_def)
    then have "ilog2 (of_nat n) < 53" by (simp only: pow2_less_iff)
    then show ?thesis by simp
  qed
  then have "qexp (of_nat n) \<le> 0" by (simp add: qexp_def)
  then have "of_nat n / (2::rat) powi qexp (of_nat n) = of_int (int n * 2 ^ nat (- qexp (of_nat n)))"
    using pow2_multiple [of "qexp (of_nat n)" 0] by (simp add: divide_inverse)
  then show ?thesis by (rule rnd_pos_exact)
qed


lemma rnd_pos_pow2:
  assumes "- 1074 \<le> e"
  shows "rnd_pos (2 powi e) = 2 powi e"
proof -
  have "ilog2 (2 powi e) = e" by (rule ilog2_eqI) (simp_all add: pow2_less_iff)
  with assms have "qexp (2 powi e) \<le> e" by (simp add: qexp_def)
  from rnd_pos_exact [OF pow2_multiple [OF this]] show ?thesis .
qed

lemma rnd_pos_nonneg: "0 < x \<Longrightarrow> 0 \<le> rnd_pos x"
  using rne_mono [of 0 "x / 2 powi qexp x"] rne_of_int [of 0] by (simp add: rnd_pos_def)

lemma rnd_pos_idem:
  assumes "0 < x" and "0 < rnd_pos x"
  shows "rnd_pos (rnd_pos x) = rnd_pos x"
proof -
  define r where "r = rnd_pos x"
  define n where "n = rne (x / 2 powi qexp x)"
  have r: "r = of_int n * 2 powi qexp x" by (simp add: r_def n_def rnd_pos_def)
  show ?thesis
  proof (cases "qexp r \<le> qexp x")
    case True
    have "r / 2 powi qexp r = of_int n * (2 powi qexp x / 2 powi qexp r)" by (simp add: r)
    also have "\<dots> = of_int (n * 2 ^ nat (qexp x - qexp r))"
      using pow2_multiple [OF True] by simp
    finally have "rnd_pos r = r" by (rule rnd_pos_exact)
    then show ?thesis by (simp add: r_def)
  next
    case False
    define m where "m = max (ilog2 x + 1) (- 1074)"
    from False have gt: "ilog2 x < ilog2 r" "- 1074 < ilog2 r - 52"
      by (auto simp: qexp_def max_def split: if_splits)
    have big: "- 1074 \<le> m" by (simp add: m_def)
    have "m \<le> ilog2 r" using gt by (simp add: m_def)
    then have ge: "2 powi m \<le> r"
      using ilog2_bounds [of r] assms(2) pow2_le_iff [of m "ilog2 r"] by (simp add: r_def)
    have "x \<le> 2 powi m"
      using ilog2_bounds [OF assms(1)] pow2_le_iff [of "ilog2 x + 1" m] by (simp add: m_def)
    then have "r \<le> rnd_pos (2 powi m)" using rnd_pos_mono [OF assms(1)] by (simp add: r_def)
    also have "\<dots> = 2 powi m" by (rule rnd_pos_pow2) (rule big)
    finally have "r = 2 powi m" using ge by simp
    then show ?thesis using rnd_pos_pow2 [OF big] by (simp add: r_def)
  qed
qed

lemma f64_round_mono: assumes "x \<le> y" shows "f64_le (f64_round x) (f64_round y)"
proof -
  consider "x = y" | "0 < x" "x < y" | "x \<le> 0" "0 \<le> y" | "x < y" "y < 0"
    using assms by force
  then show ?thesis
  proof cases
    case 1 then show ?thesis by (simp add: f64_round_def)
  next
    case 2 then show ?thesis using rnd_pos_mono [of x y] by (auto simp: f64_round_def)
  next
    case 3 then show ?thesis
      using rnd_pos_nonneg [of y] rnd_pos_nonneg [of "- x"] by (auto simp: f64_round_def)
  next
    case 4 then show ?thesis using rnd_pos_mono [of "- y" "- x"] by (auto simp: f64_round_def)
  qed
qed

lemma f64_rep_0 [simp]: "f64_rep 0" by (simp add: f64_rep_def f64_round_def)

lemma f64_rep_nat: assumes "n \<le> 2 ^ 53" shows "f64_rep (of_nat n)"
proof (cases "n = 0")
  case False
  have "(of_nat n :: rat) \<le> 2 ^ 53" using assms by (metis of_nat_le_iff of_nat_numeral of_nat_power)
  also have "\<dots> < f64_overflow" unfolding f64_overflow_def by (rule power_strict_increasing) simp_all
  finally show ?thesis using False assms by (simp add: f64_rep_def f64_round_def rnd_pos_nat)
qed simp

lemma rnd_pos_idem_or_zero: "0 < x \<Longrightarrow> rnd_pos x = 0 \<or> 0 < rnd_pos x \<and> rnd_pos (rnd_pos x) = rnd_pos x"
  using rnd_pos_nonneg [of x] rnd_pos_idem [of x] by linarith

lemma f64_rep_round: "f64_round x = F_Fin r \<Longrightarrow> f64_rep r"
  using rnd_pos_idem_or_zero [of x] rnd_pos_idem_or_zero [of "- x"]
  by (auto simp: f64_round_def f64_rep_def split: if_splits)

lemma f64_round_between:
  assumes "f64_rep a" "f64_rep b" "a \<le> x" "x \<le> b"
  shows "\<exists>r. f64_round x = F_Fin r \<and> f64_rep r \<and> a \<le> r \<and> r \<le> b"
proof -
  have "f64_le (F_Fin a) (f64_round x)" "f64_le (f64_round x) (F_Fin b)"
    using f64_round_mono assms by (metis f64_rep_def)+
  then obtain r where "f64_round x = F_Fin r" "a \<le> r" "r \<le> b"
    by (cases "f64_round x") auto
  then show ?thesis using f64_rep_round by blast
qed

text \<open>Taking a whole number from a balance of at most \<open>2 ^ 53\<close> loses nothing.\<close>

lemma pow2_scale: "q' \<le> q \<Longrightarrow> x / (2::rat) powi q' = x / 2 powi q * of_int (2 ^ nat (q - q'))"
  using pow2_multiple [of q' q] pow2_pos [of q] by (simp add: field_simps)

lemma f64_rep_diff:
  assumes r: "f64_rep r" and n: "of_nat n \<le> r" and le: "r \<le> 2 ^ 53"
  shows "f64_rep (r - of_nat n)"
proof (cases "r = 2 ^ 53 \<or> r = of_nat n")
  case True
  then show ?thesis
  proof
    assume r: "r = 2 ^ 53"
    then have "r - of_nat n = of_nat (2 ^ 53 - n)" using n by (simp add: of_nat_diff)
    then show ?thesis using f64_rep_nat [of "2 ^ 53 - n"] by simp
  qed simp
next
  case False
  define x where "x = r - of_nat n"
  have x: "0 < x" "x \<le> r" "r < 2 ^ 53" "0 < r" using False n le by (auto simp: x_def)
  have rr: "rnd_pos r = r" using r x(4) by (auto simp: f64_rep_def f64_round_def split: if_splits)
  define m where "m = rne (r / 2 powi qexp r)"
  have m: "r / 2 powi qexp r = of_int m"
    using rr pow2_pos [of "qexp r"] unfolding rnd_pos_def m_def by (metis less_irrefl nonzero_eq_divide_eq)
  have "(2::rat) powi ilog2 r < 2 powi 53" using ilog2_bounds [OF x(4)] x(3) by (simp add: power_int_def)
  then have q0: "qexp r \<le> 0" unfolding pow2_less_iff qexp_def by simp
  have qq: "qexp x \<le> qexp r" using ilog2_mono [OF x(1,2)] by (simp add: qexp_def)
  have "x / 2 powi qexp x = r / 2 powi qexp x - of_nat n / 2 powi qexp x"
    by (simp add: x_def diff_divide_distrib)
  also have "\<dots> = of_int m * of_int (2 ^ nat (qexp r - qexp x)) - of_int (int n) * of_int (2 ^ nat (0 - qexp x))"
    using pow2_scale [OF qq, of r] pow2_scale [of "qexp x" 0 "of_nat n"] qq q0 by (simp add: m)
  also have "\<dots> = of_int (m * 2 ^ nat (qexp r - qexp x) - int n * 2 ^ nat (0 - qexp x))" by simp
  finally have "rnd_pos x = x" by (rule rnd_pos_exact)
  moreover have "x < f64_overflow"
  proof -
    have "(2::rat) ^ 53 < f64_overflow" unfolding f64_overflow_def by (rule power_strict_increasing) simp_all
    with x show ?thesis by linarith
  qed
  ultimately show ?thesis using x(1) by (simp add: f64_rep_def f64_round_def flip: x_def)
qed

lemma f64_of_u64_exact: "n \<le> 2 ^ 53 \<Longrightarrow> f64_of_u64 n = F_Fin (of_nat n)"
  using f64_rep_nat by (simp add: f64_of_u64_def f64_rep_def)

text \<open>Values at least zero, infinity included.\<close>

definition f64_nonneg :: "f64 \<Rightarrow> bool" where
  "f64_nonneg x \<longleftrightarrow> x = F_PInf \<or> (\<exists>r \<ge> 0. x = F_Fin r)"

lemma f64_nonneg_round: "0 \<le> x \<Longrightarrow> f64_nonneg (f64_round x)"
  using rnd_pos_nonneg [of x] by (auto simp: f64_nonneg_def f64_round_def)

lemma f64_nonneg_of_u64: "f64_nonneg (f64_of_u64 n)"
  by (simp add: f64_of_u64_def f64_nonneg_round)

lemma f64_nonneg_div: "f64_nonneg x \<Longrightarrow> 0 < r \<Longrightarrow> f64_nonneg (f64_div x (F_Fin r))"
  using f64_nonneg_round by (cases x) (auto simp: f64_nonneg_def f64_signed_inf_def)

lemma f64_nonneg_mul: "f64_nonneg x \<Longrightarrow> 0 < r \<Longrightarrow> f64_nonneg (f64_mul x (F_Fin r))"
  using f64_nonneg_round by (cases x) (auto simp: f64_nonneg_def f64_signed_inf_def)

lemma f64_nonneg_le_inf: "f64_nonneg x \<Longrightarrow> f64_le x F_PInf"
  by (auto simp: f64_nonneg_def)

lemma f64_nonneg_cases:
  assumes "f64_nonneg x" and "f64_le x y"
  obtains (fin) a b where "x = F_Fin a" "y = F_Fin b" "0 \<le> a" "a \<le> b" | (inf) "y = F_PInf"
  using assms by (cases y) (auto simp: f64_nonneg_def)

lemma f64_div_mono:
  assumes "f64_nonneg x" and "f64_le x y" and "0 < r"
  shows "f64_le (f64_div x (F_Fin r)) (f64_div y (F_Fin r))"
  using assms(1,2)
proof (cases rule: f64_nonneg_cases)
  case (fin a b)
  then show ?thesis using f64_round_mono [of "a / r" "b / r"] assms(3) by (simp add: divide_right_mono)
next
  case inf
  then show ?thesis using f64_nonneg_le_inf [OF f64_nonneg_div [OF assms(1,3)]] assms(3) by (simp add: f64_signed_inf_def)
qed

lemma f64_mul_mono:
  assumes "f64_nonneg x" and "f64_le x y" and "0 < r"
  shows "f64_le (f64_mul x (F_Fin r)) (f64_mul y (F_Fin r))"
  using assms(1,2)
proof (cases rule: f64_nonneg_cases)
  case (fin a b)
  then show ?thesis using f64_round_mono [of "a * r" "b * r"] assms(3) by simp
next
  case inf
  then show ?thesis using f64_nonneg_le_inf [OF f64_nonneg_mul [OF assms(1,3)]] assms(3) by (simp add: f64_signed_inf_def)
qed

lemma f64_add_mono:
  assumes "f64_nonneg x" and "f64_le x y" and "0 \<le> r"
  shows "f64_le (f64_add (F_Fin r) x) (f64_add (F_Fin r) y)"
  using assms(1,2)
proof (cases rule: f64_nonneg_cases)
  case (fin a b)
  then show ?thesis using f64_round_mono [of "r + a" "r + b"] by simp
next
  case inf
  have "f64_nonneg (f64_add (F_Fin r) x)"
  proof (cases x)
    case (F_Fin a)
    with assms f64_nonneg_round [of "r + a"] show ?thesis by (simp add: f64_nonneg_def)
  qed (use assms in \<open>auto simp: f64_nonneg_def\<close>)
  with inf show ?thesis by (simp add: f64_nonneg_le_inf)
qed

text \<open>Topping up a representable balance and capping it keeps it representable and in range.\<close>

lemma f64_topup:
  assumes "f64_rep r" and "r \<le> c" and "f64_rep c" and "f64_nonneg d"
  shows "\<exists>r'. f64_min (f64_add (F_Fin r) d) (F_Fin c) = F_Fin r' \<and> f64_rep r' \<and> r \<le> r' \<and> r' \<le> c"
proof (cases d)
  case (F_Fin y)
  then have y: "0 \<le> y" using assms(4) by (auto simp: f64_nonneg_def)
  have "f64_le (F_Fin r) (f64_round (r + y))"
    using f64_round_mono [of r "r + y"] y assms(1) by (simp add: f64_rep_def)
  then show ?thesis using assms f64_rep_round [of "r + y"]
    by (cases "f64_round (r + y)") (auto simp: F_Fin f64_min_def)
qed (use assms in \<open>auto simp: f64_nonneg_def f64_min_def\<close>)

lemma f64_drain:
  assumes "f64_rep r" and "0 \<le> r" and "f64_nonneg d"
  shows "\<exists>r'. f64_max (f64_sub (F_Fin r) d) (F_Fin 0) = F_Fin r' \<and> f64_rep r' \<and> 0 \<le> r' \<and> r' \<le> r"
proof (cases d)
  case (F_Fin y)
  then have y: "0 \<le> y" using assms(3) by (auto simp: f64_nonneg_def)
  have "f64_le (f64_round (r - y)) (F_Fin r)"
    using f64_round_mono [of "r - y" r] y assms(1) by (simp add: f64_rep_def)
  then show ?thesis using assms f64_rep_round [of "r - y"]
    by (cases "f64_round (r - y)") (auto simp: F_Fin f64_sub_def f64_max_def)
qed (use assms in \<open>auto simp: f64_nonneg_def f64_max_def f64_sub_def\<close>)

lemma f64_round_numeral [simp]:
  "(numeral n :: nat) \<le> 2 ^ 53 \<Longrightarrow> f64_round (numeral n) = F_Fin (numeral n)"
  using f64_rep_nat [of "numeral n"] by (simp add: f64_rep_def)

lemma f64_round_0_1 [simp]: "f64_round 0 = F_Fin 0" "f64_round 1 = F_Fin 1"
  using f64_rep_nat [of 0] f64_rep_nat [of 1] by (simp_all add: f64_rep_def)

end
