(* ===== verification/Bookkeeping.thy ===== *)
theory Bookkeeping
  imports Prelude
begin

text \<open>
  The bookkeeping both in-process ledgers share: a key map whose states own reservation ids, the
  reverse map from id to key, the id sequence and the two atomic counters. The invariant says
  that the counters are the sizes they count, that the two maps agree, and that both caps hold;
  the lemmas carry it across the four ways the ledgers touch these fields.
\<close>

definition id_count :: "('s \<Rightarrow> nat list) \<Rightarrow> (string \<times> 's) list \<Rightarrow> nat" where
  "id_count ids ks = (\<Sum>p\<leftarrow>ks. length (ids (snd p)))"

definition owns :: "('s \<Rightarrow> nat list) \<Rightarrow> (string \<times> 's) list \<Rightarrow> string \<Rightarrow> nat \<Rightarrow> bool" where
  "owns ids ks k i \<longleftrightarrow> (\<exists>s. map_of ks k = Some s \<and> i \<in> set (ids s))"

definition book_inv ::
  "('s \<Rightarrow> nat list) \<Rightarrow> nat \<Rightarrow> nat \<Rightarrow> (string \<times> 's) list \<Rightarrow> (nat \<times> string) list \<Rightarrow> nat \<Rightarrow> nat \<Rightarrow> nat \<Rightarrow> bool"
where
  "book_inv ids mk ma ks rs nid kc ar \<longleftrightarrow>
     distinct (map fst ks) \<and> distinct (map fst rs) \<and> (\<forall>k s. map_of ks k = Some s \<longrightarrow> distinct (ids s)) \<and>
     kc = length ks \<and> kc \<le> mk \<and> mk \<le> u64_max \<and>
     ar = id_count ids ks \<and> ar \<le> ma \<and> ma \<le> u64_max \<and>
     (\<forall>i k. map_of rs i = Some k \<longleftrightarrow> owns ids ks k i) \<and>
     (\<forall>i \<in> fst ` set rs. i < nid)"

text \<open>Forget a list of reservation ids (\<^verbatim>\<open>self.reservations.remove(id)\<close> in a loop).\<close>

definition forget_ids :: "nat list \<Rightarrow> (nat \<times> string) list \<Rightarrow> (nat \<times> string) list" where
  "forget_ids is rs = filter (\<lambda>(i, _). i \<notin> set is) rs"

section \<open>Association lists\<close>

lemma sum_list_delete:
  fixes f :: "'k \<times> 'v \<Rightarrow> nat"
  assumes "distinct (map fst xs)" and "map_of xs k = Some v"
  shows "(\<Sum>p\<leftarrow>AList.delete k xs. f p) + f (k, v) = (\<Sum>p\<leftarrow>xs. f p)"
  using assms
proof (induction xs)
  case (Cons p xs)
  show ?case
  proof (cases "fst p = k")
    case True
    with Cons.prems have "k \<notin> fst ` set xs" "p = (k, v)" by (auto simp: image_iff prod_eq_iff)
    then show ?thesis by simp
  next
    case False
    with Cons show ?thesis by (cases p) auto
  qed
qed simp

lemma sum_list_update_old:
  fixes f :: "'k \<times> 'v \<Rightarrow> nat"
  assumes "distinct (map fst xs)" and "map_of xs k = Some v"
  shows "(\<Sum>p\<leftarrow>AList.update k v' xs. f p) + f (k, v) = (\<Sum>p\<leftarrow>xs. f p) + f (k, v')"
  using assms by (induction xs) auto

lemma update_new: "map_of xs k = None \<Longrightarrow> AList.update k v xs = xs @ [(k, v)]"
  by (induction xs) (auto split: if_splits)

lemma sum_list_update_new:
  fixes f :: "'k \<times> 'v \<Rightarrow> nat"
  assumes "map_of xs k = None"
  shows "(\<Sum>p\<leftarrow>AList.update k v xs. f p) = (\<Sum>p\<leftarrow>xs. f p) + f (k, v)"
  using assms by (induction xs) (auto split: if_splits)

lemma id_count_update:
  assumes "distinct (map fst ks)" and "map_of ks k = Some s"
  shows "id_count ids (AList.update k s' ks) + length (ids s) = id_count ids ks + length (ids s')"
  using sum_list_update_old [OF assms, of "\<lambda>p. length (ids (snd p))" s'] by (simp add: id_count_def)

lemma id_count_update_new:
  assumes "map_of ks k = None"
  shows "id_count ids (AList.update k s' ks) = id_count ids ks + length (ids s')"
  using sum_list_update_new [OF assms, of "\<lambda>p. length (ids (snd p))" s'] by (simp add: id_count_def)

lemma id_count_delete:
  assumes "distinct (map fst ks)" and "map_of ks k = Some s"
  shows "id_count ids (AList.delete k ks) + length (ids s) = id_count ids ks"
  using sum_list_delete [OF assms, of "\<lambda>p. length (ids (snd p))"] by (simp add: id_count_def)

lemma id_count_member:
  "map_of ks k = Some s \<Longrightarrow> length (ids s) \<le> id_count ids ks"
  by (induction ks) (auto simp: id_count_def split: if_splits)

lemma length_update_new: "map_of ks k = None \<Longrightarrow> length (AList.update k v ks) = Suc (length ks)"
  by (induction ks) (auto split: if_splits)

lemma length_update_old: "map_of ks k = Some v' \<Longrightarrow> length (AList.update k v ks) = length ks"
  by (induction ks) (auto split: if_splits)

lemma length_delete_old:
  assumes "distinct (map fst ks)" and "map_of ks k = Some v"
  shows "length (AList.delete k ks) + 1 = length ks"
  using sum_list_delete [OF assms, of "\<lambda>p. 1"] by (simp add: sum_list_triv)

lemma map_of_adelete: "map_of (AList.delete k ks) x = (if x = k then None else map_of ks x)"
  by (simp add: AList.delete_conv')

lemma map_of_update: "map_of (AList.update k v ks) x = (if x = k then Some v else map_of ks x)"
  by (simp add: AList.update_conv')

section \<open>The invariant\<close>

lemma book_inv_update:
  assumes inv: "book_inv ids mk ma ks rs nid kc ar"
    and k: "map_of ks k = Some s"
    and s': "distinct (ids s')"
    and rs': "distinct (map fst rs')"
    and map: "\<And>i. map_of rs' i = (if i \<in> set (ids s') then Some k
                                    else if i \<in> set (ids s) then None else map_of rs i)"
    and fresh: "\<And>i. i \<in> set (ids s') \<Longrightarrow> i \<notin> set (ids s) \<Longrightarrow> map_of rs i = None"
    and count: "ar' + length (ids s) = ar + length (ids s')"
    and cap: "ar' \<le> ma"
    and nid: "nid \<le> nid'" "\<And>i. i \<in> set (ids s') \<Longrightarrow> i < nid'"
  shows "book_inv ids mk ma (AList.update k s' ks) rs' nid' kc ar'"
proof -
  note inv' = inv [unfolded book_inv_def]
  have own: "map_of rs i = Some k' \<longleftrightarrow> owns ids ks k' i" for i k' using inv' by blast
  have "map_of rs' i = Some k' \<longleftrightarrow> owns ids (AList.update k s' ks) k' i" for k' i
  proof (cases "i \<in> set (ids s)")
    case True
    with k have "owns ids ks k i" by (auto simp: owns_def)
    then have "owns ids ks k' i \<longleftrightarrow> k' = k" using own by (metis option.inject)
    with True k show ?thesis by (auto simp: map owns_def map_of_update)
  next
    case False
    with own [of i k'] fresh [of i] k show ?thesis by (auto simp: map owns_def map_of_update)
  qed
  moreover have "\<forall>i \<in> fst ` set rs'. i < nid'"
  proof
    fix i assume "i \<in> fst ` set rs'"
    then have "map_of rs' i \<noteq> None" by (simp add: map_of_eq_None_iff)
    then have "i \<in> set (ids s') \<or> map_of rs i \<noteq> None" by (auto simp: map split: if_splits)
    then have "i \<in> set (ids s') \<or> i \<in> fst ` set rs" by (simp add: map_of_eq_None_iff)
    then show "i < nid'" using inv' nid by fastforce
  qed
  moreover have "\<forall>k'' s''. map_of (AList.update k s' ks) k'' = Some s'' \<longrightarrow> distinct (ids s'')"
    using inv' s' by (simp add: map_of_update)
  ultimately show ?thesis
    using inv' rs' cap count id_count_update [of ks k s ids s'] k length_update_old [OF k, of s']
    by (simp add: book_inv_def AList.distinct_update)
qed

lemma book_inv_new_key:
  assumes inv: "book_inv ids mk ma ks rs nid kc ar"
    and "map_of ks k = None" and "ids s = []" and "kc < mk"
  shows "book_inv ids mk ma (AList.update k s ks) rs nid (kc + 1) ar"
proof -
  note inv' = inv [unfolded book_inv_def]
  have "owns ids (AList.update k s ks) k' i \<longleftrightarrow> owns ids ks k' i" for k' i
    using assms by (auto simp: owns_def map_of_update)
  moreover have "\<forall>k'' s''. map_of (AList.update k s ks) k'' = Some s'' \<longrightarrow> distinct (ids s'')"
    using inv' assms by (simp add: map_of_update)
  ultimately show ?thesis
    using inv' assms length_update_new [of ks k s] id_count_update_new [of ks k ids s]
    by (simp add: book_inv_def AList.distinct_update)
qed

lemma book_inv_drop_key:
  assumes inv: "book_inv ids mk ma ks rs nid kc ar"
    and "map_of ks k = Some s" and "ids s = []"
  shows "book_inv ids mk ma (AList.delete k ks) rs nid (kc - 1) ar"
proof -
  note inv' = inv [unfolded book_inv_def]
  have "owns ids (AList.delete k ks) k' i \<longleftrightarrow> owns ids ks k' i" for k' i
    using assms by (auto simp: owns_def map_of_adelete)
  moreover have "\<forall>k'' s''. map_of (AList.delete k ks) k'' = Some s'' \<longrightarrow> distinct (ids s'')"
    using inv' by (simp add: map_of_adelete)
  ultimately show ?thesis
    using inv' assms length_delete_old [of ks k s] id_count_delete [of ks k s ids]
    by (auto simp: book_inv_def AList.distinct_delete)
qed

lemma book_inv_unique_owner:
  assumes "book_inv ids mk ma ks rs nid kc ar" and "owns ids ks k i" and "owns ids ks k' i"
  shows "k = k'"
  using assms by (metis book_inv_def option.inject)

lemma map_of_forget_ids: "map_of (forget_ids is rs) i = (if i \<in> set is then None else map_of rs i)"
  by (induction rs) (auto simp: forget_ids_def)

lemma forget_ids_single: "forget_ids [i] rs = AList.delete i rs"
  by (auto simp: forget_ids_def AList.delete_eq intro: filter_cong)

lemma distinct_forget_ids: "distinct (map fst rs) \<Longrightarrow> distinct (map fst (forget_ids is rs))"
  unfolding forget_ids_def by (induction rs) auto

lemma length_filter_notin:
  assumes "distinct xs" and "distinct es" and "set es \<subseteq> set xs"
  shows "length (filter (\<lambda>x. x \<notin> set es) xs) + length es = length xs"
proof -
  have "length (filter (\<lambda>x. x \<in> set es) xs) = card (set es)"
    using assms by (subst distinct_card [symmetric]) (auto intro: arg_cong [of _ _ card])
  then show ?thesis
    using sum_length_filter_compl [of "\<lambda>x. x \<in> set es" xs] distinct_card [OF assms(2)] by simp
qed

lemma book_inv_forget:
  assumes inv: "book_inv ids mk ma ks rs nid kc ar"
    and k: "map_of ks k = Some s"
    and s': "ids s' = filter (\<lambda>i. i \<notin> set es) (ids s)"
    and es: "distinct es" "set es \<subseteq> set (ids s)"
  shows "book_inv ids mk ma (AList.update k s' ks) (forget_ids es rs) nid kc (wrap_sub ar (length es))"
proof -
  note inv' = inv [unfolded book_inv_def]
  have d: "distinct (ids s)" and ar: "length (ids s) \<le> ar" "ar \<le> u64_max"
    using inv' k id_count_member [OF k, of ids] by auto
  have len: "length (ids s') + length es = length (ids s)"
    using length_filter_notin [OF d es] by (simp add: s')
  have own: "map_of rs i = Some k" if "i \<in> set (ids s)" for i
    using inv' k that by (auto simp: owns_def)
  have "i < nid" if "i \<in> set (ids s)" for i
    using inv' map_of_SomeD [OF own [OF that]] by force
  with inv k show ?thesis
    by (rule_tac book_inv_update)
      (use d es ar len own inv' wrap_sub_exact [of "length es" ar] in
        \<open>auto simp: s' map_of_forget_ids distinct_forget_ids\<close>)
qed

lemma book_inv_admit:
  assumes inv: "book_inv ids mk ma ks rs nid kc ar"
    and k: "map_of ks k = Some s"
    and s': "distinct (ids s')" "set (ids s') = insert nid (set (ids s))"
    and ar: "ar < ma"
  shows "book_inv ids mk ma (AList.update k s' ks) (AList.update nid k rs) (nid + 1) kc (ar + 1)"
proof -
  note inv' = inv [unfolded book_inv_def]
  have d: "distinct (ids s)" using inv' k by blast
  have own: "map_of rs i = Some k" if "i \<in> set (ids s)" for i
    using inv' k that by (auto simp: owns_def)
  have old: "i < nid" if "i \<in> set (ids s)" for i
    using inv' map_of_SomeD [OF own [OF that]] by force
  have new: "map_of rs nid = None" using inv' by (force simp: map_of_eq_None_iff)
  have len: "length (ids s') = Suc (length (ids s))"
    using s' d old [of nid] distinct_card [of "ids s"] distinct_card [of "ids s'"]
    by (auto simp: card_insert_if split: if_splits)
  from inv k show ?thesis
    by (rule book_inv_update)
      (use s' ar len own old new inv' in \<open>auto simp: map_of_update AList.distinct_update less_Suc_eq\<close>)
qed

lemma book_inv_owner:
  assumes "book_inv ids mk ma ks rs nid kc ar" and "map_of rs i = Some k"
  shows "\<exists>s. map_of ks k = Some s \<and> i \<in> set (ids s)"
  using assms by (auto simp: book_inv_def owns_def)

end
