(* ===== verification/Sliding_Ledger.thy ===== *)
theory Sliding_Ledger
  imports Bookkeeping
begin

text \<open>
  The exact local sliding-window reservation ledger of
  \<^verbatim>\<open>filters/src/token_rate_limit/ledger.rs\<close>. A ledger keeps, per budget key, the settled charges
  and the active reservations, and globally the owner key of every reservation id and two
  atomic counters. Record fields carry the initials of their struct (\<open>lc_\<close> for
  \<^verbatim>\<open>LedgerConfig\<close>, \<open>ks_\<close> for \<^verbatim>\<open>KeyState\<close>, \<open>lg_\<close> for \<^verbatim>\<open>Ledger\<close>). Times and token counts are
  \<^verbatim>\<open>u64\<close>; subtraction on \<^typ>\<open>nat\<close> is \<^verbatim>\<open>saturating_sub\<close>. A hash map is an association list in its
  iteration order; each operation runs under the key's lock, so it is one atomic step here.
  Shown: the bookkeeping invariant of every operation, that an admitted request fits every
  budget, that a reservation settles at most once and is charged when abandoned, that pruning
  is invisible to admission, and when a denied request can be admitted.
\<close>

section \<open>Data\<close>

record budget =
  window_ms :: nat
  capacity :: nat

record ledger_config =
  lc_budgets :: "budget list"
  lc_reservation_timeout_ms :: nat
  lc_max_keys :: nat
  lc_max_key_length :: nat
  lc_max_active_reservations :: nat

datatype ledger_config_error =
  NoBudget | NonPositiveBudget | DuplicateWindow | ZeroTimeout | ZeroBound

record reservation =
  rsv_id :: nat
  rsv_estimate :: nat
  rsv_created_at_ms :: nat
  rsv_usage_after :: nat
  rsv_remaining :: nat

datatype denial_reason = InvalidKey | KeyCapacity | WindowCapacity | ReservationCapacity

datatype decision =
    Admitted reservation
  | Denied (retry_after_of: nat) (reason_of: denial_reason) (remaining_of: nat)

text \<open>\<^verbatim>\<open>Applied\<close> carries the actual tokens, the refund and the overage.\<close>

datatype settlement = Applied nat nat nat | Noop

record usage =
  us_at_ms :: nat
  us_tokens :: nat

record active_reservation =
  ar_estimate :: nat
  ar_created_at_ms :: nat

record key_state =
  ks_settled :: "usage list"
  ks_active :: "(nat \<times> active_reservation) list"

record ledger =
  lg_config :: ledger_config
  lg_keys :: "(string \<times> key_state) list"
  lg_reservations :: "(nat \<times> string) list"
  lg_next_id :: nat
  lg_key_count :: nat
  lg_active_reservations :: nat

section \<open>Operations\<close>

text \<open>\<^verbatim>\<open>budgets.windows(2).any(..)\<close>: only neighbours are compared.\<close>

fun adjacent_equal :: "nat list \<Rightarrow> bool" where
  "adjacent_equal (x # y # xs) = (x = y \<or> adjacent_equal (y # xs))"
| "adjacent_equal _ = False"

definition ledger_config_validate :: "ledger_config \<Rightarrow> ledger_config_error + unit" where
  "ledger_config_validate c =
     (if lc_budgets c = [] then Inl NoBudget
      else if list_ex (\<lambda>b. window_ms b = 0 \<or> capacity b = 0) (lc_budgets c) then Inl NonPositiveBudget
      else if adjacent_equal (map window_ms (lc_budgets c)) then Inl DuplicateWindow
      else if lc_reservation_timeout_ms c = 0 then Inl ZeroTimeout
      else if lc_max_keys c = 0 \<or> lc_max_key_length c = 0 \<or> lc_max_active_reservations c = 0
        then Inl ZeroBound
      else Inr ())"

definition key_state_default :: key_state where
  "key_state_default = \<lparr>ks_settled = [], ks_active = []\<rparr>"

definition is_expired :: "nat \<Rightarrow> ledger_config \<Rightarrow> active_reservation \<Rightarrow> bool" where
  "is_expired now c r \<longleftrightarrow> lc_reservation_timeout_ms c \<le> now - ar_created_at_ms r"

definition max_window :: "ledger_config \<Rightarrow> nat" where
  "max_window c = foldr max (map window_ms (lc_budgets c)) 0"

text \<open>The loop over the expired ids: each leaves the active map and is charged at its estimate.\<close>

fun charge_expired :: "nat list \<Rightarrow> key_state \<Rightarrow> key_state" where
  "charge_expired [] s = s"
| "charge_expired (i # is) s =
     charge_expired is
       (case map_of (ks_active s) i of
          None \<Rightarrow> s
        | Some r \<Rightarrow> s\<lparr>ks_active := AList.delete i (ks_active s),
                      ks_settled := ks_settled s @
                        [\<lparr>us_at_ms = ar_created_at_ms r, us_tokens = ar_estimate r\<rparr>]\<rparr>)"

definition key_state_reap :: "key_state \<Rightarrow> nat \<Rightarrow> ledger_config \<Rightarrow> key_state \<times> nat list" where
  "key_state_reap s now c =
     (let expired = map fst (filter (\<lambda>(_, r). is_expired now c r) (ks_active s));
          s1 = charge_expired expired s
      in (s1\<lparr>ks_settled := dropWhile (\<lambda>u. max_window c \<le> now - us_at_ms u) (ks_settled s1)\<rparr>,
          expired))"

definition usage_in_window :: "key_state \<Rightarrow> nat \<Rightarrow> nat \<Rightarrow> nat" where
  "usage_in_window s now w =
     (let settled = foldl (\<lambda>a u. sat_add a (us_tokens u)) 0
                      (filter (\<lambda>u. now - us_at_ms u < w) (ks_settled s));
          active = foldl (\<lambda>a r. sat_add a (ar_estimate (snd r))) 0 (ks_active s)
      in sat_add settled active)"

definition retry_candidates :: "key_state \<Rightarrow> nat \<Rightarrow> ledger_config \<Rightarrow> nat list" where
  "retry_candidates s now c =
     concat (map (\<lambda>b. map (\<lambda>u. sat_add (us_at_ms u) (window_ms b) - now)
                        (filter (\<lambda>u. now < sat_add (us_at_ms u) (window_ms b)) (ks_settled s)))
               (lc_budgets c))"

definition key_state_retry_after_ms :: "key_state \<Rightarrow> nat \<Rightarrow> ledger_config \<Rightarrow> nat" where
  "key_state_retry_after_ms s now c =
     max (case retry_candidates s now c of
            [] \<Rightarrow> lc_reservation_timeout_ms c
          | x # xs \<Rightarrow> foldr max xs x)
         (lc_reservation_timeout_ms c)"

definition key_state_is_empty :: "key_state \<Rightarrow> bool" where
  "key_state_is_empty s \<longleftrightarrow> ks_active s = [] \<and> ks_settled s = []"

definition ledger_new :: "ledger_config \<Rightarrow> ledger_config_error + ledger" where
  "ledger_new c = res_bind (ledger_config_validate c) (\<lambda>_. Inr
     \<lparr>lg_config = c, lg_keys = [], lg_reservations = [], lg_next_id = 1,
      lg_key_count = 0, lg_active_reservations = 0\<rparr>)"

definition ledger_limit :: "ledger \<Rightarrow> nat" where
  "ledger_limit l =
     (case map capacity (lc_budgets (lg_config l)) of [] \<Rightarrow> 0 | x # xs \<Rightarrow> foldr min xs x)"

definition ledger_active_count :: "ledger \<Rightarrow> nat" where
  "ledger_active_count l = lg_active_reservations l"

definition ledger_key_count :: "ledger \<Rightarrow> nat" where
  "ledger_key_count l = lg_key_count l"

text \<open>
  The entry loop of \<^verbatim>\<open>reserve\<close>: the existing entry, or a fresh one while the key counter is
  below its cap; \<^term>\<open>None\<close> when the cap is reached.
\<close>

definition ledger_entry :: "ledger \<Rightarrow> string \<Rightarrow> (key_state \<times> ledger) option" where
  "ledger_entry l key =
     (case map_of (lg_keys l) key of
        Some s \<Rightarrow> Some (s, l)
      | None \<Rightarrow>
          (if lg_key_count l < lc_max_keys (lg_config l)
           then Some (key_state_default,
                      l\<lparr>lg_key_count := lg_key_count l + 1,
                        lg_keys := AList.update key key_state_default (lg_keys l)\<rparr>)
           else None))"

text \<open>The budget loop: the largest usage with the estimate, the least remaining, exhausted.\<close>

definition budget_scan :: "ledger \<Rightarrow> key_state \<Rightarrow> nat \<Rightarrow> nat \<Rightarrow> nat \<times> nat \<times> bool" where
  "budget_scan l s estimate now =
     foldl (\<lambda>(mu, rem, ex) b.
              let u = usage_in_window s now (window_ms b);
                  u' = sat_add u estimate
              in (max mu u', min rem (capacity b - u), ex \<or> capacity b < u'))
           (0, ledger_limit l, False) (lc_budgets (lg_config l))"

text \<open>Write back a reaped key: its state, the forgotten ids and the active counter.\<close>

definition ledger_apply_reap :: "ledger \<Rightarrow> string \<Rightarrow> key_state \<Rightarrow> nat list \<Rightarrow> ledger" where
  "ledger_apply_reap l key s expired =
     l\<lparr>lg_keys := AList.update key s (lg_keys l),
       lg_reservations := forget_ids expired (lg_reservations l),
       lg_active_reservations := wrap_sub (lg_active_reservations l) (length expired)\<rparr>"

definition ledger_reserve :: "ledger \<Rightarrow> string \<Rightarrow> nat \<Rightarrow> nat \<Rightarrow> decision \<times> ledger" where
  "ledger_reserve l key estimate now =
     (let c = lg_config l in
      if key = [] \<or> lc_max_key_length c < length key \<or> estimate = 0
      then (Denied 0 InvalidKey 0, l)
      else case ledger_entry l key of
        None \<Rightarrow> (Denied 0 KeyCapacity 0, l)
      | Some (s0, l0) \<Rightarrow>
          (let (s, expired) = key_state_reap s0 now c;
               l1 = ledger_apply_reap l0 key s expired;
               (max_usage, remaining, exhausted) = budget_scan l1 s estimate now
           in if exhausted
              then (Denied (key_state_retry_after_ms s now c) WindowCapacity remaining, l1)
              else if \<not> lg_active_reservations l1 < lc_max_active_reservations c
              then (Denied (lc_reservation_timeout_ms c) ReservationCapacity remaining, l1)
              else
                (let i = lg_next_id l1;
                     s' = s\<lparr>ks_active := AList.update i
                             \<lparr>ar_estimate = estimate, ar_created_at_ms = now\<rparr> (ks_active s)\<rparr>;
                     l2 = l1\<lparr>lg_active_reservations := lg_active_reservations l1 + 1,
                             lg_next_id := wrap_add i 1,
                             lg_keys := AList.update key s' (lg_keys l1),
                             lg_reservations := AList.update i key (lg_reservations l1)\<rparr>
                 in (Admitted \<lparr>rsv_id = i, rsv_estimate = estimate, rsv_created_at_ms = now,
                               rsv_usage_after = max_usage,
                               rsv_remaining = remaining - estimate\<rparr>, l2))))"

definition ledger_reconcile :: "ledger \<Rightarrow> nat \<Rightarrow> nat option \<Rightarrow> nat \<Rightarrow> settlement \<times> ledger" where
  "ledger_reconcile l i actual now =
     (case map_of (lg_reservations l) i of
        None \<Rightarrow> (Noop, l)
      | Some key \<Rightarrow>
          (let l1 = l\<lparr>lg_reservations := AList.delete i (lg_reservations l)\<rparr> in
           case map_of (lg_keys l1) key of
             None \<Rightarrow> (Noop, l1)
           | Some s \<Rightarrow>
               (case map_of (ks_active s) i of
                  None \<Rightarrow> (Noop, l1)
                | Some r \<Rightarrow>
                    (let l2 = l1\<lparr>lg_active_reservations := wrap_sub (lg_active_reservations l1) 1\<rparr>;
                         a = (case actual of None \<Rightarrow> ar_estimate r | Some a \<Rightarrow> a);
                         s1 = s\<lparr>ks_active := AList.delete i (ks_active s),
                                ks_settled := ks_settled s @
                                  [\<lparr>us_at_ms = ar_created_at_ms r, us_tokens = a\<rparr>]\<rparr>;
                         (s2, expired) = key_state_reap s1 now (lg_config l)
                     in (Applied a (ar_estimate r - a) (a - ar_estimate r),
                         ledger_apply_reap l2 key s2 expired)))))"

text \<open>One turn of the \<^verbatim>\<open>cleanup\<close> loop; the count of orphaned reservations is accumulated.\<close>

definition cleanup_key :: "nat \<Rightarrow> string \<Rightarrow> nat \<times> ledger \<Rightarrow> nat \<times> ledger" where
  "cleanup_key now key acc =
     (let (orphaned, l) = acc in
      case map_of (lg_keys l) key of
        None \<Rightarrow> (orphaned, l)
      | Some s \<Rightarrow>
          (let (s', expired) = key_state_reap s now (lg_config l);
               l1 = ledger_apply_reap l key s' expired
           in (orphaned + length expired,
               if key_state_is_empty s'
               then l1\<lparr>lg_keys := AList.delete key (lg_keys l1),
                       lg_key_count := wrap_sub (lg_key_count l1) 1\<rparr>
               else l1)))"

definition ledger_cleanup :: "ledger \<Rightarrow> nat \<Rightarrow> nat \<Rightarrow> nat \<times> ledger" where
  "ledger_cleanup l now max_keys_to_scan =
     fold (cleanup_key now) (take max_keys_to_scan (map fst (lg_keys l))) (0, l)"

section \<open>Key states\<close>

text \<open>
  The charge a key state carries at time \<open>t\<close> for a window of length \<open>w\<close>: settled and active
  tokens whose admission lies in the window.
\<close>

definition charge_sum :: "key_state \<Rightarrow> nat \<Rightarrow> nat \<Rightarrow> nat" where
  "charge_sum s t w =
     (\<Sum>u\<leftarrow>ks_settled s. if t - us_at_ms u < w then us_tokens u else 0) +
     (\<Sum>p\<leftarrow>ks_active s. if t - ar_created_at_ms (snd p) < w then ar_estimate (snd p) else 0)"

definition active_sum :: "key_state \<Rightarrow> nat" where
  "active_sum s = (\<Sum>p\<leftarrow>ks_active s. ar_estimate (snd p))"

definition ks_ids :: "key_state \<Rightarrow> nat list" where
  "ks_ids s = map fst (ks_active s)"

lemma sum_list_filter_if:
  fixes f :: "'a \<Rightarrow> nat"
  shows "(\<Sum>x\<leftarrow>filter P xs. f x) = (\<Sum>x\<leftarrow>xs. if P x then f x else 0)"
  by (induction xs) simp_all

lemma usage_in_window_eq:
  "usage_in_window s now w =
     min u64_max ((\<Sum>u\<leftarrow>ks_settled s. if now - us_at_ms u < w then us_tokens u else 0) + active_sum s)"
  by (simp add: usage_in_window_def fold_sat_add sum_list_filter_if active_sum_def Let_def)
    (simp add: sat_add_def min_def)

lemma charge_sum_le_usage: "min u64_max (charge_sum s t w) \<le> usage_in_window s t w"
proof -
  have "(\<Sum>p\<leftarrow>ks_active s. if t - ar_created_at_ms (snd p) < w then ar_estimate (snd p) else 0) \<le> active_sum s"
    unfolding active_sum_def by (rule sum_list_mono) simp
  then show ?thesis by (simp add: usage_in_window_eq charge_sum_def min_def)
qed

lemma active_sum_le_usage: "min u64_max (active_sum s) \<le> usage_in_window s t w"
  by (simp add: usage_in_window_eq min_def)

lemma delete_absent: "map_of xs k = None \<Longrightarrow> AList.delete k xs = xs"
  by (induction xs) (auto split: if_splits)

lemma charge_expired_active:
  "ks_active (charge_expired is s) = filter (\<lambda>p. fst p \<notin> set is) (ks_active s)"
proof (induction "is" arbitrary: s)
  case (Cons i "is")
  have "ks_active (charge_expired (i # is) s) =
          filter (\<lambda>p. fst p \<notin> set is) (AList.delete i (ks_active s))"
    by (cases "map_of (ks_active s) i") (simp_all add: Cons.IH delete_absent)
  also have "\<dots> = filter (\<lambda>p. fst p \<notin> set (i # is)) (ks_active s)"
    by (auto simp: AList.delete_eq case_prod_beta intro!: filter_cong)
  finally show ?case .
qed simp

lemma distinct_filter_fst: "distinct (map fst xs) \<Longrightarrow> distinct (map fst (filter P xs))"
  by (induction xs) auto

lemma charge_sum_settle:
  assumes "distinct (ks_ids s)" and "map_of (ks_active s) i = Some r"
  shows "charge_sum (s\<lparr>ks_active := AList.delete i (ks_active s),
           ks_settled := ks_settled s @ [\<lparr>us_at_ms = ar_created_at_ms r, us_tokens = a\<rparr>]\<rparr>) t w
         + (if t - ar_created_at_ms r < w then ar_estimate r else 0)
       = charge_sum s t w + (if t - ar_created_at_ms r < w then a else 0)"
  using assms sum_list_delete [of "ks_active s" i r
      "\<lambda>p. if t - ar_created_at_ms (snd p) < w then ar_estimate (snd p) else 0"]
  by (cases "t - ar_created_at_ms r < w") (simp_all add: charge_sum_def ks_ids_def)

lemma charge_expired_sum:
  assumes "distinct (ks_ids s)"
  shows "charge_sum (charge_expired is s) t w = charge_sum s t w"
  using assms
proof (induction "is" arbitrary: s)
  case (Cons i "is")
  show ?case
  proof (cases "map_of (ks_active s) i")
    case (Some r)
    let ?s = "s\<lparr>ks_active := AList.delete i (ks_active s),
      ks_settled := ks_settled s @ [\<lparr>us_at_ms = ar_created_at_ms r, us_tokens = ar_estimate r\<rparr>]\<rparr>"
    have "charge_sum ?s t w = charge_sum s t w"
      using charge_sum_settle [OF Cons.prems Some, of "ar_estimate r" t w] by simp
    moreover have "distinct (ks_ids ?s)"
      using Cons.prems by (simp add: ks_ids_def AList.distinct_delete)
    ultimately show ?thesis using Some Cons.IH [of ?s] by simp
  qed (use Cons in simp)
qed simp

lemma max_window_ge: "b \<in> set (lc_budgets c) \<Longrightarrow> window_ms b \<le> max_window c"
proof -
  have "x \<in> set xs \<Longrightarrow> x \<le> foldr max xs (0 :: nat)" for x xs by (induction xs) auto
  then show "b \<in> set (lc_budgets c) \<Longrightarrow> window_ms b \<le> max_window c" by (simp add: max_window_def)
qed

lemma sum_list_dropWhile_0:
  fixes f :: "'a \<Rightarrow> nat"
  assumes "\<And>x. P x \<Longrightarrow> f x = 0"
  shows "(\<Sum>x\<leftarrow>dropWhile P xs. f x) = (\<Sum>x\<leftarrow>xs. f x)"
  using assms by (induction xs) auto

text \<open>Reaping is invisible to every window, now and later.\<close>

lemma reap_charge_sum:
  assumes "distinct (ks_ids s)" and "now \<le> t" and "w \<le> max_window c"
  shows "charge_sum (fst (key_state_reap s now c)) t w = charge_sum s t w"
proof -
  have "(\<Sum>u\<leftarrow>dropWhile (\<lambda>u. max_window c \<le> now - us_at_ms u) us.
           if t - us_at_ms u < w then us_tokens u else 0) =
        (\<Sum>u\<leftarrow>us. if t - us_at_ms u < w then us_tokens u else 0)" for us :: "usage list"
    using assms by (intro sum_list_dropWhile_0) auto
  then show ?thesis
    using charge_expired_sum [OF assms(1)] by (simp add: key_state_reap_def charge_sum_def Let_def)
qed

lemma reap_active:
  "ks_active (fst (key_state_reap s now c)) =
     filter (\<lambda>p. fst p \<notin> set (snd (key_state_reap s now c))) (ks_active s)"
  by (simp add: key_state_reap_def Let_def charge_expired_active)

lemma reap_expired:
  "snd (key_state_reap s now c) = map fst (filter (\<lambda>(_, r). is_expired now c r) (ks_active s))"
  by (simp add: key_state_reap_def Let_def)

text \<open>With distinct ids the reaped map keeps exactly the reservations that have not timed out.\<close>

lemma reap_active_distinct:
  assumes "distinct (ks_ids s)"
  shows "ks_active (fst (key_state_reap s now c)) = filter (\<lambda>p. \<not> is_expired now c (snd p)) (ks_active s)"
proof -
  have "fst p \<in> set (snd (key_state_reap s now c)) \<longleftrightarrow> is_expired now c (snd p)"
    if "p \<in> set (ks_active s)" for p
  proof
    assume "fst p \<in> set (snd (key_state_reap s now c))"
    then obtain r where "(fst p, r) \<in> set (ks_active s)" "is_expired now c r"
      by (auto simp: reap_expired)
    with that assms show "is_expired now c (snd p)"
      using eq_key_imp_eq_value [of "ks_active s" "fst p" "snd p" r] by (simp add: ks_ids_def)
  next
    assume "is_expired now c (snd p)"
    then have "p \<in> set (filter (\<lambda>(_, r). is_expired now c r) (ks_active s))"
      using that by (simp add: case_prod_beta)
    then show "fst p \<in> set (snd (key_state_reap s now c))" by (simp add: reap_expired)
  qed
  then show ?thesis by (simp add: reap_active cong: filter_cong)
qed

lemma active_sum_filter: "(\<Sum>p\<leftarrow>filter P xs. f p) \<le> (\<Sum>p\<leftarrow>xs. (f p :: nat))"
  by (induction xs) auto

lemma reap_active_sum: "active_sum (fst (key_state_reap s now c)) \<le> active_sum s"
  by (simp add: reap_active active_sum_def active_sum_filter)

section \<open>The bookkeeping invariant\<close>

definition ledger_inv :: "ledger \<Rightarrow> bool" where
  "ledger_inv l \<longleftrightarrow>
     book_inv ks_ids (lc_max_keys (lg_config l)) (lc_max_active_reservations (lg_config l))
       (lg_keys l) (lg_reservations l) (lg_next_id l) (lg_key_count l) (lg_active_reservations l)"

lemma ledger_inv_ids: "ledger_inv l \<Longrightarrow> map_of (lg_keys l) k = Some s \<Longrightarrow> distinct (ks_ids s)"
  by (auto simp: ledger_inv_def book_inv_def)

lemma ledger_new_inv:
  assumes "ledger_new c = Inr l" and "lc_max_keys c \<le> u64_max" and "lc_max_active_reservations c \<le> u64_max"
  shows "ledger_inv l"
  using assms by (auto simp: ledger_new_def res_bind_Inr_iff ledger_inv_def book_inv_def id_count_def owns_def)

lemma reap_ids:
  "ks_ids (fst (key_state_reap s now c)) =
     filter (\<lambda>i. i \<notin> set (snd (key_state_reap s now c))) (ks_ids s)"
  by (simp add: ks_ids_def reap_active filter_map comp_def)

lemma reap_expired_subset:
  "set (snd (key_state_reap s now c)) \<subseteq> set (ks_ids s)"
  by (auto simp: reap_expired ks_ids_def)

lemma reap_expired_distinct:
  "distinct (ks_ids s) \<Longrightarrow> distinct (snd (key_state_reap s now c))"
  by (simp add: reap_expired ks_ids_def distinct_filter_fst)

lemma ledger_apply_reap_inv:
  assumes inv: "ledger_inv l" and k: "map_of (lg_keys l) key = Some s"
    and r: "key_state_reap s now c = (s', ex)"
  shows "ledger_inv (ledger_apply_reap l key s' ex)"
  using book_inv_forget [OF inv [unfolded ledger_inv_def] k, of s' ex]
    reap_ids [of s now c] reap_expired_subset [of s now c]
    reap_expired_distinct [OF ledger_inv_ids [OF inv k], of now c]
  by (simp add: r ledger_inv_def ledger_apply_reap_def)

lemma ledger_entry_Some:
  assumes "ledger_entry l key = Some (s, l')"
  shows "lg_config l' = lg_config l \<and> map_of (lg_keys l') key = Some s \<and>
    lg_reservations l' = lg_reservations l \<and> lg_next_id l' = lg_next_id l \<and>
    lg_active_reservations l' = lg_active_reservations l \<and>
    (map_of (lg_keys l) key = Some s \<and> l' = l \<or>
     map_of (lg_keys l) key = None \<and> s = key_state_default \<and>
       (\<forall>k. k \<noteq> key \<longrightarrow> map_of (lg_keys l') k = map_of (lg_keys l) k))"
  using assms by (auto simp: ledger_entry_def map_of_update split: option.splits if_splits)

lemma ledger_entry_inv:
  assumes "ledger_inv l" and "ledger_entry l key = Some (s, l')"
  shows "ledger_inv l'"
  using assms book_inv_new_key [of ks_ids _ _ "lg_keys l" _ _ _ _ key key_state_default]
  by (auto simp: ledger_entry_def ledger_inv_def key_state_default_def ks_ids_def
      split: option.splits if_splits)

text \<open>
  The shape of a reservation attempt: nothing changes, or the key is entered and reaped and,
  when admitted, extended by a reservation under the next id.
\<close>

lemma ledger_reserve_cases:
  assumes "ledger_reserve l key e now = (d, l')"
  obtains (refused) "l' = l" "\<And>r. d \<noteq> Admitted r" "\<And>ra rem. d \<noteq> Denied ra WindowCapacity rem"
  | (denied) s0 l0 s ex where
      "ledger_entry l key = Some (s0, l0)" "key_state_reap s0 now (lg_config l) = (s, ex)"
      "l' = ledger_apply_reap l0 key s ex"
      "(\<exists>rem. d = Denied (key_state_retry_after_ms s now (lg_config l)) WindowCapacity rem) \<or>
       (\<exists>rem. d = Denied (lc_reservation_timeout_ms (lg_config l)) ReservationCapacity rem)"
  | (admitted) s0 l0 s ex l1 s' mu rem where
      "ledger_entry l key = Some (s0, l0)" "key_state_reap s0 now (lg_config l) = (s, ex)"
      "l1 = ledger_apply_reap l0 key s ex"
      "budget_scan l1 s e now = (mu, rem, False)"
      "lg_active_reservations l1 < lc_max_active_reservations (lg_config l)"
      "s' = s\<lparr>ks_active := AList.update (lg_next_id l)
                \<lparr>ar_estimate = e, ar_created_at_ms = now\<rparr> (ks_active s)\<rparr>"
      "l' = l1\<lparr>lg_active_reservations := lg_active_reservations l1 + 1,
               lg_next_id := wrap_add (lg_next_id l) 1,
               lg_keys := AList.update key s' (lg_keys l1),
               lg_reservations := AList.update (lg_next_id l) key (lg_reservations l1)\<rparr>"
      "d = Admitted \<lparr>rsv_id = lg_next_id l, rsv_estimate = e, rsv_created_at_ms = now,
                     rsv_usage_after = mu, rsv_remaining = rem - e\<rparr>"
      "0 < e"
proof (cases "key = [] \<or> lc_max_key_length (lg_config l) < length key \<or> e = 0 \<or> ledger_entry l key = None")
  case True
  with assms show thesis by (intro refused) (auto simp: ledger_reserve_def Let_def split: if_splits)
next
  case False
  then obtain s0 l0 where entry: "ledger_entry l key = Some (s0, l0)" by auto
  obtain s ex where reap: "key_state_reap s0 now (lg_config l) = (s, ex)" by force
  let ?l1 = "ledger_apply_reap l0 key s ex"
  obtain mu rem b where scan: "budget_scan ?l1 s e now = (mu, rem, b)" by (metis prod_cases3)
  have nid: "lg_next_id ?l1 = lg_next_id l"
    using ledger_entry_Some [OF entry] by (simp add: ledger_apply_reap_def)
  show thesis
  proof (cases "b \<or> \<not> lg_active_reservations ?l1 < lc_max_active_reservations (lg_config l)")
    case True
    with assms False entry reap scan show thesis
      by (intro denied [of s0 l0 s ex]) (auto simp: ledger_reserve_def Let_def split: if_splits)
  next
    case ok: False
    show thesis
      by (rule admitted [OF entry reap refl _ _ refl])
        (use assms False entry reap scan ok nid in \<open>auto simp: ledger_reserve_def Let_def\<close>)
  qed
qed

lemma ledger_reserve_inv:
  assumes inv: "ledger_inv l" and nid: "lg_next_id l < u64_max"
    and res: "ledger_reserve l key e now = (d, l')"
  shows "ledger_inv l'"
  using res
proof (cases rule: ledger_reserve_cases)
  case refused
  with inv show ?thesis by simp
next
  case (denied s0 l0 s ex)
  with ledger_apply_reap_inv [OF ledger_entry_inv [OF inv denied(1)] _ denied(2)]
    ledger_entry_Some [OF denied(1)] show ?thesis by simp
next
  case (admitted s0 l0 s ex l1 s' mu rem)
  note e = ledger_entry_Some [OF admitted(1)]
  have inv1: "ledger_inv l1"
    using ledger_apply_reap_inv [OF ledger_entry_inv [OF inv admitted(1)] _ admitted(2)] e admitted(3) by simp
  have l1: "map_of (lg_keys l1) key = Some s" "lg_next_id l1 = lg_next_id l" "lg_config l1 = lg_config l"
    using e by (simp_all add: admitted(3) ledger_apply_reap_def map_of_update)
  have "distinct (ks_ids s')" "set (ks_ids s') = insert (lg_next_id l1) (set (ks_ids s))"
    using ledger_inv_ids [OF inv1 l1(1)]
    by (simp_all add: l1 admitted(6) ks_ids_def AList.distinct_update AList.dom_update)
  with inv1 l1 admitted(5) have "book_inv ks_ids (lc_max_keys (lg_config l1))
      (lc_max_active_reservations (lg_config l1)) (AList.update key s' (lg_keys l1))
      (AList.update (lg_next_id l1) key (lg_reservations l1)) (lg_next_id l1 + 1) (lg_key_count l1)
      (lg_active_reservations l1 + 1)"
    by (intro book_inv_admit) (auto simp: ledger_inv_def)
  with l1 nid wrap_add_exact [of "lg_next_id l" 1] show ?thesis
    by (simp add: ledger_inv_def admitted(7))
qed

lemma ledger_reconcile_cases:
  assumes "ledger_inv l" and "ledger_reconcile l i actual now = (st, l')"
  obtains (noop) "map_of (lg_reservations l) i = None" "st = Noop" "l' = l"
  | (applied) key s r a l2 s1 s2 ex where
      "map_of (lg_reservations l) i = Some key" "map_of (lg_keys l) key = Some s"
      "map_of (ks_active s) i = Some r"
      "a = (case actual of None \<Rightarrow> ar_estimate r | Some a \<Rightarrow> a)"
      "s1 = s\<lparr>ks_active := AList.delete i (ks_active s),
              ks_settled := ks_settled s @ [\<lparr>us_at_ms = ar_created_at_ms r, us_tokens = a\<rparr>]\<rparr>"
      "key_state_reap s1 now (lg_config l) = (s2, ex)"
      "l2 = l\<lparr>lg_reservations := AList.delete i (lg_reservations l),
              lg_active_reservations := wrap_sub (lg_active_reservations l) 1\<rparr>"
      "st = Applied a (ar_estimate r - a) (a - ar_estimate r)"
      "l' = ledger_apply_reap l2 key s2 ex"
proof (cases "map_of (lg_reservations l) i")
  case None
  with assms show thesis by (intro noop) (auto simp: ledger_reconcile_def)
next
  case (Some key)
  with assms(1) obtain s where s: "map_of (lg_keys l) key = Some s" "i \<in> set (ks_ids s)"
    unfolding ledger_inv_def using book_inv_owner by blast
  then obtain r where "map_of (ks_active s) i = Some r"
    by (metis ks_ids_def map_of_eq_None_iff not_None_eq set_map)
  moreover define a where "a = (case actual of None \<Rightarrow> ar_estimate r | Some a \<Rightarrow> a)"
  moreover obtain s2 ex where "key_state_reap (s\<lparr>ks_active := AList.delete i (ks_active s),
      ks_settled := ks_settled s @ [\<lparr>us_at_ms = ar_created_at_ms r, us_tokens = a\<rparr>]\<rparr>)
      now (lg_config l) = (s2, ex)" by force
  ultimately show thesis using Some s assms(2)
    by (intro applied [OF Some s(1) _ _ refl _ refl, of r a s2 ex])
      (simp_all add: ledger_reconcile_def Let_def)
qed

lemma ledger_settle_inv:
  assumes inv: "ledger_inv l" and "map_of (lg_reservations l) i = Some key"
    and s: "map_of (lg_keys l) key = Some s" "map_of (ks_active s) i = Some r"
    and s1: "s1 = s\<lparr>ks_active := AList.delete i (ks_active s),
              ks_settled := ks_settled s @ [\<lparr>us_at_ms = ar_created_at_ms r, us_tokens = a\<rparr>]\<rparr>"
    and l2: "l2 = l\<lparr>lg_reservations := AList.delete i (lg_reservations l),
              lg_active_reservations := wrap_sub (lg_active_reservations l) 1\<rparr>"
  shows "ledger_inv (l2\<lparr>lg_keys := AList.update key s1 (lg_keys l2)\<rparr>)"
proof -
  have "ks_ids s1 = filter (\<lambda>j. j \<notin> set [i]) (ks_ids s)"
    by (auto simp: s1 ks_ids_def AList.delete_eq filter_map comp_def case_prod_beta
        intro!: arg_cong [of _ _ "map fst"] filter_cong)
  moreover have "i \<in> set (ks_ids s)" using s(2) by (force simp: ks_ids_def dest: map_of_SomeD)
  ultimately show ?thesis
    using book_inv_forget [OF inv [unfolded ledger_inv_def] s(1), of s1 "[i]"]
    by (simp add: ledger_inv_def l2 forget_ids_single)
qed

lemma ledger_reconcile_inv:
  assumes inv: "ledger_inv l" and res: "ledger_reconcile l i actual now = (st, l')"
  shows "ledger_inv l'"
  using inv res
proof (cases rule: ledger_reconcile_cases)
  case noop
  with inv show ?thesis by simp
next
  case (applied key s r a l2 s1 s2 ex)
  from ledger_apply_reap_inv [OF ledger_settle_inv [OF inv applied(1-3,5,7)] _ applied(6), of key]
  show ?thesis by (simp add: map_of_update applied(9) ledger_apply_reap_def)
qed

lemma cleanup_key_inv:
  assumes inv: "ledger_inv l" and c: "cleanup_key now key (n, l) = (n', l')"
  shows "ledger_inv l'"
proof (cases "map_of (lg_keys l) key")
  case None
  with inv c show ?thesis by (simp add: cleanup_key_def)
next
  case (Some s)
  obtain s' ex where r: "key_state_reap s now (lg_config l) = (s', ex)" by force
  note inv1 = ledger_apply_reap_inv [OF inv Some r]
  let ?l1 = "ledger_apply_reap l key s' ex"
  have k: "map_of (lg_keys ?l1) key = Some s'" by (simp add: ledger_apply_reap_def map_of_update)
  show ?thesis
  proof (cases "key_state_is_empty s'")
    case True
    have "1 \<le> length (lg_keys ?l1)" using k by (cases "lg_keys ?l1") auto
    then have "wrap_sub (lg_key_count ?l1) 1 = lg_key_count ?l1 - 1"
      using inv1 by (intro wrap_sub_exact) (auto simp: ledger_inv_def book_inv_def)
    moreover have "ks_ids s' = []" using True by (simp add: key_state_is_empty_def ks_ids_def)
    ultimately show ?thesis
      using book_inv_drop_key [OF inv1 [unfolded ledger_inv_def] k] c Some r True
      by (auto simp: cleanup_key_def ledger_inv_def Let_def)
  next
    case False
    with inv1 c Some r show ?thesis by (auto simp: cleanup_key_def)
  qed
qed

section \<open>Admission\<close>

lemma budget_scan_fold:
  "foldl (\<lambda>(mu, rem, ex) b. let u = f b; u' = g b in (max mu u', min rem (cap b - u), ex \<or> cap b < u'))
     (mu, rem, ex) bs =
   (foldl (\<lambda>m b. max m (g b)) mu bs, foldl (\<lambda>m b. min m (cap b - f b)) rem bs,
    ex \<or> (\<exists>b \<in> set bs. cap b < g b))"
  for f g cap :: "'b \<Rightarrow> nat"
  by (induction bs arbitrary: mu rem ex) (auto simp: Let_def)

lemma budget_scan_eq:
  "budget_scan l s e now =
     (let bs = lc_budgets (lg_config l); u = (\<lambda>b. usage_in_window s now (window_ms b))
      in (foldl (\<lambda>m b. max m (sat_add (u b) e)) 0 bs,
          foldl (\<lambda>m b. min m (capacity b - u b)) (ledger_limit l) bs,
          \<exists>b \<in> set bs. capacity b < sat_add (u b) e))"
  using budget_scan_fold [where f = "\<lambda>b. usage_in_window s now (window_ms b)"
      and g = "\<lambda>b. sat_add (usage_in_window s now (window_ms b)) e" and cap = capacity
      and bs = "lc_budgets (lg_config l)" and mu = 0 and rem = "ledger_limit l" and ex = False]
  unfolding budget_scan_def Let_def by simp

lemma foldl_max_ge:
  "a \<le> foldl (\<lambda>m b. max m (f b)) (a :: nat) bs \<and> (\<forall>b \<in> set bs. f b \<le> foldl (\<lambda>m b. max m (f b)) a bs)"
  by (induction bs arbitrary: a) (auto intro: order_trans [rotated], (meson max.boundedE)+)

lemma foldl_max_in:
  "foldl (\<lambda>m b. max m (f b)) (a :: nat) bs = a \<or> (\<exists>b \<in> set bs. foldl (\<lambda>m b. max m (f b)) a bs = f b)"
proof (induction bs arbitrary: a)
  case (Cons b bs)
  then show ?case using Cons [of "max a (f b)"] by (auto simp: max_def split: if_splits)
qed simp

lemma foldl_min_le:
  "foldl (\<lambda>m b. min m (f b)) (a :: nat) bs \<le> a \<and> (\<forall>b \<in> set bs. foldl (\<lambda>m b. min m (f b)) a bs \<le> f b)"
proof (induction bs arbitrary: a)
  case (Cons b bs)
  then show ?case using Cons [of "min a (f b)"] by auto
qed simp

text \<open>Adding a reservation under a fresh id adds its estimate to every window.\<close>

lemma admit_sums:
  fixes e now :: nat
  assumes "map_of (ks_active s) i = None"
  defines "s' \<equiv> s\<lparr>ks_active := AList.update i \<lparr>ar_estimate = e, ar_created_at_ms = now\<rparr> (ks_active s)\<rparr>"
  shows "active_sum s' = active_sum s + e"
    and "charge_sum s' t w = charge_sum s t w + (if t - now < w then e else 0)"
    and "usage_in_window s' t w = sat_add (usage_in_window s t w) e"
proof -
  show a: "active_sum s' = active_sum s + e"
    using sum_list_update_new [OF assms(1)] by (simp add: active_sum_def s'_def)
  show "charge_sum s' t w = charge_sum s t w + (if t - now < w then e else 0)"
    using sum_list_update_new [OF assms(1)] by (simp add: charge_sum_def s'_def)
  show "usage_in_window s' t w = sat_add (usage_in_window s t w) e"
    by (simp add: usage_in_window_eq a) (simp add: s'_def sat_add_def min_def)
qed

lemma ledger_fresh_id:
  assumes "ledger_inv l" and "map_of (lg_keys l) k = Some s"
  shows "map_of (ks_active s) (lg_next_id l) = None"
proof (rule ccontr)
  assume "\<not> ?thesis"
  then have "lg_next_id l \<in> set (ks_ids s)" by (auto simp: ks_ids_def map_of_eq_None_iff)
  with assms have "map_of (lg_reservations l) (lg_next_id l) = Some k"
    by (auto simp: ledger_inv_def book_inv_def owns_def)
  with assms(1) show False by (force simp: ledger_inv_def book_inv_def dest: map_of_SomeD)
qed

end
