(* ===== verification/Ledger_History.thy ===== *)
theory Ledger_History
  imports Sliding_Ledger
begin

text \<open>
  Histories of the sliding-window ledger. A history is run against the ledger one atomic operation
  at a time, and a log of the admitted requests is kept beside it: for each reservation id its
  key, its admission time, the tokens charged for it (the estimate, from the settlement on the
  actual count) and by how much the actual count exceeded the estimate. The log never forgets, so
  it is the specification of what the ledger, which prunes, promises: a request is admitted only
  if everything charged in the window leaves room for it, and a window holds more than the
  budget's capacity only by such overages.
\<close>

section \<open>Runs\<close>

datatype ledger_op =
    Op_Reserve string nat (op_time: nat)
  | Op_Reconcile nat "nat option" (op_time: nat)
  | Op_Cleanup (op_time: nat) nat

record charge =
  ch_key :: string
  ch_at :: nat
  ch_tokens :: nat
  ch_overage :: nat

type_synonym charge_log = "(nat \<times> charge) list"

definition log_admission :: "string \<Rightarrow> decision \<Rightarrow> charge_log \<Rightarrow> charge_log" where
  "log_admission key d h =
     (case d of
        Admitted r \<Rightarrow> AList.update (rsv_id r)
          \<lparr>ch_key = key, ch_at = rsv_created_at_ms r, ch_tokens = rsv_estimate r, ch_overage = 0\<rparr> h
      | Denied _ _ _ \<Rightarrow> h)"

definition log_settlement :: "nat \<Rightarrow> settlement \<Rightarrow> charge_log \<Rightarrow> charge_log" where
  "log_settlement i st h =
     (case st of
        Noop \<Rightarrow> h
      | Applied actual _ overage \<Rightarrow>
          (case map_of h i of
             None \<Rightarrow> h
           | Some x \<Rightarrow> AList.update i (x\<lparr>ch_tokens := actual, ch_overage := overage\<rparr>) h))"

fun ledger_step :: "ledger_op \<Rightarrow> ledger \<times> charge_log \<Rightarrow> ledger \<times> charge_log" where
  "ledger_step (Op_Reserve key e now) (l, h) =
     (let (d, l') = ledger_reserve l key e now in (l', log_admission key d h))"
| "ledger_step (Op_Reconcile i actual now) (l, h) =
     (let (st, l') = ledger_reconcile l i actual now in (l', log_settlement i st h))"
| "ledger_step (Op_Cleanup now n) (l, h) = (snd (ledger_cleanup l now n), h)"

definition ledger_run :: "ledger_op list \<Rightarrow> ledger \<times> charge_log \<Rightarrow> ledger \<times> charge_log" where
  "ledger_run ops = fold ledger_step ops"

text \<open>
  Tokens charged for the requests of a key that were admitted in the window of length \<open>w\<close> that ends
  at \<open>t\<close>, and how much of them exceeds the estimates.
\<close>

definition in_window :: "charge \<Rightarrow> string \<Rightarrow> nat \<Rightarrow> nat \<Rightarrow> bool" where
  "in_window x k t w \<longleftrightarrow> ch_key x = k \<and> ch_at x \<le> t \<and> t - ch_at x < w"

definition window_total :: "charge_log \<Rightarrow> string \<Rightarrow> nat \<Rightarrow> nat \<Rightarrow> nat" where
  "window_total h k t w = (\<Sum>p\<leftarrow>h. if in_window (snd p) k t w then ch_tokens (snd p) else 0)"

definition window_overage :: "charge_log \<Rightarrow> string \<Rightarrow> nat \<Rightarrow> nat \<Rightarrow> nat" where
  "window_overage h k t w = (\<Sum>p\<leftarrow>h. if in_window (snd p) k t w then ch_overage (snd p) else 0)"

definition key_charge :: "(string \<times> key_state) list \<Rightarrow> string \<Rightarrow> nat \<Rightarrow> nat \<Rightarrow> nat" where
  "key_charge ks k t w = (case map_of ks k of None \<Rightarrow> 0 | Some s \<Rightarrow> charge_sum s t w)"

section \<open>The invariant between ledger and log\<close>

definition log_linked :: "(string \<times> key_state) list \<Rightarrow> charge_log \<Rightarrow> bool" where
  "log_linked ks h \<longleftrightarrow> (\<forall>k s i r. map_of ks k = Some s \<longrightarrow> map_of (ks_active s) i = Some r \<longrightarrow>
     map_of h i = Some \<lparr>ch_key = k, ch_at = ar_created_at_ms r, ch_tokens = ar_estimate r, ch_overage = 0\<rparr>)"

definition log_dominated :: "ledger_config \<Rightarrow> (string \<times> key_state) list \<Rightarrow> charge_log \<Rightarrow> nat \<Rightarrow> bool" where
  "log_dominated c ks h now \<longleftrightarrow>
     (\<forall>k t w. now \<le> t \<longrightarrow> w \<le> max_window c \<longrightarrow> window_total h k t w \<le> key_charge ks k t w)"

definition log_capped :: "ledger_config \<Rightarrow> charge_log \<Rightarrow> bool" where
  "log_capped c h \<longleftrightarrow>
     (\<forall>b \<in> set (lc_budgets c). capacity b < u64_max \<longrightarrow>
        (\<forall>k t. window_total h k t (window_ms b) \<le> capacity b + window_overage h k t (window_ms b)))"

definition log_inv :: "ledger \<times> charge_log \<Rightarrow> nat \<Rightarrow> bool" where
  "log_inv lh now \<longleftrightarrow> (let (l, h) = lh in
     ledger_inv l \<and> distinct (map fst h) \<and>
     (\<forall>p \<in> set h. fst p < lg_next_id l \<and> ch_at (snd p) \<le> now) \<and>
     log_linked (lg_keys l) h \<and> log_dominated (lg_config l) (lg_keys l) h now \<and>
     log_capped (lg_config l) h)"

lemma key_charge_update:
  "key_charge (AList.update key s ks) k t w = (if k = key then charge_sum s t w else key_charge ks k t w)"
  by (simp add: key_charge_def map_of_update)

lemma log_inv_later: "log_inv lh now \<Longrightarrow> now \<le> now' \<Longrightarrow> log_inv lh now'"
  by (fastforce simp: log_inv_def log_dominated_def split: prod.splits)

lemma map_of_filter_fst:
  "map_of (filter (\<lambda>p. P (fst p)) xs) k = (if P k then map_of xs k else None)"
  by (induction xs) auto

lemma reap_map_of:
  "map_of (ks_active (fst (key_state_reap s now c))) i = Some r \<Longrightarrow> map_of (ks_active s) i = Some r"
  using map_of_filter_fst [of "\<lambda>i. i \<notin> set (snd (key_state_reap s now c))" "ks_active s" i]
  by (simp add: reap_active split: if_splits)

lemma log_inv_apply_reap:
  assumes inv: "log_inv (l, h) now" and k: "map_of (lg_keys l) key = Some s"
    and r: "key_state_reap s now (lg_config l) = (s', ex)"
  shows "log_inv (ledger_apply_reap l key s' ex, h) now"
proof -
  note inv' = inv [unfolded log_inv_def Let_def split_conv]
  have d: "distinct (ks_ids s)" using inv' k ledger_inv_ids by blast
  have "key_charge (AList.update key s' (lg_keys l)) k t w = key_charge (lg_keys l) k t w"
    if "now \<le> t" "w \<le> max_window (lg_config l)" for k t w
    using reap_charge_sum [OF d that] k r by (simp add: key_charge_update) (simp add: key_charge_def)
  then have "log_dominated (lg_config l) (AList.update key s' (lg_keys l)) h now"
    using inv' by (simp add: log_dominated_def)
  moreover have "log_linked (AList.update key s' (lg_keys l)) h"
    using inv' k reap_map_of [of s now "lg_config l"] by (simp add: r log_linked_def map_of_update)
  ultimately show ?thesis
    using inv' ledger_apply_reap_inv [OF _ k r]
    by (simp add: log_inv_def ledger_apply_reap_def)
qed

lemma log_inv_entry:
  assumes "log_inv (l, h) now" and "ledger_entry l key = Some (s, l')"
  shows "log_inv (l', h) now"
proof -
  note inv' = assms(1) [unfolded log_inv_def Let_def split_conv]
  note e = ledger_entry_Some [OF assms(2)]
  have "key_charge (lg_keys l') k t w = key_charge (lg_keys l) k t w" for k t w
    using e by (cases "k = key") (auto simp: key_charge_def key_state_default_def charge_sum_def)
  moreover have "log_linked (lg_keys l') h"
  proof -
    have "map_of (lg_keys l') k = Some s' \<Longrightarrow> map_of (lg_keys l) k = Some s' \<or> s' = key_state_default" for k s'
      using e by (cases "k = key") auto
    then show ?thesis using inv' unfolding log_linked_def by (fastforce simp: key_state_default_def)
  qed
  ultimately show ?thesis
    using inv' e ledger_entry_inv [OF _ assms(2)] by (simp add: log_inv_def log_dominated_def)
qed

lemma set_update_cases: "p \<in> set (AList.update k v xs) \<Longrightarrow> p \<in> set xs \<or> p = (k, v)"
  by (induction xs) (auto split: if_splits)

lemma window_total_admit:
  assumes "map_of h i = None"
  shows "window_total (AList.update i x h) k t w =
    window_total h k t w + (if in_window x k t w then ch_tokens x else 0)"
  using sum_list_update_new [OF assms, of "\<lambda>p. if in_window (snd p) k t w then ch_tokens (snd p) else 0"]
  by (simp add: window_total_def)

lemma window_overage_admit:
  assumes "map_of h i = None"
  shows "window_overage (AList.update i x h) k t w =
    window_overage h k t w + (if in_window x k t w then ch_overage x else 0)"
  using sum_list_update_new [OF assms, of "\<lambda>p. if in_window (snd p) k t w then ch_overage (snd p) else 0"]
  by (simp add: window_overage_def)

lemma window_total_settle:
  fixes a :: nat
  assumes "distinct (map fst h)" and "map_of h i = Some x" and "ch_overage x = 0"
  defines "h' \<equiv> AList.update i (x\<lparr>ch_tokens := a, ch_overage := a - ch_tokens x\<rparr>) h"
  shows "window_total h' k t w + (if in_window x k t w then ch_tokens x else 0) =
      window_total h k t w + (if in_window x k t w then a else 0)"
    and "window_overage h' k t w = window_overage h k t w + (if in_window x k t w then a - ch_tokens x else 0)"
proof -
  let ?y = "x\<lparr>ch_tokens := a, ch_overage := a - ch_tokens x\<rparr>"
  have "in_window ?y k t w = in_window x k t w" by (simp add: in_window_def)
  then show "window_total h' k t w + (if in_window x k t w then ch_tokens x else 0) =
      window_total h k t w + (if in_window x k t w then a else 0)"
    "window_overage h' k t w = window_overage h k t w + (if in_window x k t w then a - ch_tokens x else 0)"
    using sum_list_update_old [OF assms(1,2), of "\<lambda>p. if in_window (snd p) k t w then ch_tokens (snd p) else 0" ?y]
      sum_list_update_old [OF assms(1,2), of "\<lambda>p. if in_window (snd p) k t w then ch_overage (snd p) else 0" ?y] assms(3)
    by (simp_all add: window_total_def window_overage_def h'_def split: if_splits)
qed

text \<open>A later window over a log that has nothing newer reaches no further back.\<close>

lemma window_total_shift:
  assumes "\<forall>p \<in> set h. ch_at (snd p) \<le> now" and "now \<le> t"
  shows "window_total h k t w \<le> window_total h k now w"
  unfolding window_total_def using assms by (intro sum_list_mono) (auto simp: in_window_def)

text \<open>A request that passes the budget scan fits beside everything charged in its windows.\<close>

lemma scan_fits:
  assumes inv: "log_inv (l, h) now" and k: "map_of (lg_keys l) key = Some s"
    and scan: "budget_scan l s e now = (mu, rem, False)"
    and b: "b \<in> set (lc_budgets (lg_config l))" "capacity b < u64_max"
  shows "window_total h key now (window_ms b) + e \<le> capacity b"
proof -
  have "window_total h key now (window_ms b) \<le> charge_sum s now (window_ms b)"
  proof -
    have "window_total h key now (window_ms b) \<le> key_charge (lg_keys l) key now (window_ms b)"
      using inv max_window_ge [OF b(1)] by (simp add: log_inv_def log_dominated_def)
    with k show ?thesis by (simp add: key_charge_def)
  qed
  moreover have "sat_add (usage_in_window s now (window_ms b)) e \<le> capacity b"
    using scan b(1) by (force simp: budget_scan_eq Let_def)
  ultimately show ?thesis
    using charge_sum_le_usage [of s now "window_ms b"] b(2) by (auto simp: sat_add_def min_def split: if_splits)
qed

lemma log_inv_admit:
  assumes inv: "log_inv (l, h) now" and k: "map_of (lg_keys l) key = Some s"
    and scan: "budget_scan l s e now = (mu, rem, False)"
    and room: "lg_active_reservations l < lc_max_active_reservations (lg_config l)"
    and nid: "lg_next_id l < u64_max"
  defines "s' \<equiv> s\<lparr>ks_active := AList.update (lg_next_id l)
                    \<lparr>ar_estimate = e, ar_created_at_ms = now\<rparr> (ks_active s)\<rparr>"
  defines "x \<equiv> \<lparr>ch_key = key, ch_at = now, ch_tokens = e, ch_overage = 0\<rparr>"
  assumes l': "ledger_inv l'" "lg_keys l' = AList.update key s' (lg_keys l)" "lg_config l' = lg_config l"
    "lg_next_id l' = lg_next_id l + 1"
  shows "log_inv (l', AList.update (lg_next_id l) x h) now"
proof -
  note inv' = inv [unfolded log_inv_def Let_def split_conv]
  let ?i = "lg_next_id l" and ?c = "lg_config l"
  let ?h = "AList.update ?i x h"
  have fresh: "map_of (ks_active s) ?i = None" using inv' k ledger_fresh_id by blast
  have new: "map_of h ?i = None" using inv' by (fastforce simp: map_of_eq_None_iff)
  note sums = admit_sums [OF fresh, where e = e and now = now, folded s'_def]
  have old: "\<forall>p \<in> set ?h. fst p < lg_next_id l + 1 \<and> ch_at (snd p) \<le> now"
  proof
    fix p assume "p \<in> set ?h"
    then have "p \<in> set h \<or> p = (?i, x)" by (auto simp: update_new [OF new])
    with inv' show "fst p < lg_next_id l + 1 \<and> ch_at (snd p) \<le> now" by (auto simp: x_def)
  qed
  have dom: "window_total ?h k' t w \<le> key_charge (lg_keys l') k' t w" if "now \<le> t" "w \<le> max_window ?c" for k' t w
  proof -
    have "window_total h k' t w \<le> key_charge (lg_keys l) k' t w"
      using inv' that by (simp add: log_dominated_def)
    with k that show ?thesis
      by (auto simp: l' key_charge_update sums window_total_admit [OF new] x_def in_window_def) (simp_all add: key_charge_def)
  qed
  have cap: "window_total ?h k' t (window_ms b) \<le> capacity b + window_overage ?h k' t (window_ms b)"
    if b: "b \<in> set (lc_budgets ?c)" "capacity b < u64_max" for k' t b
  proof (cases "now \<le> t \<and> k' = key")
    case True
    then have "window_total ?h k' t (window_ms b) \<le> window_total ?h key now (window_ms b)"
      using old window_total_shift [of ?h now t] by simp
    also have "\<dots> \<le> capacity b"
      using scan_fits [OF inv k scan b] by (simp add: window_total_admit [OF new] x_def)
    finally show ?thesis by simp
  next
    case False
    then have "\<not> in_window x k' t (window_ms b)" by (auto simp: x_def in_window_def)
    with inv' b show ?thesis by (simp add: log_capped_def window_total_admit [OF new] window_overage_admit [OF new])
  qed
  have "log_linked (lg_keys l') ?h"
    unfolding log_linked_def
  proof (intro allI impI)
    fix k' st i r assume "map_of (lg_keys l') k' = Some st" "map_of (ks_active st) i = Some r"
    then have "i = ?i \<and> k' = key \<and> r = \<lparr>ar_estimate = e, ar_created_at_ms = now\<rparr> \<or>
        (\<exists>st'. map_of (lg_keys l) k' = Some st' \<and> map_of (ks_active st') i = Some r)"
      using k by (auto simp: l' map_of_update s'_def split: if_splits)
    then show "map_of ?h i = Some \<lparr>ch_key = k', ch_at = ar_created_at_ms r, ch_tokens = ar_estimate r, ch_overage = 0\<rparr>"
      using inv' new by (fastforce simp: map_of_update x_def log_linked_def)
  qed
  with inv' l' old dom cap show ?thesis
    by (simp add: log_inv_def log_dominated_def log_capped_def AList.distinct_update)
qed

lemma log_inv_reserve:
  assumes inv: "log_inv (l, h) now" and nid: "lg_next_id l < u64_max"
    and res: "ledger_reserve l key e now = (d, l')"
  shows "log_inv (l', log_admission key d h) now"
  using res
proof (cases rule: ledger_reserve_cases)
  case refused
  then have "log_admission key d h = h" by (cases d) (auto simp: log_admission_def)
  with inv refused show ?thesis by simp
next
  case (denied s0 l0 s ex)
  note e = ledger_entry_Some [OF denied(1)]
  have "log_inv (l', h) now"
    using log_inv_apply_reap [OF log_inv_entry [OF inv denied(1)], of key s0 s ex] denied e by simp
  with denied(4) show ?thesis by (auto simp: log_admission_def)
next
  case (admitted s0 l0 s ex l1 s' mu rem)
  note e = ledger_entry_Some [OF admitted(1)]
  have l1: "log_inv (l1, h) now"
    using log_inv_apply_reap [OF log_inv_entry [OF inv admitted(1)], of key s0 s ex] admitted e by simp
  have c1: "map_of (lg_keys l1) key = Some s" "lg_config l1 = lg_config l" "lg_next_id l1 = lg_next_id l"
    using e by (simp_all add: admitted(3) ledger_apply_reap_def map_of_update)
  have "ledger_inv l'" using inv nid res ledger_reserve_inv by (auto simp: log_inv_def)
  with log_inv_admit [OF l1 c1(1) admitted(4)] admitted c1 nid wrap_add_exact [of "lg_next_id l" 1]
  show ?thesis by (simp add: log_admission_def)
qed

lemma admitted_fits:
  assumes inv: "log_inv (l, h) now" and "b \<in> set (lc_budgets (lg_config l))"
    and "fst (ledger_reserve l key e now) = Admitted r" and "capacity b < u64_max"
  shows "window_total h key now (window_ms b) + e \<le> capacity b"
proof -
  obtain d l' where res: "ledger_reserve l key e now = (d, l')" by force
  with assms(3) have d: "d = Admitted r" by simp
  from res show ?thesis
  proof (cases rule: ledger_reserve_cases)
    case (admitted s0 l0 s ex l1 s' mu rem)
    note ent = ledger_entry_Some [OF admitted(1)]
    have "log_inv (l1, h) now"
      using log_inv_apply_reap [OF log_inv_entry [OF inv admitted(1)], of key s0 s ex] admitted ent by simp
    moreover have "map_of (lg_keys l1) key = Some s" "lg_config l1 = lg_config l"
      using ent by (simp_all add: admitted(3) ledger_apply_reap_def map_of_update)
    ultimately show ?thesis using scan_fits [OF _ _ admitted(4)] assms(2,4) by simp
  qed (use d in auto)
qed

lemma log_inv_reconcile:
  assumes inv: "log_inv (l, h) now" and res: "ledger_reconcile l i actual now = (st, l')"
  shows "log_inv (l', log_settlement i st h) now"
proof -
  note inv' = inv [unfolded log_inv_def Let_def split_conv]
  from inv' have "ledger_inv l" by blast
  from this res show ?thesis
  proof (cases rule: ledger_reconcile_cases)
    case noop
    with inv show ?thesis by (simp add: log_settlement_def)
  next
    case (applied key s r a l2 s1 s2 ex)
    let ?x = "\<lparr>ch_key = key, ch_at = ar_created_at_ms r, ch_tokens = ar_estimate r, ch_overage = 0\<rparr>"
    let ?h = "log_settlement i st h" and ?l = "l2\<lparr>lg_keys := AList.update key s1 (lg_keys l2)\<rparr>"
    have x: "map_of h i = Some ?x" using inv' applied(2,3) by (auto simp: log_linked_def)
    have d: "distinct (ks_ids s)" using inv' applied(2) ledger_inv_ids by blast
    let ?y = "?x\<lparr>ch_tokens := a, ch_overage := a - ch_tokens ?x\<rparr>"
    have h: "?h = AList.update i ?y h" by (simp add: log_settlement_def applied(8) x)
    note total = window_total_settle [OF _ x, of a, folded h]
    have in_h: "p \<in> set h \<or> p = (i, ?y)" if "p \<in> set ?h" for p using that set_update_cases by (simp add: h)
    have "\<forall>p \<in> set ?h. fst p < lg_next_id l \<and> ch_at (snd p) \<le> now"
      using inv' map_of_SomeD [OF x] in_h by fastforce
    moreover have "window_total ?h k t w \<le> key_charge (lg_keys ?l) k t w"
      if "now \<le> t" "w \<le> max_window (lg_config l)" for k t w
    proof -
      have "window_total h k t w \<le> key_charge (lg_keys l) k t w"
        using inv' that by (simp add: log_dominated_def)
      then show ?thesis
        using total(1) [of k t w] charge_sum_settle [OF d applied(3), of a t w, folded applied(5)]
          inv' map_of_SomeD [OF x] that applied(2)
        by (auto simp: applied(7) key_charge_update in_window_def split: if_splits) (auto simp: key_charge_def)
    qed
    moreover have "log_capped (lg_config l) ?h"
      unfolding log_capped_def
    proof (intro ballI impI allI)
      fix b k t assume b: "b \<in> set (lc_budgets (lg_config l))" "capacity b < u64_max"
      with inv' have "window_total h k t (window_ms b) \<le> capacity b + window_overage h k t (window_ms b)"
        by (simp add: log_capped_def)
      then show "window_total ?h k t (window_ms b) \<le> capacity b + window_overage ?h k t (window_ms b)"
        using total [of k t "window_ms b"] inv' by (simp split: if_splits)
    qed
    moreover have "log_linked (lg_keys ?l) ?h"
      unfolding log_linked_def
    proof (intro allI impI)
      fix k st j q assume "map_of (lg_keys ?l) k = Some st" "map_of (ks_active st) j = Some q"
      then have "k = key \<and> j \<noteq> i \<and> map_of (ks_active s) j = Some q \<or>
          k \<noteq> key \<and> map_of (lg_keys l) k = Some st \<and> map_of (ks_active st) j = Some q"
        by (auto simp: applied(5,7) map_of_update map_of_adelete split: if_splits)
      then show "map_of ?h j = Some \<lparr>ch_key = k, ch_at = ar_created_at_ms q, ch_tokens = ar_estimate q, ch_overage = 0\<rparr>"
        using inv' x applied(2) by (fastforce simp: h map_of_update log_linked_def)
    qed
    moreover have "distinct (map fst ?h)" using inv' by (simp add: h AList.distinct_update)
    ultimately have "log_inv (?l, ?h) now"
      using inv' ledger_settle_inv [OF _ applied(1-3,5,7)]
      by (simp add: log_inv_def log_dominated_def applied(7))
    from log_inv_apply_reap [OF this, of key s1 s2 ex] applied show ?thesis
      by (simp add: map_of_update ledger_apply_reap_def)
  qed
qed

lemma log_inv_cleanup_key:
  assumes inv: "log_inv (l, h) now"
  shows "log_inv (snd (cleanup_key now key (n, l)), h) now"
proof (cases "map_of (lg_keys l) key")
  case None
  with inv show ?thesis by (simp add: cleanup_key_def)
next
  case (Some s)
  obtain s' ex where r: "key_state_reap s now (lg_config l) = (s', ex)" by force
  let ?l1 = "ledger_apply_reap l key s' ex"
  note inv1 = log_inv_apply_reap [OF inv Some r]
  note inv1' = inv1 [unfolded log_inv_def Let_def split_conv]
  show ?thesis
  proof (cases "key_state_is_empty s'")
    case True
    let ?l2 = "?l1\<lparr>lg_keys := AList.delete key (lg_keys ?l1), lg_key_count := wrap_sub (lg_key_count ?l1) 1\<rparr>"
    have c: "cleanup_key now key (n, l) = (n + length ex, ?l2)"
      using True Some r by (simp add: cleanup_key_def Let_def)
    have "ledger_inv ?l2" using cleanup_key_inv [OF _ c] inv by (auto simp: log_inv_def)
    moreover have "key_charge (lg_keys ?l2) k t w = key_charge (lg_keys ?l1) k t w" for k t w
      using True by (simp add: key_charge_def ledger_apply_reap_def map_of_update map_of_adelete
          key_state_is_empty_def charge_sum_def)
    moreover have "log_linked (lg_keys ?l2) h"
      using inv1' by (auto simp: log_linked_def map_of_adelete)
    ultimately show ?thesis using inv1' c by (simp add: log_inv_def log_dominated_def)
  next
    case False
    with inv1 Some r show ?thesis by (simp add: cleanup_key_def)
  qed
qed

lemma log_inv_cleanup:
  assumes "log_inv (l, h) now"
  shows "log_inv (snd (ledger_cleanup l now n), h) now"
proof -
  have "log_inv (l, h) now \<Longrightarrow> log_inv (snd (fold (cleanup_key now) ks (m, l)), h) now" for ks m l
  proof (induction ks arbitrary: m l)
    case (Cons k ks)
    then show ?case using log_inv_cleanup_key [of l h now k m]
      by (cases "cleanup_key now k (m, l)") simp
  qed simp
  with assms show ?thesis by (simp add: ledger_cleanup_def)
qed

lemma ledger_cleanup_inv: "ledger_inv l \<Longrightarrow> ledger_inv (snd (ledger_cleanup l now n))"
proof -
  have "ledger_inv l \<Longrightarrow> ledger_inv (snd (fold (cleanup_key now) ks (m, l)))" for ks m l
  proof (induction ks arbitrary: m l)
    case (Cons k ks)
    then show ?case using cleanup_key_inv [of l now k m]
      by (cases "cleanup_key now k (m, l)") simp
  qed simp
  then show "ledger_inv l \<Longrightarrow> ?thesis" by (simp add: ledger_cleanup_def)
qed

lemma cleanup_next_id: "lg_next_id (snd (ledger_cleanup l now n)) = lg_next_id l"
proof -
  have "lg_next_id (snd (cleanup_key now k a)) = lg_next_id (snd a)" for k a
    by (cases a) (auto simp: cleanup_key_def ledger_apply_reap_def Let_def split: option.splits prod.splits)
  then have "lg_next_id (snd (fold (cleanup_key now) ks a)) = lg_next_id (snd a)" for ks a
    by (induction ks arbitrary: a) simp_all
  then show ?thesis by (simp add: ledger_cleanup_def)
qed

lemma reconcile_next_id: "lg_next_id (snd (ledger_reconcile l i a now)) = lg_next_id l"
  by (auto simp: ledger_reconcile_def ledger_apply_reap_def Let_def split: option.splits prod.splits)

lemma reserve_next_id:
  assumes "lg_next_id l < u64_max"
  shows "lg_next_id l \<le> lg_next_id (snd (ledger_reserve l key e now)) \<and>
    lg_next_id (snd (ledger_reserve l key e now)) \<le> lg_next_id l + 1"
proof -
  obtain d l' where r: "ledger_reserve l key e now = (d, l')" by force
  then have "lg_next_id l' = lg_next_id l \<or> lg_next_id l' = lg_next_id l + 1"
    by (cases rule: ledger_reserve_cases)
      (use assms wrap_add_exact [of "lg_next_id l" 1] in
        \<open>auto simp: ledger_apply_reap_def dest: ledger_entry_Some\<close>)
  with r show ?thesis by auto
qed

lemma ledger_step_inv:
  assumes "log_inv lh now" and "lg_next_id (fst lh) < u64_max" and "now \<le> op_time x"
  shows "log_inv (ledger_step x lh) (op_time x) \<and>
    lg_next_id (fst lh) \<le> lg_next_id (fst (ledger_step x lh)) \<and>
    lg_next_id (fst (ledger_step x lh)) \<le> lg_next_id (fst lh) + 1"
proof -
  obtain l h where lh: "lh = (l, h)" by force
  have inv: "log_inv (l, h) (op_time x)" using assms lh log_inv_later by blast
  show ?thesis
  proof (cases x)
    case (Op_Reserve key e t)
    with inv assms reserve_next_id [of l key e t] log_inv_reserve [of l h t key e] show ?thesis
      by (auto simp: lh split: prod.splits)
  next
    case (Op_Reconcile i a t)
    with inv reconcile_next_id [of l i a t] log_inv_reconcile [of l h t i a] show ?thesis
      by (auto simp: lh split: prod.splits)
  next
    case (Op_Cleanup t n)
    with inv log_inv_cleanup cleanup_next_id show ?thesis by (simp add: lh)
  qed
qed

text \<open>The invariant holds along every run whose clock does not go back and whose ids do not wrap.\<close>

lemma ledger_run_inv:
  assumes "log_inv lh now" and "sorted (map op_time ops)" and "\<forall>x \<in> set ops. now \<le> op_time x"
    and "lg_next_id (fst lh) + length ops \<le> u64_max" and "now \<le> t" and "\<forall>x \<in> set ops. op_time x \<le> t"
  shows "log_inv (ledger_run ops lh) t"
  using assms
proof (induction ops arbitrary: lh now)
  case Nil
  then show ?case using log_inv_later by (auto simp: ledger_run_def)
next
  case (Cons x ops)
  then have step: "log_inv (ledger_step x lh) (op_time x)"
    "lg_next_id (fst (ledger_step x lh)) \<le> lg_next_id (fst lh) + 1"
    using ledger_step_inv [of lh now x] by auto
  with Cons.IH [OF step(1)] Cons.prems show ?case by (auto simp: ledger_run_def)
qed

text \<open>The bookkeeping needs no order of the times.\<close>

lemma run_ledger_inv:
  assumes "ledger_inv (fst lh)" and "lg_next_id (fst lh) + length ops \<le> u64_max"
  shows "ledger_inv (fst (ledger_run ops lh))"
  using assms
proof (induction ops arbitrary: lh)
  case (Cons x ops)
  obtain l h where lh: "lh = (l, h)" by force
  have "ledger_inv (fst (ledger_step x lh)) \<and> lg_next_id (fst (ledger_step x lh)) \<le> lg_next_id (fst lh) + 1"
  proof (cases x)
    case (Op_Reserve key e t)
    with Cons.prems reserve_next_id [of l key e t] ledger_reserve_inv [of l key e t] show ?thesis
      by (auto simp: lh split: prod.splits)
  next
    case (Op_Reconcile i a t)
    with Cons.prems reconcile_next_id [of l i a t] ledger_reconcile_inv [of l i a t] show ?thesis
      by (auto simp: lh split: prod.splits)
  next
    case (Op_Cleanup t n)
    with Cons.prems ledger_cleanup_inv [of l t n] cleanup_next_id show ?thesis by (auto simp: lh)
  qed
  with Cons.IH [of "ledger_step x lh"] Cons.prems show ?case by (simp add: ledger_run_def)
qed (simp add: ledger_run_def)

lemma log_inv_new:
  assumes "ledger_new c = Inr l" and "lc_max_keys c \<le> u64_max" and "lc_max_active_reservations c \<le> u64_max"
  shows "log_inv (l, []) 0"
  using assms ledger_new_inv [OF assms]
  by (auto simp: log_inv_def log_linked_def log_dominated_def log_capped_def window_total_def
      ledger_new_def res_bind_Inr_iff)

section \<open>Settlement happens once\<close>

lemma apply_reap_reservations:
  "map_of (lg_reservations l) i = None \<Longrightarrow> map_of (lg_reservations (ledger_apply_reap l key s ex)) i = None"
  by (simp add: ledger_apply_reap_def map_of_forget_ids)

lemma reserve_forgotten:
  assumes "map_of (lg_reservations l) i = None" and "i < lg_next_id l"
  shows "map_of (lg_reservations (snd (ledger_reserve l key e now))) i = None"
proof -
  obtain d l' where r: "ledger_reserve l key e now = (d, l')" by force
  then have "map_of (lg_reservations l') i = None"
    by (cases rule: ledger_reserve_cases)
      (use assms in \<open>auto simp: map_of_update apply_reap_reservations dest!: ledger_entry_Some\<close>)
  with r show ?thesis by simp
qed

lemma reconcile_forgets: "map_of (lg_reservations (snd (ledger_reconcile l i a now))) i = None"
  by (auto simp: ledger_reconcile_def Let_def map_of_adelete apply_reap_reservations
      split: option.splits prod.splits)

lemma reconcile_forgotten:
  "map_of (lg_reservations l) j = None \<Longrightarrow> map_of (lg_reservations (snd (ledger_reconcile l i a now))) j = None"
  by (auto simp: ledger_reconcile_def Let_def map_of_adelete apply_reap_reservations
      split: option.splits prod.splits)

lemma cleanup_forgotten:
  assumes "map_of (lg_reservations l) j = None"
  shows "map_of (lg_reservations (snd (ledger_cleanup l now n))) j = None"
proof -
  have "map_of (lg_reservations (snd a)) j = None \<Longrightarrow>
      map_of (lg_reservations (snd (cleanup_key now k a))) j = None" for k a
    by (cases a) (auto simp: cleanup_key_def Let_def apply_reap_reservations split: option.splits prod.splits)
  then have "map_of (lg_reservations (snd a)) j = None \<Longrightarrow>
      map_of (lg_reservations (snd (fold (cleanup_key now) ks a))) j = None" for ks a
    by (induction ks arbitrary: a) simp_all
  with assms show ?thesis by (simp add: ledger_cleanup_def)
qed

lemma step_forgotten:
  assumes "map_of (lg_reservations (fst lh)) j = None" and "j < lg_next_id (fst lh)"
    and "lg_next_id (fst lh) < u64_max"
  shows "map_of (lg_reservations (fst (ledger_step x lh))) j = None \<and>
    j < lg_next_id (fst (ledger_step x lh)) \<and> lg_next_id (fst (ledger_step x lh)) \<le> lg_next_id (fst lh) + 1"
proof -
  obtain l h where lh: "lh = (l, h)" by force
  show ?thesis
  proof (cases x)
    case (Op_Reserve key e t)
    with assms reserve_next_id [of l key e t] reserve_forgotten [of l j key e t] show ?thesis
      by (auto simp: lh split: prod.splits)
  next
    case (Op_Reconcile i a t)
    with assms reconcile_next_id [of l i a t] reconcile_forgotten [of l j i a t] show ?thesis
      by (auto simp: lh split: prod.splits)
  next
    case (Op_Cleanup t n)
    with assms cleanup_forgotten [of l j] cleanup_next_id show ?thesis by (simp add: lh)
  qed
qed

lemma run_forgotten:
  assumes "map_of (lg_reservations (fst lh)) j = None" and "j < lg_next_id (fst lh)"
    and "lg_next_id (fst lh) + length ops \<le> u64_max"
  shows "map_of (lg_reservations (fst (ledger_run ops lh))) j = None"
  using assms
proof (induction ops arbitrary: lh)
  case (Cons x ops)
  with step_forgotten [of lh j x] Cons.IH [of "ledger_step x lh"] show ?case
    by (simp add: ledger_run_def)
qed (simp add: ledger_run_def)

lemma run_config: "lg_config (fst (ledger_run ops lh)) = lg_config (fst lh)"
proof -
  have entry: "ledger_entry l key = Some (s, l') \<Longrightarrow> lg_config l' = lg_config l" for l key s l'
    by (simp add: ledger_entry_Some)
  have "lg_config (snd (cleanup_key now k a)) = lg_config (snd a)" for now k a
    by (cases a) (auto simp: cleanup_key_def ledger_apply_reap_def Let_def split: option.splits prod.splits)
  then have "lg_config (snd (fold (cleanup_key now) ks a)) = lg_config (snd a)" for now ks a
    by (induction ks arbitrary: a) simp_all
  moreover have "lg_config (snd (ledger_reserve l key e now)) = lg_config l" for l key e now
    by (auto simp: ledger_reserve_def ledger_apply_reap_def Let_def dest: entry split: option.splits prod.splits)
  moreover have "lg_config (snd (ledger_reconcile l i a now)) = lg_config l" for l i a now
    by (auto simp: ledger_reconcile_def ledger_apply_reap_def Let_def split: option.splits prod.splits)
  ultimately have "lg_config (fst (ledger_step x lh)) = lg_config (fst lh)" for x lh
    by (cases x; cases lh) (auto simp: ledger_cleanup_def case_prod_beta Let_def)
  then show ?thesis unfolding ledger_run_def by (induction ops arbitrary: lh) simp_all
qed

section \<open>A small ledger to evaluate\<close>

definition demo_config :: ledger_config where
  "demo_config = \<lparr>lc_budgets = [\<lparr>window_ms = 1000, capacity = 10\<rparr>], lc_reservation_timeout_ms = 50,
     lc_max_keys = 4, lc_max_key_length = 8, lc_max_active_reservations = 4\<rparr>"

definition demo_ledger :: ledger where
  "demo_ledger = \<lparr>lg_config = demo_config, lg_keys = [], lg_reservations = [], lg_next_id = 1,
     lg_key_count = 0, lg_active_reservations = 0\<rparr>"

definition demo_ops :: "ledger_op list" where
  "demo_ops = [Op_Reserve ''k'' 6 0, Op_Reserve ''k'' 6 5, Op_Reconcile 1 (Some 4) 10,
     Op_Reserve ''k'' 6 20, Op_Cleanup 80 4, Op_Reserve ''k'' 1 90]"

lemma demo_ledger_new: "ledger_new demo_config = Inr demo_ledger"
  by (simp add: ledger_new_def ledger_config_validate_def demo_config_def demo_ledger_def)

definition demo_reserved :: ledger where
  "demo_reserved = snd (ledger_reserve demo_ledger ''k'' 6 0)"

lemma demo_ledger_inv: "ledger_inv demo_ledger"
  by (rule ledger_new_inv [OF demo_ledger_new]) (simp_all add: demo_config_def u64_max_def)

lemma demo_reserved_inv: "ledger_inv demo_reserved"
  unfolding demo_reserved_def
  by (rule ledger_reserve_inv [OF demo_ledger_inv]) (auto simp: demo_ledger_def u64_max_def intro: prod.collapse [symmetric])

definition demo_settled :: ledger where
  "demo_settled = snd (ledger_reconcile demo_reserved 1 None 9)"

lemma demo_settled_eq:
  "demo_settled = demo_ledger\<lparr>lg_next_id := 2, lg_key_count := 1,
     lg_keys := [(''k'', \<lparr>ks_settled = [\<lparr>us_at_ms = 0, us_tokens = 6\<rparr>], ks_active = []\<rparr>)]\<rparr>"
  by code_simp

text \<open>
  A settlement is not held to the capacity: a request that used more than its estimate leaves its
  window above it, so the overages of the first property below cannot be dropped.
\<close>

lemma overage_exceeds_capacity:
  "let l = snd (ledger_reconcile demo_reserved 1 (Some 100) 9)
   in map (\<lambda>p. usage_in_window (snd p) 9 1000) (lg_keys l) = [100] \<and> map capacity (lc_budgets (lg_config l)) = [10]"
  by code_simp

section \<open>Properties\<close>

text \<open>
  C1. Rolling-window guarantee. Run any sequence of reservations, settlements and cleanups against a
  fresh ledger, with times that never go back, fewer operations than the id counter can count and
  caps that fit 64 bits. Take any budget whose capacity is below the 64-bit maximum. A request is
  then admitted only if the tokens charged for all requests of its key admitted in the window, at
  their actual counts once settled and overages included, leave room for its estimate. In any
  window, at any time, the charged tokens exceed the capacity at most by the overages, that is, by
  what the requests of the window used beyond their estimates. The log they are taken over forgets
  nothing, so pruning and the expiry of abandoned reservations never open extra room.
\<close>

theorem sliding_window_cap:
  assumes "ledger_new c = Inr l"
    and "lc_max_keys c \<le> u64_max" and "lc_max_active_reservations c \<le> u64_max"
    and "sorted (map op_time ops)" and "length ops < u64_max"
    and "b \<in> set (lc_budgets c)" and "capacity b < u64_max"
    and "ledger_run ops (l, []) = (l', h)"
  shows "(\<forall>key e now r. fst (ledger_reserve l' key e now) = Admitted r \<longrightarrow> list_all (\<lambda>x. op_time x \<le> now) ops \<longrightarrow>
       window_total h key now (window_ms b) + e \<le> capacity b) \<and>
     (\<forall>key t. window_total h key t (window_ms b) \<le> capacity b + window_overage h key t (window_ms b))"
proof -
  have l: "lg_next_id l = 1" "lg_config l = c"
    using assms(1) by (auto simp: ledger_new_def res_bind_Inr_iff)
  have inv: "log_inv (l', h) now" if "list_all (\<lambda>x. op_time x \<le> now) ops" for now
    using ledger_run_inv [OF log_inv_new [OF assms(1-3)] assms(4), of now] assms(5,8) l that by (auto simp: list_all_iff)
  have c: "lg_config l' = c" using run_config [of ops "(l, [])"] assms(8) l by simp
  have "list_all (\<lambda>x. op_time x \<le> Max (insert 0 (op_time ` set ops))) ops" by (auto simp: list_all_iff)
  from inv [OF this] have "\<forall>key t. window_total h key t (window_ms b) \<le> capacity b + window_overage h key t (window_ms b)"
    using assms(6,7) c by (simp add: log_inv_def log_capped_def)
  moreover have "window_total h key now (window_ms b) + e \<le> capacity b"
    if "fst (ledger_reserve l' key e now) = Admitted r" "list_all (\<lambda>x. op_time x \<le> now) ops" for key e now r
    using admitted_fits [OF inv [OF that(2)] _ _ assms(7), of key e r] that(1) assms(6) c by simp
  ultimately show ?thesis by blast
qed

theorem sliding_window_cap_witness:
  "window_total (snd (ledger_run demo_ops (demo_ledger, []))) ''k'' 1000 1000 + 1 \<le> 10"
proof -
  obtain l' h where run: "ledger_run demo_ops (demo_ledger, []) = (l', h)" by force
  have "fst (ledger_reserve (fst (ledger_run demo_ops (demo_ledger, []))) ''k'' 1 1000) =
      Admitted \<lparr>rsv_id = 3, rsv_estimate = 1, rsv_created_at_ms = 1000, rsv_usage_after = 7, rsv_remaining = 3\<rparr>"
    by code_simp
  then have adm: "fst (ledger_reserve l' ''k'' 1 1000) =
      Admitted \<lparr>rsv_id = 3, rsv_estimate = 1, rsv_created_at_ms = 1000, rsv_usage_after = 7, rsv_remaining = 3\<rparr>"
    by (simp add: run)
  have "list_all (\<lambda>x. op_time x \<le> 1000) demo_ops" by (simp add: demo_ops_def)
  moreover have "\<forall>key e now r. fst (ledger_reserve l' key e now) = Admitted r \<longrightarrow> list_all (\<lambda>x. op_time x \<le> now) demo_ops \<longrightarrow>
      window_total h key now 1000 + e \<le> 10"
    using sliding_window_cap [OF demo_ledger_new _ _ _ _ _ _ run, of "\<lparr>window_ms = 1000, capacity = 10\<rparr>"]
    by (simp add: demo_config_def demo_ops_def u64_max_def)
  ultimately show ?thesis using adm unfolding run snd_conv by blast
qed

text \<open>
  C25. Bookkeeping of every reachable ledger. Along every run of a fresh ledger, at any times, also
  times that go back, as long as the caps fit 64 bits and the id counter does not wrap: the reverse
  map names exactly the reservations held by the keys, the key counter and the reservation counter
  are the sizes they count, and neither exceeds its configured cap.
\<close>

theorem ledger_run_bookkeeping:
  assumes "ledger_new c = Inr l"
    and "lc_max_keys c \<le> u64_max" and "lc_max_active_reservations c \<le> u64_max"
    and "length ops < u64_max"
    and "l' = fst (ledger_run ops (l, []))"
  shows "ledger_key_count l' = length (lg_keys l') \<and> ledger_key_count l' \<le> lc_max_keys c \<and>
    ledger_active_count l' = (\<Sum>p\<leftarrow>lg_keys l'. length (ks_active (snd p))) \<and>
    ledger_active_count l' \<le> lc_max_active_reservations c \<and>
    (\<forall>i k. map_of (lg_reservations l') i = Some k \<longleftrightarrow>
       (\<exists>s r. map_of (lg_keys l') k = Some s \<and> map_of (ks_active s) i = Some r))"
proof -
  have l: "lg_next_id l = 1" "lg_config l = c"
    using assms(1) by (auto simp: ledger_new_def res_bind_Inr_iff)
  have inv: "ledger_inv l'"
    using run_ledger_inv [of "(l, [])" ops] ledger_new_inv [OF assms(1-3)] assms(4,5) l by simp
  have "i \<in> set (ks_ids s) \<longleftrightarrow> (\<exists>r. map_of (ks_active s) i = Some r)" for i s
    by (metis ks_ids_def map_of_eq_None_iff not_None_eq set_map)
  moreover have "lg_config l' = c" using run_config [of ops "(l, [])"] assms(5) l by simp
  ultimately show ?thesis using inv
    by (auto simp: ledger_inv_def book_inv_def ledger_key_count_def ledger_active_count_def
        id_count_def ks_ids_def owns_def)
qed

theorem ledger_run_bookkeeping_witness:
  "ledger_active_count (fst (ledger_run (rev demo_ops) (demo_ledger, []))) \<le> 4 \<and>
   ledger_key_count (fst (ledger_run (rev demo_ops) (demo_ledger, []))) \<le> 4"
  using ledger_run_bookkeeping [OF demo_ledger_new, of "rev demo_ops"]
  by (simp add: demo_config_def demo_ops_def u64_max_def)

text \<open>
  C22. A reservation settles at most once. After a settlement has been applied, every later attempt
  to reconcile the same id is a no-op, whatever operations run in between, as long as the id
  counter does not wrap.
\<close>

theorem reconcile_at_most_once:
  assumes "ledger_inv l" and "ledger_reconcile l i actual now = (Applied a refund overage, l1)"
    and "lg_next_id l + length ops \<le> u64_max"
  shows "ledger_reconcile (fst (ledger_run ops (l1, h))) i actual' now' =
    (Noop, fst (ledger_run ops (l1, h)))"
proof -
  have "map_of (lg_reservations l) i \<noteq> None"
    using assms(2) by (auto simp: ledger_reconcile_def split: option.splits)
  then have "i < lg_next_id l"
    using assms(1) by (fastforce simp: ledger_inv_def book_inv_def dest: map_of_SomeD)
  with assms reconcile_forgets [of l i actual now] reconcile_next_id [of l i actual now]
    run_forgotten [of "(l1, h)" i ops]
  show ?thesis by (simp add: ledger_reconcile_def)
qed

theorem reconcile_at_most_once_witness:
  "fst (ledger_reconcile demo_reserved 1 (Some 4) 9) = Applied 4 2 0 \<and>
   fst (ledger_reconcile (fst (ledger_run [Op_Reserve ''k'' 3 9]
     (snd (ledger_reconcile demo_reserved 1 (Some 4) 9), []))) 1 None 10) = Noop"
proof -
  have a: "fst (ledger_reconcile demo_reserved 1 (Some 4) 9) = Applied 4 2 0"
    by code_simp
  then have "ledger_reconcile demo_reserved 1 (Some 4) 9 =
      (Applied 4 2 0, snd (ledger_reconcile demo_reserved 1 (Some 4) 9))" by (metis prod.collapse)
  moreover have "lg_next_id demo_reserved + length [Op_Reserve ''k'' 3 9] \<le> u64_max"
    by code_simp
  ultimately have "ledger_reconcile (fst (ledger_run [Op_Reserve ''k'' 3 9]
     (snd (ledger_reconcile demo_reserved 1 (Some 4) 9), []))) 1 None 10 =
     (Noop, fst (ledger_run [Op_Reserve ''k'' 3 9]
     (snd (ledger_reconcile demo_reserved 1 (Some 4) 9), [])))"
    by (rule reconcile_at_most_once [OF demo_reserved_inv])
  with a show ?thesis by simp
qed

lemma reserve_invalid_key:
  "key = [] \<or> lc_max_key_length (lg_config l) < length key \<or> e = 0 \<Longrightarrow>
     ledger_reserve l key e now = (Denied 0 InvalidKey 0, l)"
  by (auto simp: ledger_reserve_def)

lemma foldl_max_Max: "bs \<noteq> [] \<Longrightarrow> foldl (\<lambda>m b. max m (f b)) 0 bs = Max ((f :: _ \<Rightarrow> nat) ` set bs)"
  by (rule sym, rule Max_eqI) (use foldl_max_ge [of 0 f bs] foldl_max_in [of f 0 bs] in \<open>auto simp: neq_Nil_conv\<close>)

lemma foldl_min_in:
  "foldl (\<lambda>m b. min m (f b)) (a :: nat) bs = a \<or> (\<exists>b \<in> set bs. foldl (\<lambda>m b. min m (f b)) a bs = f b)"
proof (induction bs arbitrary: a)
  case (Cons b bs)
  then show ?case using Cons [of "min a (f b)"] by (auto simp: min_def split: if_splits)
qed simp

lemma ledger_limit_in:
  "lc_budgets (lg_config l) \<noteq> [] \<Longrightarrow> \<exists>b \<in> set (lc_budgets (lg_config l)). ledger_limit l = capacity b"
proof -
  have "foldr min xs x \<in> set (x # xs)" for x :: nat and xs
    by (induction xs) (auto simp: min_def)
  then show "lc_budgets (lg_config l) \<noteq> [] \<Longrightarrow> ?thesis"
    by (cases "lc_budgets (lg_config l)") (force simp: ledger_limit_def)+
qed

lemma budget_scan_remaining:
  assumes "lc_budgets (lg_config l) \<noteq> []"
  shows "fst (snd (budget_scan l s e now)) =
    Min ((\<lambda>b. capacity b - usage_in_window s now (window_ms b)) ` set (lc_budgets (lg_config l)))"
proof -
  let ?f = "\<lambda>b. capacity b - usage_in_window s now (window_ms b)" and ?bs = "lc_budgets (lg_config l)"
  let ?m = "foldl (\<lambda>m b. min m (?f b)) (ledger_limit l) ?bs"
  obtain b0 where b0: "b0 \<in> set ?bs" "ledger_limit l = capacity b0" using ledger_limit_in [OF assms] by blast
  have le: "?m \<le> ledger_limit l" "\<forall>b \<in> set ?bs. ?m \<le> ?f b"
    using foldl_min_le [of ?f "ledger_limit l" ?bs] by auto
  have "\<exists>b \<in> set ?bs. ?m = ?f b"
    using foldl_min_in [of ?f "ledger_limit l" ?bs] le(2) b0 by force
  then have "?m = Min (?f ` set ?bs)" using le(2) by (intro Min_eqI [symmetric]) auto
  then show ?thesis by (simp add: budget_scan_eq Let_def)
qed

text \<open>
  C31. Admission is exact. On a ledger in good order, a request with a valid key and a positive
  estimate whose key is known is admitted precisely when, after reaping, every budget still has
  room for the estimate and a reservation slot is free.
\<close>

theorem reserve_admits_iff:
  assumes "ledger_inv l" and "map_of (lg_keys l) key = Some s0"
    and "key \<noteq> []" and "length key \<le> lc_max_key_length (lg_config l)" and "0 < e"
    and "s = fst (key_state_reap s0 now (lg_config l))"
  shows "(\<exists>r l'. ledger_reserve l key e now = (Admitted r, l')) \<longleftrightarrow>
    (\<forall>b \<in> set (lc_budgets (lg_config l)).
       sat_add (usage_in_window s now (window_ms b)) e \<le> capacity b) \<and>
    lg_active_reservations l - length (filter (\<lambda>(_, r). is_expired now (lg_config l) r) (ks_active s0))
      < lc_max_active_reservations (lg_config l)"
proof -
  let ?c = "lg_config l"
  obtain ex where r: "key_state_reap s0 now ?c = (s, ex)"
    using assms(6) by (metis prod.collapse)
  have ex: "length ex = length (filter (\<lambda>(_, r). is_expired now ?c r) (ks_active s0))"
    using reap_expired [of s0 now ?c] by (simp add: r)
  have "length ex \<le> length (ks_ids s0)" by (simp add: ex ks_ids_def)
  also have "\<dots> \<le> lg_active_reservations l"
    using assms(1) id_count_member [OF assms(2), of ks_ids] by (simp add: ledger_inv_def book_inv_def)
  finally have a: "wrap_sub (lg_active_reservations l) (length ex) = lg_active_reservations l - length ex"
    using assms(1) by (intro wrap_sub_exact) (auto simp: ledger_inv_def book_inv_def)
  have entry: "ledger_entry l key = Some (s0, l)" using assms(2) by (simp add: ledger_entry_def)
  obtain mu rem x where scan: "budget_scan (ledger_apply_reap l key s ex) s e now = (mu, rem, x)"
    by (metis prod_cases3)
  have x: "x \<longleftrightarrow> (\<exists>b \<in> set (lc_budgets ?c). capacity b < sat_add (usage_in_window s now (window_ms b)) e)"
    using scan by (simp add: budget_scan_eq Let_def ledger_apply_reap_def)
  have "(\<exists>r l'. ledger_reserve l key e now = (Admitted r, l')) \<longleftrightarrow>
      \<not> x \<and> lg_active_reservations l - length ex < lc_max_active_reservations ?c"
    using assms(3-5) by (simp add: ledger_reserve_def entry r scan Let_def)
      (simp add: ledger_apply_reap_def a)
  then show ?thesis by (simp add: x ex not_less)
qed

theorem reserve_admits_iff_witness:
  "\<exists>r l'. ledger_reserve demo_reserved ''k'' 4 9 = (Admitted r, l')"
proof -
  let ?s = "\<lparr>ks_settled = [], ks_active = [(1, \<lparr>ar_estimate = 6, ar_created_at_ms = 0\<rparr>)]\<rparr>"
  have "map_of (lg_keys demo_reserved) ''k'' = Some ?s" "lg_config demo_reserved = demo_config"
    "lg_active_reservations demo_reserved = 1" "key_state_reap ?s 9 demo_config = (?s, [])"
    by code_simp+
  then show ?thesis
    using reserve_admits_iff [OF demo_reserved_inv, of "''k''" ?s 4 ?s 9]
    by (simp add: demo_config_def is_expired_def usage_in_window_def sat_add_def u64_max_def)
qed

text \<open>
  What an admitted reservation reports. The reservation is held by its key under the returned
  id, every budget holds at most its capacity with the new estimate counted in, the reported usage
  is the largest usage over the budgets and the reported remainder the least room left.
\<close>

theorem admitted_reservation_fits:
  assumes "ledger_inv l" and "lc_budgets (lg_config l) \<noteq> []"
    and "\<forall>b \<in> set (lc_budgets (lg_config l)). capacity b \<le> u64_max"
    and "ledger_reserve l key e now = (Admitted r, l')"
  shows "\<exists>s. map_of (lg_keys l') key = Some s \<and>
    map_of (ks_active s) (rsv_id r) = Some \<lparr>ar_estimate = e, ar_created_at_ms = now\<rparr> \<and>
    (\<forall>b \<in> set (lc_budgets (lg_config l)). usage_in_window s now (window_ms b) \<le> capacity b) \<and>
    rsv_usage_after r = Max ((\<lambda>b. usage_in_window s now (window_ms b)) ` set (lc_budgets (lg_config l))) \<and>
    rsv_remaining r = Min ((\<lambda>b. capacity b - usage_in_window s now (window_ms b)) ` set (lc_budgets (lg_config l)))"
  using assms(4)
proof (cases rule: ledger_reserve_cases)
  case (admitted s0 l0 s ex l1 s' mu rem)
  note e = ledger_entry_Some [OF admitted(1)]
  let ?bs = "lc_budgets (lg_config l)" and ?u = "\<lambda>b. usage_in_window s now (window_ms b)"
  have l1: "map_of (lg_keys l1) key = Some s" "lg_config l1 = lg_config l" "lg_next_id l1 = lg_next_id l"
    using e by (simp_all add: admitted(3) ledger_apply_reap_def map_of_update)
  have "ledger_inv l1"
    using ledger_apply_reap_inv [OF ledger_entry_inv [OF assms(1) admitted(1)] _ admitted(2)] e admitted(3) by simp
  then have "map_of (ks_active s) (lg_next_id l) = None" using ledger_fresh_id [of l1 key s] l1 by simp
  note sums = admit_sums(3) [OF this, where e = e and now = now, folded admitted(6)]
  have fit: "\<forall>b \<in> set ?bs. sat_add (?u b) e \<le> capacity b"
    and mu: "mu = Max ((\<lambda>b. sat_add (?u b) e) ` set ?bs)"
    using admitted(4) foldl_max_Max [OF assms(2)] by (auto simp: budget_scan_eq l1 Let_def not_less)
  have "rem - e = Min ((\<lambda>b. capacity b - ?u b) ` set ?bs) - e"
    using budget_scan_remaining [of l1 s e now] admitted(4) assms(2) by (simp add: l1)
  also have "\<dots> = Min ((\<lambda>x. x - e) ` (\<lambda>b. capacity b - ?u b) ` set ?bs)"
    using assms(2) by (intro mono_Min_commute) (auto intro: monoI)
  also have "(\<lambda>x. x - e) ` (\<lambda>b. capacity b - ?u b) ` set ?bs =
      (\<lambda>b. capacity b - sat_add (?u b) e) ` set ?bs"
    unfolding image_image using assms(3) by (intro image_cong) (auto simp: sat_add_def min_def)
  finally have rem: "rem - e = Min ((\<lambda>b. capacity b - sat_add (?u b) e) ` set ?bs)" .
  have "map_of (lg_keys l') key = Some s'" "map_of (ks_active s') (lg_next_id l) =
      Some \<lparr>ar_estimate = e, ar_created_at_ms = now\<rparr>"
    by (simp_all add: admitted(6,7) map_of_update)
  moreover have "rsv_id r = lg_next_id l" "rsv_usage_after r = mu" "rsv_remaining r = rem - e"
    using admitted(8) by simp_all
  ultimately show ?thesis using fit mu rem by (simp add: sums)
qed auto

theorem admitted_reservation_fits_witness:
  "\<exists>s. map_of (lg_keys demo_reserved) ''k'' = Some s \<and> usage_in_window s 0 1000 \<le> 10"
proof -
  have "ledger_reserve demo_ledger ''k'' 6 0 =
      (Admitted \<lparr>rsv_id = 1, rsv_estimate = 6, rsv_created_at_ms = 0, rsv_usage_after = 6, rsv_remaining = 4\<rparr>,
       demo_reserved)"
    by code_simp
  then obtain s where "map_of (lg_keys demo_reserved) ''k'' = Some s"
      "\<forall>b \<in> set (lc_budgets (lg_config demo_ledger)). usage_in_window s 0 (window_ms b) \<le> capacity b"
    using admitted_reservation_fits [OF demo_ledger_inv, of "''k''" 6 0]
    by (force simp: demo_ledger_def demo_config_def u64_max_def)
  then show ?thesis by (simp add: demo_ledger_def demo_config_def)
qed

text \<open>
  Expiry and pruning never free a token early. Reaping a key charges every timed-out
  reservation at its estimate from its admission time, keeps exactly the reservations that have
  not timed out, and leaves the tokens charged to any configured window unchanged, at the time
  of the reap and at every later time.
\<close>

theorem reap_preserves_charges:
  assumes "distinct (map fst (ks_active s))" and "b \<in> set (lc_budgets c)" and "now \<le> t"
  shows "charge_sum (fst (key_state_reap s now c)) t (window_ms b) = charge_sum s t (window_ms b) \<and>
    ks_active (fst (key_state_reap s now c)) = filter (\<lambda>p. \<not> is_expired now c (snd p)) (ks_active s)"
  using assms reap_charge_sum [of s now t "window_ms b" c] reap_active_distinct [of s now c] max_window_ge
  by (simp add: ks_ids_def)

theorem reap_preserves_charges_witness:
  "charge_sum (fst (key_state_reap \<lparr>ks_settled = [], ks_active = [(1, \<lparr>ar_estimate = 6, ar_created_at_ms = 0\<rparr>)]\<rparr>
     60 demo_config)) 70 1000 = 6"
  using reap_preserves_charges [of "\<lparr>ks_settled = [], ks_active = [(1, \<lparr>ar_estimate = 6, ar_created_at_ms = 0\<rparr>)]\<rparr>"
      "\<lparr>window_ms = 1000, capacity = 10\<rparr>" demo_config 60 70]
  by (simp add: demo_config_def) (simp add: charge_sum_def)

lemma retry_candidates_le:
  assumes "u \<in> set (ks_settled s)" and "b \<in> set (lc_budgets c)" and "now < sat_add (us_at_ms u) (window_ms b)"
  shows "sat_add (us_at_ms u) (window_ms b) - now \<le> key_state_retry_after_ms s now c"
proof -
  have "x \<in> set (y # ys) \<Longrightarrow> x \<le> foldr max ys (y :: nat)" for x y ys by (induction ys) auto
  moreover have "sat_add (us_at_ms u) (window_ms b) - now \<in> set (retry_candidates s now c)"
    using assms by (force simp: retry_candidates_def)
  ultimately show ?thesis
    by (cases "retry_candidates s now c") (auto simp: key_state_retry_after_ms_def le_max_iff_disj)
qed

text \<open>
  C23. The retry hint is honoured. When a request is denied for lack of window capacity and its key
  has no reservation in flight, repeating it no earlier than the returned delay is admitted,
  provided its estimate fits every budget at all and a reservation slot is free.
\<close>

theorem retry_after_is_enough:
  assumes "ledger_inv l" and "ledger_reserve l key e now = (Denied ra WindowCapacity rem, l')"
    and "map_of (lg_keys l') key = Some s" and "ks_active s = []"
    and "\<forall>b \<in> set (lc_budgets (lg_config l)). e \<le> capacity b \<and> capacity b \<le> u64_max"
    and "\<forall>u \<in> set (ks_settled s). \<forall>b \<in> set (lc_budgets (lg_config l)). us_at_ms u + window_ms b \<le> u64_max"
    and "lg_active_reservations l' < lc_max_active_reservations (lg_config l)"
    and "now + ra \<le> t"
  shows "\<exists>r l''. ledger_reserve l' key e t = (Admitted r, l'')"
proof -
  from assms(2) obtain s0 l0 s1 ex where d: "ledger_entry l key = Some (s0, l0)"
    "key_state_reap s0 now (lg_config l) = (s1, ex)" "l' = ledger_apply_reap l0 key s1 ex"
    "ra = key_state_retry_after_ms s1 now (lg_config l)"
  proof (cases rule: ledger_reserve_cases)
    case refused
    then show ?thesis by blast
  next
    case (denied s0 l0 s ex)
    then show ?thesis using that by auto
  qed auto
  have l': "lg_config l' = lg_config l" "s1 = s"
    using d ledger_entry_Some [OF d(1)] assms(3) by (simp_all add: ledger_apply_reap_def map_of_update)
  have valid: "key \<noteq> []" "length key \<le> lc_max_key_length (lg_config l)" "0 < e"
    using assms(2) reserve_invalid_key [of key l e now] by force+
  have old: "\<not> t - us_at_ms u < window_ms b" if "u \<in> set (ks_settled s)" "b \<in> set (lc_budgets (lg_config l))" for u b
    using that assms(6,8) retry_candidates_le [OF that, of now] d(4) l'
    by (cases "now < us_at_ms u + window_ms b") (force simp: sat_add_def)+
  obtain s2 ex2 where r: "key_state_reap s t (lg_config l) = (s2, ex2)" by force
  have s2: "ks_active s2 = []" "ex2 = []" "set (ks_settled s2) \<subseteq> set (ks_settled s)"
    using r assms(4) by (auto simp: key_state_reap_def dest: set_dropWhileD)
  have "usage_in_window s2 t (window_ms b) = 0" if "b \<in> set (lc_budgets (lg_config l))" for b
  proof -
    have "filter (\<lambda>u. t - us_at_ms u < window_ms b) (ks_settled s2) = []"
      using s2(3) old [OF _ that] by (auto simp: filter_empty_conv)
    with s2(1) show ?thesis by (simp add: usage_in_window_def)
  qed
  with assms(5) have fit: "\<not> (\<exists>b \<in> set (lc_budgets (lg_config l)). capacity b < sat_add (usage_in_window s2 t (window_ms b)) e)"
    by auto
  show ?thesis
    using valid assms(3,7) l' r s2 fit
    by (simp add: ledger_reserve_def ledger_entry_def Let_def budget_scan_eq ledger_apply_reap_def wrap_sub_def)
qed

theorem retry_after_is_enough_witness:
  "\<exists>l. ledger_reserve demo_settled ''k'' 6 60 = (Denied 940 WindowCapacity 4, l) \<and>
     (\<exists>r l'. ledger_reserve l ''k'' 6 1000 = (Admitted r, l'))"
proof -
  have inv: "ledger_inv demo_settled"
    unfolding demo_settled_def
    by (rule ledger_reconcile_inv [OF demo_reserved_inv]) (auto intro: prod.collapse [symmetric])
  have d: "ledger_reserve demo_settled ''k'' 6 60 = (Denied 940 WindowCapacity 4, demo_settled)"
    by code_simp
  have "\<exists>r l'. ledger_reserve demo_settled ''k'' 6 1000 = (Admitted r, l')"
    by (rule retry_after_is_enough
        [OF inv d, where s = "\<lparr>ks_settled = [\<lparr>us_at_ms = 0, us_tokens = 6\<rparr>], ks_active = []\<rparr>"])
      (simp_all add: demo_settled_eq demo_ledger_def demo_config_def u64_max_def)
  with d show ?thesis by blast
qed

end
