(* ===== verification/Bucket_Ledger.thy ===== *)
theory Bucket_Ledger
  imports F64 Ledger_History
begin

text \<open>
  The token-bucket ledger of \<^verbatim>\<open>filters/src/token_rate_limit/token_bucket_ledger.rs\<close>. A bucket holds
  a floating-point balance that refills lazily; a reservation takes its estimate at once and a
  settlement corrects the balance. The reservation, decision and settlement types have the same
  shape as those of the sliding-window ledger and are shared with it. Shown: the balance of every
  reachable bucket is a finite double between zero and the capacity, subtraction of an admitted
  estimate is exact, a burst never takes more than the balance, cleanup
  is invisible to the balances and to live reservations, and the counters and maps agree.
\<close>

section \<open>Data\<close>

definition MAX_CAPACITY_REFILL_RATE_RATIO_SECS :: f64 where
  "MAX_CAPACITY_REFILL_RATE_RATIO_SECS = F_Fin 1000000000"

definition MAX_F64_SAFE_INTEGER :: nat where
  "MAX_F64_SAFE_INTEGER = 2 ^ 53"

record bucket_config =
  bc_capacity :: nat
  bc_refill_rate :: f64
  bc_reservation_timeout_ms :: nat
  bc_max_keys :: nat
  bc_max_key_length :: nat
  bc_max_active_reservations :: nat

datatype bucket_config_error =
  BC_Zero_Capacity | BC_Capacity_Unsafe | BC_Bad_Rate | BC_Slow_Refill | BC_Zero_Timeout | BC_Zero_Bound

record bucket_state =
  bs_tokens :: f64
  bs_last_refill_ms :: nat
  bs_active :: "(nat \<times> active_reservation) list"

record bucket_ledger =
  bl_config :: bucket_config
  bl_keys :: "(string \<times> bucket_state) list"
  bl_reservations :: "(nat \<times> string) list"
  bl_next_id :: nat
  bl_key_count :: nat
  bl_active_reservations :: nat

section \<open>Operations\<close>

definition validate_capacity_and_refill_rate :: "nat \<Rightarrow> f64 \<Rightarrow> bucket_config_error + unit" where
  "validate_capacity_and_refill_rate cap rate =
     (if cap = 0 then Inl BC_Zero_Capacity
      else if MAX_F64_SAFE_INTEGER < cap then Inl BC_Capacity_Unsafe
      else if \<not> f64_is_finite rate \<or> f64_le rate (F_Fin 0) then Inl BC_Bad_Rate
      else if f64_lt MAX_CAPACITY_REFILL_RATE_RATIO_SECS (f64_div (f64_of_u64 cap) rate)
        then Inl BC_Slow_Refill
      else Inr ())"

definition bucket_config_validate :: "bucket_config \<Rightarrow> bucket_config_error + unit" where
  "bucket_config_validate c =
     res_bind (validate_capacity_and_refill_rate (bc_capacity c) (bc_refill_rate c)) (\<lambda>_.
       if bc_reservation_timeout_ms c = 0 then Inl BC_Zero_Timeout
       else if bc_max_keys c = 0 \<or> bc_max_key_length c = 0 \<or> bc_max_active_reservations c = 0
         then Inl BC_Zero_Bound
       else Inr ())"

definition bucket_state_new :: "nat \<Rightarrow> bucket_state" where
  "bucket_state_new cap = \<lparr>bs_tokens = f64_of_u64 cap, bs_last_refill_ms = 0, bs_active = []\<rparr>"

definition bucket_refill :: "bucket_state \<Rightarrow> nat \<Rightarrow> bucket_config \<Rightarrow> bucket_state" where
  "bucket_refill s now c =
     (let elapsed = now - bs_last_refill_ms s in
      if 0 < elapsed
      then s\<lparr>bs_tokens := f64_min
               (f64_add (bs_tokens s)
                  (f64_mul (f64_div (f64_of_u64 elapsed) (F_Fin 1000)) (bc_refill_rate c)))
               (f64_of_u64 (bc_capacity c)),
             bs_last_refill_ms := now\<rparr>
      else s)"

definition bucket_reap :: "bucket_state \<Rightarrow> nat \<Rightarrow> bucket_config \<Rightarrow> bucket_state \<times> nat list" where
  "bucket_reap s now c =
     (let expired = map fst (filter (\<lambda>(_, r). bc_reservation_timeout_ms c \<le> now - ar_created_at_ms r)
                               (bs_active s))
      in (s\<lparr>bs_active := fold AList.delete expired (bs_active s)\<rparr>, expired))"

definition bucket_is_empty :: "bucket_state \<Rightarrow> nat \<Rightarrow> bool" where
  "bucket_is_empty s cap \<longleftrightarrow> bs_active s = [] \<and> f64_le (f64_of_u64 cap) (bs_tokens s)"

definition bucket_ledger_new :: "bucket_config \<Rightarrow> bucket_config_error + bucket_ledger" where
  "bucket_ledger_new c = res_bind (bucket_config_validate c) (\<lambda>_. Inr
     \<lparr>bl_config = c, bl_keys = [], bl_reservations = [], bl_next_id = 1,
      bl_key_count = 0, bl_active_reservations = 0\<rparr>)"

definition bucket_ledger_limit :: "bucket_ledger \<Rightarrow> nat" where
  "bucket_ledger_limit l = bc_capacity (bl_config l)"

definition bucket_ledger_active_count :: "bucket_ledger \<Rightarrow> nat" where
  "bucket_ledger_active_count l = bl_active_reservations l"

definition bucket_ledger_key_count :: "bucket_ledger \<Rightarrow> nat" where
  "bucket_ledger_key_count l = bl_key_count l"

definition bucket_entry :: "bucket_ledger \<Rightarrow> string \<Rightarrow> (bucket_state \<times> bucket_ledger) option" where
  "bucket_entry l key =
     (case map_of (bl_keys l) key of
        Some s \<Rightarrow> Some (s, l)
      | None \<Rightarrow>
          (if bl_key_count l < bc_max_keys (bl_config l)
           then (let s = bucket_state_new (bc_capacity (bl_config l)) in
                 Some (s, l\<lparr>bl_key_count := bl_key_count l + 1,
                            bl_keys := AList.update key s (bl_keys l)\<rparr>))
           else None))"

definition bucket_apply_reap :: "bucket_ledger \<Rightarrow> string \<Rightarrow> bucket_state \<Rightarrow> nat list \<Rightarrow> bucket_ledger" where
  "bucket_apply_reap l key s expired =
     l\<lparr>bl_keys := AList.update key s (bl_keys l),
       bl_reservations := forget_ids expired (bl_reservations l),
       bl_active_reservations := wrap_sub (bl_active_reservations l) (length expired)\<rparr>"

text \<open>The delay reported with a denial: the time to refill the deficit, at least 1 ms.\<close>

definition bucket_retry_after :: "f64 \<Rightarrow> f64 \<Rightarrow> bucket_config \<Rightarrow> nat" where
  "bucket_retry_after estimate tokens c =
     f64_to_u64 (f64_max (f64_ceil (f64_mul (f64_div (f64_sub estimate tokens) (bc_refill_rate c)) (F_Fin 1000)))
                         (F_Fin 1))"

definition bucket_reserve :: "bucket_ledger \<Rightarrow> string \<Rightarrow> nat \<Rightarrow> nat \<Rightarrow> decision \<times> bucket_ledger" where
  "bucket_reserve l key estimate now =
     (let c = bl_config l in
      if key = [] \<or> bc_max_key_length c < length key \<or> estimate = 0
      then (Denied 0 InvalidKey 0, l)
      else case bucket_entry l key of
        None \<Rightarrow> (Denied 0 KeyCapacity 0, l)
      | Some (s0, l0) \<Rightarrow>
          (let (s, expired) = bucket_reap (bucket_refill s0 now c) now c;
               l1 = bucket_apply_reap l0 key s expired;
               remaining_before = f64_to_u64 (f64_floor (bs_tokens s));
               e = f64_of_u64 estimate
           in if f64_lt (bs_tokens s) e
              then (Denied (bucket_retry_after e (bs_tokens s) c) WindowCapacity remaining_before, l1)
              else if \<not> bl_active_reservations l1 < bc_max_active_reservations c
              then (Denied (bc_reservation_timeout_ms c) ReservationCapacity remaining_before, l1)
              else
                (let i = bl_next_id l1;
                     tokens = f64_sub (bs_tokens s) e;
                     s' = s\<lparr>bs_tokens := tokens,
                            bs_active := AList.update i
                              \<lparr>ar_estimate = estimate, ar_created_at_ms = now\<rparr> (bs_active s)\<rparr>;
                     l2 = l1\<lparr>bl_active_reservations := bl_active_reservations l1 + 1,
                             bl_next_id := wrap_add i 1,
                             bl_keys := AList.update key s' (bl_keys l1),
                             bl_reservations := AList.update i key (bl_reservations l1)\<rparr>
                 in (Admitted \<lparr>rsv_id = i, rsv_estimate = estimate, rsv_created_at_ms = now,
                       rsv_usage_after =
                         f64_to_u64 (f64_max (f64_sub (f64_of_u64 (bc_capacity c)) tokens) (F_Fin 0)),
                       rsv_remaining = f64_to_u64 (f64_floor tokens)\<rparr>, l2))))"

definition bucket_correct :: "bucket_state \<Rightarrow> nat \<Rightarrow> nat \<Rightarrow> nat \<Rightarrow> bucket_state" where
  "bucket_correct s refund overage cap =
     (if 0 < refund
      then s\<lparr>bs_tokens := f64_min (f64_add (bs_tokens s) (f64_of_u64 refund)) (f64_of_u64 cap)\<rparr>
      else if 0 < overage
      then s\<lparr>bs_tokens := f64_max (f64_sub (bs_tokens s) (f64_of_u64 overage)) (F_Fin 0)\<rparr>
      else s)"

definition bucket_reconcile :: "bucket_ledger \<Rightarrow> nat \<Rightarrow> nat option \<Rightarrow> nat \<Rightarrow> settlement \<times> bucket_ledger" where
  "bucket_reconcile l i actual now =
     (case map_of (bl_reservations l) i of
        None \<Rightarrow> (Noop, l)
      | Some key \<Rightarrow>
          (let l1 = l\<lparr>bl_reservations := AList.delete i (bl_reservations l)\<rparr> in
           case map_of (bl_keys l1) key of
             None \<Rightarrow> (Noop, l1)
           | Some s \<Rightarrow>
               (case map_of (bs_active s) i of
                  None \<Rightarrow> (Noop, l1)
                | Some r \<Rightarrow>
                    (let s1 = bucket_refill (s\<lparr>bs_active := AList.delete i (bs_active s)\<rparr>) now (bl_config l);
                         a = (case actual of None \<Rightarrow> ar_estimate r | Some a \<Rightarrow> a);
                         refund = ar_estimate r - a;
                         overage = a - ar_estimate r
                     in (Applied a refund overage,
                         l1\<lparr>bl_active_reservations := wrap_sub (bl_active_reservations l1) 1,
                            bl_keys := AList.update key
                              (bucket_correct s1 refund overage (bc_capacity (bl_config l))) (bl_keys l1)\<rparr>)))))"

definition bucket_cleanup_key :: "nat \<Rightarrow> string \<Rightarrow> nat \<times> bucket_ledger \<Rightarrow> nat \<times> bucket_ledger" where
  "bucket_cleanup_key now key acc =
     (let (orphaned, l) = acc in
      case map_of (bl_keys l) key of
        None \<Rightarrow> (orphaned, l)
      | Some s \<Rightarrow>
          (let (s', expired) = bucket_reap (bucket_refill s now (bl_config l)) now (bl_config l);
               l1 = bucket_apply_reap l key s' expired
           in (orphaned + length expired,
               if bucket_is_empty s' (bc_capacity (bl_config l))
               then l1\<lparr>bl_keys := AList.delete key (bl_keys l1),
                       bl_key_count := wrap_sub (bl_key_count l1) 1\<rparr>
               else l1)))"

definition bucket_cleanup :: "bucket_ledger \<Rightarrow> nat \<Rightarrow> nat \<Rightarrow> nat \<times> bucket_ledger" where
  "bucket_cleanup l now max_keys_to_scan =
     fold (bucket_cleanup_key now) (take max_keys_to_scan (map fst (bl_keys l))) (0, l)"

section \<open>Balances\<close>

definition bs_ids :: "bucket_state \<Rightarrow> nat list" where
  "bs_ids s = map fst (bs_active s)"

definition bucket_bal :: "nat \<Rightarrow> bucket_state \<Rightarrow> bool" where
  "bucket_bal cap s \<longleftrightarrow> (\<exists>r. bs_tokens s = F_Fin r \<and> f64_rep r \<and> 0 \<le> r \<and> r \<le> of_nat cap)"

definition bucket_inv :: "bucket_ledger \<Rightarrow> bool" where
  "bucket_inv l \<longleftrightarrow>
     book_inv bs_ids (bc_max_keys (bl_config l)) (bc_max_active_reservations (bl_config l))
       (bl_keys l) (bl_reservations l) (bl_next_id l) (bl_key_count l) (bl_active_reservations l) \<and>
     bucket_config_validate (bl_config l) = Inr () \<and>
     (\<forall>k s. map_of (bl_keys l) k = Some s \<longrightarrow> bucket_bal (bc_capacity (bl_config l)) s)"

lemma bucket_config_ok:
  assumes "bucket_config_validate c = Inr ()"
  obtains q where "0 < bc_capacity c" "bc_capacity c \<le> 2 ^ 53" "bc_refill_rate c = F_Fin q" "0 < q"
    "f64_of_u64 (bc_capacity c) = F_Fin (of_nat (bc_capacity c))"
proof -
  have v: "validate_capacity_and_refill_rate (bc_capacity c) (bc_refill_rate c) = Inr ()"
    using assms by (simp add: bucket_config_validate_def res_bind_Inr_iff)
  then have "f64_is_finite (bc_refill_rate c)" "\<not> f64_le (bc_refill_rate c) (F_Fin 0)"
    "0 < bc_capacity c" "bc_capacity c \<le> 2 ^ 53"
    by (auto simp: validate_capacity_and_refill_rate_def MAX_F64_SAFE_INTEGER_def split: if_splits)
  then show thesis using that f64_of_u64_exact by (cases "bc_refill_rate c") auto
qed

lemma bucket_new_bal: "cap \<le> 2 ^ 53 \<Longrightarrow> bucket_bal cap (bucket_state_new cap)"
  using f64_rep_nat by (simp add: bucket_bal_def bucket_state_new_def f64_of_u64_exact)

text \<open>Refilling never lowers the balance and never exceeds the capacity.\<close>

lemma bucket_refill_tokens:
  assumes c: "bucket_config_validate c = Inr ()" and "bs_tokens s = F_Fin r" and "f64_rep r"
    and "0 \<le> r" and "r \<le> of_nat (bc_capacity c)"
  shows "\<exists>r'. bs_tokens (bucket_refill s now c) = F_Fin r' \<and> f64_rep r' \<and> r \<le> r' \<and> r' \<le> of_nat (bc_capacity c)"
proof -
  obtain q where q: "bc_capacity c \<le> 2 ^ 53" "bc_refill_rate c = F_Fin q" "0 < q"
    "f64_of_u64 (bc_capacity c) = F_Fin (of_nat (bc_capacity c))" using bucket_config_ok [OF c] by blast
  let ?d = "f64_mul (f64_div (f64_of_u64 (now - bs_last_refill_ms s)) (F_Fin 1000)) (F_Fin q)"
  have "f64_nonneg ?d"
    using q(3) by (intro f64_nonneg_mul f64_nonneg_div f64_nonneg_of_u64) auto
  with f64_topup [of r "of_nat (bc_capacity c)" ?d] f64_rep_nat [OF q(1)] assms q show ?thesis
    by (auto simp: bucket_refill_def Let_def)
qed

lemma bucket_refill_bal:
  "bucket_config_validate c = Inr () \<Longrightarrow> bucket_bal (bc_capacity c) s \<Longrightarrow>
     bucket_bal (bc_capacity c) (bucket_refill s now c)"
  using bucket_refill_tokens [of c s _ now] by (fastforce simp: bucket_bal_def)

lemma bucket_refill_active [simp]: "bs_active (bucket_refill s now c) = bs_active s"
  by (simp add: bucket_refill_def Let_def)

lemma fold_delete: "fold AList.delete ks xs = filter (\<lambda>p. fst p \<notin> set ks) xs"
proof (induction ks arbitrary: xs)
  case (Cons k ks)
  then show ?case by (auto simp: AList.delete_eq case_prod_beta intro!: filter_cong)
qed simp

lemma bucket_reap_tokens [simp]: "bs_tokens (fst (bucket_reap s now c)) = bs_tokens s"
  by (simp add: bucket_reap_def Let_def)

lemma bucket_reap_last [simp]: "bs_last_refill_ms (fst (bucket_reap s now c)) = bs_last_refill_ms s"
  by (simp add: bucket_reap_def Let_def)

lemma bucket_reap_bal [simp]: "bucket_bal cap (fst (bucket_reap s now c)) \<longleftrightarrow> bucket_bal cap s"
  by (simp add: bucket_bal_def)

lemma bucket_reap_ids:
  "bs_ids (fst (bucket_reap s now c)) = filter (\<lambda>i. i \<notin> set (snd (bucket_reap s now c))) (bs_ids s)"
  by (simp add: bucket_reap_def Let_def bs_ids_def fold_delete filter_map comp_def)

lemma bucket_reap_expired:
  "set (snd (bucket_reap s now c)) \<subseteq> set (bs_ids s)"
  "distinct (bs_ids s) \<Longrightarrow> distinct (snd (bucket_reap s now c))"
  by (auto simp: bucket_reap_def Let_def bs_ids_def distinct_filter_fst)

section \<open>The invariant\<close>

lemma bucket_inv_ids: "bucket_inv l \<Longrightarrow> map_of (bl_keys l) k = Some s \<Longrightarrow> distinct (bs_ids s)"
  by (auto simp: bucket_inv_def book_inv_def)

lemma bucket_ledger_new_inv:
  assumes "bucket_ledger_new c = Inr l" and "bc_max_keys c \<le> u64_max" and "bc_max_active_reservations c \<le> u64_max"
  shows "bucket_inv l"
  using assms by (auto simp: bucket_ledger_new_def res_bind_Inr_iff bucket_inv_def book_inv_def id_count_def owns_def)

lemma bucket_apply_reap_inv:
  assumes inv: "bucket_inv l" and k: "map_of (bl_keys l) key = Some s0"
    and s1: "bs_ids s1 = bs_ids s0" "bucket_bal (bc_capacity (bl_config l)) s1"
    and r: "bucket_reap s1 now c = (s, ex)"
  shows "bucket_inv (bucket_apply_reap l key s ex)"
proof -
  have b: "book_inv bs_ids (bc_max_keys (bl_config l)) (bc_max_active_reservations (bl_config l))
       (bl_keys l) (bl_reservations l) (bl_next_id l) (bl_key_count l) (bl_active_reservations l)"
    using inv by (simp add: bucket_inv_def)
  have "bucket_bal (bc_capacity (bl_config l)) s" using s1 bucket_reap_bal [of _ s1 now c] by (simp add: r)
  moreover have "bs_ids s = filter (\<lambda>i. i \<notin> set ex) (bs_ids s0)" "distinct ex" "set ex \<subseteq> set (bs_ids s0)"
    using bucket_reap_ids [of s1 now c] bucket_reap_expired [of s1 now c] s1(1) bucket_inv_ids [OF inv k]
    by (simp_all add: r)
  ultimately show ?thesis
    using inv book_inv_forget [OF b k, of s ex] by (simp add: bucket_inv_def bucket_apply_reap_def map_of_update)
qed

lemma bucket_entry_Some:
  assumes "bucket_entry l key = Some (s, l')"
  shows "bl_config l' = bl_config l \<and> map_of (bl_keys l') key = Some s \<and>
    bl_reservations l' = bl_reservations l \<and> bl_next_id l' = bl_next_id l \<and>
    bl_active_reservations l' = bl_active_reservations l \<and>
    (map_of (bl_keys l) key = Some s \<and> l' = l \<or>
     map_of (bl_keys l) key = None \<and> s = bucket_state_new (bc_capacity (bl_config l)) \<and>
       (\<forall>k. k \<noteq> key \<longrightarrow> map_of (bl_keys l') k = map_of (bl_keys l) k))"
  using assms by (auto simp: bucket_entry_def map_of_update Let_def split: option.splits if_splits)

lemma bucket_entry_inv:
  assumes inv: "bucket_inv l" and e: "bucket_entry l key = Some (s, l')"
  shows "bucket_inv l'"
proof (cases "map_of (bl_keys l) key")
  case None
  obtain q where "bc_capacity (bl_config l) \<le> 2 ^ 53"
    using inv bucket_config_ok by (metis bucket_inv_def)
  with None inv e show ?thesis
    using book_inv_new_key [of bs_ids _ _ "bl_keys l" _ _ _ _ key "bucket_state_new (bc_capacity (bl_config l))"]
    by (auto simp: bucket_entry_def bucket_inv_def bs_ids_def Let_def map_of_update
        bucket_new_bal split: if_splits) (auto simp: bucket_state_new_def)
qed (use assms bucket_entry_Some [OF e] in auto)

lemma bucket_reserve_cases:
  assumes "bucket_reserve l key e now = (d, l')"
  obtains (refused) "l' = l" "\<And>r. d \<noteq> Admitted r" "\<And>ra rem. d \<noteq> Denied ra WindowCapacity rem"
  | (denied) s0 l0 s ex where
      "bucket_entry l key = Some (s0, l0)"
      "bucket_reap (bucket_refill s0 now (bl_config l)) now (bl_config l) = (s, ex)"
      "l' = bucket_apply_reap l0 key s ex"
      "f64_lt (bs_tokens s) (f64_of_u64 e) \<and>
         d = Denied (bucket_retry_after (f64_of_u64 e) (bs_tokens s) (bl_config l)) WindowCapacity
               (f64_to_u64 (f64_floor (bs_tokens s))) \<or>
       \<not> f64_lt (bs_tokens s) (f64_of_u64 e) \<and>
         d = Denied (bc_reservation_timeout_ms (bl_config l)) ReservationCapacity
               (f64_to_u64 (f64_floor (bs_tokens s)))"
  | (admitted) s0 l0 s ex l1 s' where
      "bucket_entry l key = Some (s0, l0)"
      "bucket_reap (bucket_refill s0 now (bl_config l)) now (bl_config l) = (s, ex)"
      "l1 = bucket_apply_reap l0 key s ex"
      "\<not> f64_lt (bs_tokens s) (f64_of_u64 e)"
      "bl_active_reservations l1 < bc_max_active_reservations (bl_config l)"
      "s' = s\<lparr>bs_tokens := f64_sub (bs_tokens s) (f64_of_u64 e),
              bs_active := AList.update (bl_next_id l)
                \<lparr>ar_estimate = e, ar_created_at_ms = now\<rparr> (bs_active s)\<rparr>"
      "l' = l1\<lparr>bl_active_reservations := bl_active_reservations l1 + 1,
               bl_next_id := wrap_add (bl_next_id l) 1,
               bl_keys := AList.update key s' (bl_keys l1),
               bl_reservations := AList.update (bl_next_id l) key (bl_reservations l1)\<rparr>"
      "d = Admitted \<lparr>rsv_id = bl_next_id l, rsv_estimate = e, rsv_created_at_ms = now,
         rsv_usage_after = f64_to_u64 (f64_max
           (f64_sub (f64_of_u64 (bc_capacity (bl_config l))) (bs_tokens s')) (F_Fin 0)),
         rsv_remaining = f64_to_u64 (f64_floor (bs_tokens s'))\<rparr>"
      "0 < e"
proof (cases "key = [] \<or> bc_max_key_length (bl_config l) < length key \<or> e = 0 \<or> bucket_entry l key = None")
  case True
  with assms show thesis by (intro refused) (auto simp: bucket_reserve_def Let_def split: if_splits)
next
  case False
  then obtain s0 l0 where entry: "bucket_entry l key = Some (s0, l0)" by auto
  obtain s ex where reap: "bucket_reap (bucket_refill s0 now (bl_config l)) now (bl_config l) = (s, ex)" by force
  let ?l1 = "bucket_apply_reap l0 key s ex"
  have nid: "bl_next_id ?l1 = bl_next_id l"
    using bucket_entry_Some [OF entry] by (simp add: bucket_apply_reap_def)
  show thesis
  proof (cases "f64_lt (bs_tokens s) (f64_of_u64 e) \<or>
      \<not> bl_active_reservations ?l1 < bc_max_active_reservations (bl_config l)")
    case True
    with assms False entry reap show thesis
      by (intro denied [of s0 l0 s ex]) (auto simp: bucket_reserve_def Let_def split: if_splits)
  next
    case ok: False
    show thesis
      by (rule admitted [OF entry reap refl _ _ refl])
        (use assms False entry reap ok nid in \<open>auto simp: bucket_reserve_def Let_def\<close>)
  qed
qed

text \<open>An admitted estimate is taken from the balance exactly.\<close>

lemma f64_sub_exact:
  assumes "f64_rep r" and "r \<le> 2 ^ 53" and "\<not> f64_lt (F_Fin r) (f64_of_u64 e)"
  shows "\<exists>n. f64_of_u64 e = F_Fin (of_nat n) \<and> of_nat n \<le> r \<and> (e \<le> 2 ^ 53 \<longrightarrow> n = e) \<and> n \<le> e \<and>
    f64_sub (F_Fin r) (f64_of_u64 e) = F_Fin (r - of_nat n) \<and> f64_rep (r - of_nat n)"
proof -
  define n where "n = min e (2 ^ 53)"
  have e: "f64_of_u64 e = F_Fin (of_nat n)"
  proof (cases "e \<le> 2 ^ 53")
    case False
    have "f64_le (F_Fin (of_nat (2 ^ 53))) (f64_of_u64 e)"
      using f64_round_mono [of "of_nat (2 ^ 53)" "of_nat e"] f64_rep_nat [of "2 ^ 53"] False
      by (simp add: f64_rep_def f64_of_u64_def)
    moreover have "f64_le (f64_of_u64 e) (F_Fin (of_nat (2 ^ 53)))"
      using assms(2,3) f64_nonneg_of_u64 [of e] by (auto simp: f64_nonneg_def)
    ultimately show ?thesis using False by (cases "f64_of_u64 e") (auto simp: n_def)
  qed (simp add: n_def f64_of_u64_exact)
  have n: "of_nat n \<le> r" using assms(3) by (simp add: e)
  have "f64_rep (r - of_nat n)" using f64_rep_diff [OF assms(1) n assms(2)] .
  with e n show ?thesis by (intro exI [of _ n]) (auto simp: f64_sub_def f64_rep_def n_def)
qed

lemma bucket_take:
  assumes "bucket_config_validate c = Inr ()" and "bucket_bal (bc_capacity c) s"
    and "\<not> f64_lt (bs_tokens s) (f64_of_u64 e)"
  shows "\<exists>r n. bs_tokens s = F_Fin r \<and> of_nat n \<le> r \<and> (e \<le> 2 ^ 53 \<longrightarrow> n = e) \<and> n \<le> e \<and>
    f64_sub (bs_tokens s) (f64_of_u64 e) = F_Fin (r - of_nat n) \<and> f64_rep (r - of_nat n) \<and>
    r \<le> of_nat (bc_capacity c)"
proof -
  obtain r where r: "bs_tokens s = F_Fin r" "f64_rep r" "r \<le> of_nat (bc_capacity c)"
    using assms(2) by (auto simp: bucket_bal_def)
  have "bc_capacity c \<le> 2 ^ 53" using bucket_config_ok [OF assms(1)] by blast
  then have "(of_nat (bc_capacity c) :: rat) \<le> 2 ^ 53" by (metis of_nat_le_iff of_nat_numeral of_nat_power)
  with r f64_sub_exact [of r e] assms(3) show ?thesis by auto
qed

lemma bucket_reserve_inv:
  assumes inv: "bucket_inv l" and nid: "bl_next_id l < u64_max"
    and res: "bucket_reserve l key e now = (d, l')"
  shows "bucket_inv l'"
proof -
  have step: "bucket_inv (bucket_apply_reap l0 key s ex)"
    if "bucket_entry l key = Some (s0, l0)"
      "bucket_reap (bucket_refill s0 now (bl_config l)) now (bl_config l) = (s, ex)" for s0 l0 s ex
  proof -
    note e = bucket_entry_Some [OF that(1)]
    have inv0: "bucket_inv l0" using bucket_entry_inv [OF inv that(1)] .
    then have "bucket_bal (bc_capacity (bl_config l)) (bucket_refill s0 now (bl_config l))"
      using e bucket_refill_bal [of "bl_config l" s0 now] by (auto simp: bucket_inv_def)
    with bucket_apply_reap_inv [OF inv0 _ _ _ that(2), of key s0] e show ?thesis
      by (simp add: bs_ids_def)
  qed
  from res show ?thesis
  proof (cases rule: bucket_reserve_cases)
    case (admitted s0 l0 s ex l1 s')
    note e = bucket_entry_Some [OF admitted(1)]
    have inv1: "bucket_inv l1" using step admitted(1-3) by simp
    have l1: "map_of (bl_keys l1) key = Some s" "bl_next_id l1 = bl_next_id l" "bl_config l1 = bl_config l"
      using e by (simp_all add: admitted(3) bucket_apply_reap_def map_of_update)
    have "bucket_bal (bc_capacity (bl_config l1)) s" using inv1 l1 by (simp add: bucket_inv_def)
    then have bal: "bucket_bal (bc_capacity (bl_config l)) s'"
      using bucket_take [of "bl_config l" s e] inv1 admitted(4)
      by (fastforce simp: bucket_inv_def l1 admitted(6) bucket_bal_def)
    have "distinct (bs_ids s')" "set (bs_ids s') = insert (bl_next_id l1) (set (bs_ids s))"
      using bucket_inv_ids [OF inv1 l1(1)]
      by (simp_all add: l1 admitted(6) bs_ids_def AList.distinct_update AList.dom_update)
    with inv1 l1 admitted(5) have "book_inv bs_ids (bc_max_keys (bl_config l1))
        (bc_max_active_reservations (bl_config l1)) (AList.update key s' (bl_keys l1))
        (AList.update (bl_next_id l1) key (bl_reservations l1)) (bl_next_id l1 + 1) (bl_key_count l1)
        (bl_active_reservations l1 + 1)"
      by (intro book_inv_admit) (auto simp: bucket_inv_def)
    with inv1 l1 nid bal wrap_add_exact [of "bl_next_id l" 1] show ?thesis
      by (simp add: bucket_inv_def admitted(7) map_of_update)
  qed (use inv step in auto)
qed

lemma bucket_reconcile_cases:
  assumes "bucket_inv l" and "bucket_reconcile l i actual now = (st, l')"
  obtains (noop) "map_of (bl_reservations l) i = None" "st = Noop" "l' = l"
  | (applied) key s r a s1 where
      "map_of (bl_reservations l) i = Some key" "map_of (bl_keys l) key = Some s"
      "map_of (bs_active s) i = Some r"
      "a = (case actual of None \<Rightarrow> ar_estimate r | Some a \<Rightarrow> a)"
      "s1 = bucket_correct (bucket_refill (s\<lparr>bs_active := AList.delete i (bs_active s)\<rparr>) now (bl_config l))
              (ar_estimate r - a) (a - ar_estimate r) (bc_capacity (bl_config l))"
      "st = Applied a (ar_estimate r - a) (a - ar_estimate r)"
      "l' = l\<lparr>bl_reservations := AList.delete i (bl_reservations l),
              bl_active_reservations := wrap_sub (bl_active_reservations l) 1,
              bl_keys := AList.update key s1 (bl_keys l)\<rparr>"
proof (cases "map_of (bl_reservations l) i")
  case None
  with assms show thesis by (intro noop) (auto simp: bucket_reconcile_def)
next
  case (Some key)
  with assms(1) obtain s where s: "map_of (bl_keys l) key = Some s" "i \<in> set (bs_ids s)"
    unfolding bucket_inv_def using book_inv_owner by blast
  then obtain r where "map_of (bs_active s) i = Some r"
    by (metis bs_ids_def map_of_eq_None_iff not_None_eq set_map)
  then show thesis using Some s assms(2)
    by (intro applied [OF Some s(1) _ refl refl]) (auto simp: bucket_reconcile_def Let_def)
qed

lemma bucket_correct_active [simp]: "bs_active (bucket_correct s x y cap) = bs_active s"
  by (simp add: bucket_correct_def)

lemma bucket_correct_bal:
  assumes "cap \<le> 2 ^ 53" and "bucket_bal cap s"
  shows "bucket_bal cap (bucket_correct s x y cap)"
proof -
  obtain r where r: "bs_tokens s = F_Fin r" "f64_rep r" "0 \<le> r" "r \<le> of_nat cap"
    using assms(2) by (auto simp: bucket_bal_def)
  obtain r1 where r1: "f64_min (f64_add (F_Fin r) (f64_of_u64 x)) (F_Fin (of_nat cap)) = F_Fin r1"
    "f64_rep r1" "r \<le> r1" "r1 \<le> of_nat cap"
    using f64_topup [OF r(2,4) f64_rep_nat [OF assms(1)] f64_nonneg_of_u64 [of x]] by blast
  obtain r2 where r2: "f64_max (f64_sub (F_Fin r) (f64_of_u64 y)) (F_Fin 0) = F_Fin r2"
    "f64_rep r2" "0 \<le> r2" "r2 \<le> r"
    using f64_drain [OF r(2,3) f64_nonneg_of_u64 [of y]] by blast
  from r r1 r2 show ?thesis
    by (auto simp: bucket_correct_def bucket_bal_def f64_of_u64_exact [OF assms(1)])
qed

lemma bucket_reconcile_inv:
  assumes inv: "bucket_inv l" and res: "bucket_reconcile l i actual now = (st, l')"
  shows "bucket_inv l'"
  using inv res
proof (cases rule: bucket_reconcile_cases)
  case noop
  with inv show ?thesis by simp
next
  case (applied key s r a s1)
  let ?c = "bl_config l"
  have c: "bucket_config_validate ?c = Inr ()" and bal: "bucket_bal (bc_capacity ?c) s"
    using inv applied(2) by (auto simp: bucket_inv_def)
  have "bucket_bal (bc_capacity ?c) (s\<lparr>bs_active := AList.delete i (bs_active s)\<rparr>)"
    using bal by (simp add: bucket_bal_def)
  moreover have "bc_capacity ?c \<le> 2 ^ 53" using bucket_config_ok [OF c] by blast
  ultimately have "bucket_bal (bc_capacity ?c) s1"
    unfolding applied(5) by (intro bucket_correct_bal bucket_refill_bal [OF c])
  moreover have "bs_ids s1 = filter (\<lambda>j. j \<notin> set [i]) (bs_ids s)"
    by (auto simp: applied(5) bs_ids_def AList.delete_eq filter_map comp_def case_prod_beta
        intro!: arg_cong [of _ _ "map fst"] filter_cong)
  moreover have "i \<in> set (bs_ids s)" using applied(3) by (force simp: bs_ids_def dest: map_of_SomeD)
  moreover have "book_inv bs_ids (bc_max_keys ?c) (bc_max_active_reservations ?c) (bl_keys l)
      (bl_reservations l) (bl_next_id l) (bl_key_count l) (bl_active_reservations l)"
    using inv by (simp add: bucket_inv_def)
  ultimately show ?thesis
    using book_inv_forget [OF _ applied(2), of bs_ids _ _ _ _ _ _ s1 "[i]"] inv
    by (simp add: bucket_inv_def applied(7) forget_ids_single map_of_update)
qed

lemma bucket_cleanup_key_inv:
  assumes inv: "bucket_inv l"
  shows "bucket_inv (snd (bucket_cleanup_key now key (n, l)))"
proof (cases "map_of (bl_keys l) key")
  case None
  with inv show ?thesis by (simp add: bucket_cleanup_key_def)
next
  case (Some s)
  let ?c = "bl_config l"
  obtain s' ex where r: "bucket_reap (bucket_refill s now ?c) now ?c = (s', ex)" by force
  let ?l1 = "bucket_apply_reap l key s' ex"
  have inv1: "bucket_inv ?l1"
    using bucket_apply_reap_inv [OF inv Some _ _ r] inv Some bucket_refill_bal [of ?c s now]
    by (auto simp: bucket_inv_def bs_ids_def)
  have k: "map_of (bl_keys ?l1) key = Some s'" by (simp add: bucket_apply_reap_def map_of_update)
  show ?thesis
  proof (cases "bucket_is_empty s' (bc_capacity ?c)")
    case True
    have "1 \<le> length (bl_keys ?l1)" using k by (cases "bl_keys ?l1") auto
    then have w: "wrap_sub (bl_key_count ?l1) 1 = bl_key_count ?l1 - 1"
      using inv1 by (intro wrap_sub_exact) (auto simp: bucket_inv_def book_inv_def)
    have "bs_ids s' = []" using True by (simp add: bucket_is_empty_def bs_ids_def)
    moreover have "book_inv bs_ids (bc_max_keys (bl_config ?l1)) (bc_max_active_reservations (bl_config ?l1))
      (bl_keys ?l1) (bl_reservations ?l1) (bl_next_id ?l1) (bl_key_count ?l1) (bl_active_reservations ?l1)"
      using inv1 by (simp add: bucket_inv_def)
    ultimately have b: "book_inv bs_ids (bc_max_keys (bl_config ?l1)) (bc_max_active_reservations (bl_config ?l1))
      (AList.delete key (bl_keys ?l1)) (bl_reservations ?l1) (bl_next_id ?l1) (bl_key_count ?l1 - 1)
      (bl_active_reservations ?l1)" by (intro book_inv_drop_key [OF _ k])
    have "snd (bucket_cleanup_key now key (n, l)) =
        ?l1\<lparr>bl_keys := AList.delete key (bl_keys ?l1), bl_key_count := wrap_sub (bl_key_count ?l1) 1\<rparr>"
      using Some r True by (simp add: bucket_cleanup_key_def Let_def)
    with w b inv1 show ?thesis by (auto simp: bucket_inv_def map_of_adelete)
  next
    case False
    with inv1 Some r show ?thesis by (simp add: bucket_cleanup_key_def)
  qed
qed

lemma bucket_cleanup_inv: "bucket_inv l \<Longrightarrow> bucket_inv (snd (bucket_cleanup l now n))"
proof -
  have "bucket_inv l \<Longrightarrow> bucket_inv (snd (fold (bucket_cleanup_key now) ks (m, l)))" for ks m l
  proof (induction ks arbitrary: m l)
    case (Cons k ks)
    then show ?case using bucket_cleanup_key_inv [of l now k m]
      by (cases "bucket_cleanup_key now k (m, l)") simp
  qed simp
  then show "bucket_inv l \<Longrightarrow> ?thesis" by (simp add: bucket_cleanup_def)
qed

section \<open>Runs and bursts\<close>

fun bucket_step :: "ledger_op \<Rightarrow> bucket_ledger \<Rightarrow> bucket_ledger" where
  "bucket_step (Op_Reserve key e now) l = snd (bucket_reserve l key e now)"
| "bucket_step (Op_Reconcile i actual now) l = snd (bucket_reconcile l i actual now)"
| "bucket_step (Op_Cleanup now n) l = snd (bucket_cleanup l now n)"

text \<open>Reserve a list of estimates for one key at one instant and add up those admitted.\<close>

fun bucket_burst :: "bucket_ledger \<Rightarrow> string \<Rightarrow> nat \<Rightarrow> nat list \<Rightarrow> nat" where
  "bucket_burst l key now [] = 0"
| "bucket_burst l key now (e # es) =
     (let (d, l') = bucket_reserve l key e now
      in (case d of Admitted _ \<Rightarrow> e | Denied _ _ _ \<Rightarrow> 0) + bucket_burst l' key now es)"

text \<open>The balance a key is offered at a time: a key that is not tracked is offered a full bucket.\<close>

definition bucket_view :: "bucket_ledger \<Rightarrow> string \<Rightarrow> nat \<Rightarrow> f64" where
  "bucket_view l key now =
     (let s = (case map_of (bl_keys l) key of None \<Rightarrow> bucket_state_new (bc_capacity (bl_config l)) | Some s \<Rightarrow> s)
      in bs_tokens (bucket_refill s now (bl_config l)))"

lemma bucket_cleanup_next_id: "bl_next_id (snd (bucket_cleanup l now n)) = bl_next_id l"
proof -
  have "bl_next_id (snd (bucket_cleanup_key now k a)) = bl_next_id (snd a)" for k a
    by (cases a) (auto simp: bucket_cleanup_key_def bucket_apply_reap_def Let_def split: option.splits prod.splits)
  then have "bl_next_id (snd (fold (bucket_cleanup_key now) ks a)) = bl_next_id (snd a)" for ks a
    by (induction ks arbitrary: a) simp_all
  then show ?thesis by (simp add: bucket_cleanup_def)
qed

lemma bucket_reserve_next_id:
  assumes "bl_next_id l < u64_max"
  shows "bl_next_id (snd (bucket_reserve l key e now)) \<le> bl_next_id l + 1"
proof -
  obtain d l' where r: "bucket_reserve l key e now = (d, l')" by force
  then have "bl_next_id l' = bl_next_id l \<or> bl_next_id l' = bl_next_id l + 1"
    by (cases rule: bucket_reserve_cases)
      (use assms wrap_add_exact [of "bl_next_id l" 1] in
        \<open>auto simp: bucket_apply_reap_def dest: bucket_entry_Some\<close>)
  with r show ?thesis by auto
qed

lemma bucket_step_inv:
  assumes "bucket_inv l" and "bl_next_id l < u64_max"
  shows "bucket_inv (bucket_step x l) \<and> bl_next_id (bucket_step x l) \<le> bl_next_id l + 1"
proof (cases x)
  case (Op_Reserve key e t)
  with assms bucket_reserve_inv [OF assms] bucket_reserve_next_id [OF assms(2)] show ?thesis
    by (metis bucket_step.simps(1) prod.collapse)
next
  case (Op_Reconcile i a t)
  have "bl_next_id (snd (bucket_reconcile l i a t)) = bl_next_id l"
    by (auto simp: bucket_reconcile_def Let_def split: option.splits)
  with Op_Reconcile bucket_reconcile_inv [OF assms(1)] show ?thesis
    by (metis bucket_step.simps(2) prod.collapse le_add1)
next
  case (Op_Cleanup t n)
  with assms bucket_cleanup_inv bucket_cleanup_next_id show ?thesis by simp
qed

lemma bucket_fold_inv:
  "bucket_inv l \<Longrightarrow> bl_next_id l + length ops \<le> u64_max \<Longrightarrow> bucket_inv (fold bucket_step ops l)"
proof (induction ops arbitrary: l)
  case (Cons x ops)
  with bucket_step_inv [of l x] show ?case by simp
qed simp

lemma bucket_refill_idem: "bucket_refill (bucket_refill s now c) now c = bucket_refill s now c"
  by (simp add: bucket_refill_def Let_def)

lemma bucket_refill_same: "now \<le> bs_last_refill_ms s \<Longrightarrow> bucket_refill s now c = s"
  by (simp add: bucket_refill_def)

lemma bucket_refill_last: "bs_last_refill_ms (bucket_refill s now c) = max now (bs_last_refill_ms s)"
  by (simp add: bucket_refill_def Let_def)

lemma bucket_full_refill:
  assumes c: "bucket_config_validate c = Inr ()" and t: "bs_tokens s = F_Fin (of_nat (bc_capacity c))"
    and "bs_last_refill_ms s \<le> now"
  shows "bucket_refill s now c = s\<lparr>bs_last_refill_ms := now\<rparr>"
proof -
  have "bc_capacity c \<le> 2 ^ 53" using bucket_config_ok [OF c] by blast
  then have "f64_rep (of_nat (bc_capacity c))" by (rule f64_rep_nat)
  from bucket_refill_tokens [OF c t this, of now]
  have "bs_tokens (bucket_refill s now c) = F_Fin (of_nat (bc_capacity c))" by auto
  with t assms(3) show ?thesis
    by (cases s) (auto simp: bucket_refill_def Let_def split: if_splits)
qed

text \<open>What one reservation does to the balance its key is offered at that instant.\<close>

lemma bucket_view_bal:
  assumes inv: "bucket_inv l"
  shows "\<exists>b. bucket_view l key now = F_Fin b \<and> 0 \<le> b \<and> b \<le> of_nat (bc_capacity (bl_config l))"
proof -
  let ?c = "bl_config l"
  let ?s = "case map_of (bl_keys l) key of None \<Rightarrow> bucket_state_new (bc_capacity ?c) | Some s \<Rightarrow> s"
  have c: "bucket_config_validate ?c = Inr ()" using inv by (simp add: bucket_inv_def)
  then have "bc_capacity ?c \<le> 2 ^ 53" using bucket_config_ok [OF c] by blast
  then have "bucket_bal (bc_capacity ?c) ?s"
    using inv bucket_new_bal by (auto simp: bucket_inv_def split: option.splits)
  from bucket_refill_bal [OF c this, of now] show ?thesis
    by (auto simp: bucket_view_def bucket_bal_def Let_def)
qed

lemma bucket_reserve_balance:
  assumes inv: "bucket_inv l" and b: "bucket_view l key now = F_Fin b" and e: "e \<le> 2 ^ 53"
    and res: "bucket_reserve l key e now = (d, l')"
  shows "case d of Admitted _ \<Rightarrow> of_nat e \<le> b \<and> bucket_view l' key now = F_Fin (b - of_nat e)
             | Denied _ _ _ \<Rightarrow> bucket_view l' key now = F_Fin b"
  using res
proof (cases rule: bucket_reserve_cases)
  case refused
  with b show ?thesis by (cases d) auto
next
  case (denied s0 l0 s1 ex)
  note ent = bucket_entry_Some [OF denied(1)]
  have v: "bucket_view l key now = bs_tokens s1" "now \<le> bs_last_refill_ms s1"
    using denied(2) ent bucket_reap_tokens [of "bucket_refill s0 now (bl_config l)" now "bl_config l"]
      bucket_reap_last [of "bucket_refill s0 now (bl_config l)" now "bl_config l"]
    by (auto simp: bucket_view_def Let_def bucket_refill_last)
  have "bucket_view l' key now = F_Fin b"
    using v b ent by (simp add: denied(3) bucket_view_def bucket_apply_reap_def map_of_update bucket_refill_same Let_def)
  with denied(4) show ?thesis by auto
next
  case (admitted s0 l0 s1 ex l1 s')
  note ent = bucket_entry_Some [OF admitted(1)]
  have v: "bucket_view l key now = bs_tokens s1" "now \<le> bs_last_refill_ms s1"
    using admitted(2) ent bucket_reap_tokens [of "bucket_refill s0 now (bl_config l)" now "bl_config l"]
      bucket_reap_last [of "bucket_refill s0 now (bl_config l)" now "bl_config l"]
    by (auto simp: bucket_view_def Let_def bucket_refill_last)
  have c: "bucket_config_validate (bl_config l) = Inr ()" using inv by (simp add: bucket_inv_def)
  have "bucket_bal (bc_capacity (bl_config l)) s0"
    using bucket_entry_inv [OF inv admitted(1)] ent by (auto simp: bucket_inv_def)
  from bucket_refill_bal [OF c this, of now] have "bucket_bal (bc_capacity (bl_config l)) s1"
    using bucket_reap_bal admitted(2) by (metis fst_conv)
  from bucket_take [OF c this admitted(4)] have "of_nat e \<le> b"
    "f64_sub (bs_tokens s1) (f64_of_u64 e) = F_Fin (b - of_nat e)" using e b v by auto
  then show ?thesis
    using v ent by (simp add: admitted(3,6-8) bucket_view_def bucket_apply_reap_def map_of_update bucket_refill_same Let_def)
qed

lemma bucket_burst_balance:
  assumes "bucket_inv l" and "bucket_view l key now = F_Fin b" and "\<forall>e \<in> set es. e \<le> 2 ^ 53"
    and "bl_next_id l + length es \<le> u64_max" and "0 \<le> b"
  shows "of_nat (bucket_burst l key now es) \<le> b"
  using assms
proof (induction es arbitrary: l b)
  case (Cons e es)
  obtain d l' where res: "bucket_reserve l key e now = (d, l')" by force
  have inv: "bucket_inv l'" using bucket_reserve_inv [OF Cons.prems(1) _ res] Cons.prems(4) by simp
  have nid: "bl_next_id l' + length es \<le> u64_max"
    using bucket_reserve_next_id [of l key e now] Cons.prems(4) res by simp
  have step: "case d of Admitted _ \<Rightarrow> of_nat e \<le> b \<and> bucket_view l' key now = F_Fin (b - of_nat e)
             | Denied _ _ _ \<Rightarrow> bucket_view l' key now = F_Fin b"
    using bucket_reserve_balance [OF Cons.prems(1,2) _ res] Cons.prems(3) by simp
  show ?case
  proof (cases d)
    case (Admitted r)
    with step have "of_nat (bucket_burst l' key now es) \<le> b - of_nat e"
      using Cons.IH [OF inv _ _ nid] Cons.prems(3) by simp
    then show ?thesis by (simp add: res Admitted)
  next
    case (Denied x y z)
    with step show ?thesis
      using Cons.IH [OF inv _ _ nid] Cons.prems(3,5) by (simp add: res)
  qed
qed simp

section \<open>Cleanup\<close>

lemma bucket_inv_owner:
  "bucket_inv l \<Longrightarrow> map_of (bl_reservations l) i = Some k \<longleftrightarrow>
     (\<exists>s r. map_of (bl_keys l) k = Some s \<and> map_of (bs_active s) i = Some r)"
proof -
  have "i \<in> set (bs_ids s) \<longleftrightarrow> (\<exists>r. map_of (bs_active s) i = Some r)" for s
    by (metis bs_ids_def map_of_eq_None_iff not_None_eq set_map)
  then show "bucket_inv l \<Longrightarrow> ?thesis" by (auto simp: bucket_inv_def book_inv_def owns_def)
qed

text \<open>What cleanup makes of a key it scans.\<close>

definition cleaned :: "nat \<Rightarrow> bucket_config \<Rightarrow> bucket_state \<Rightarrow> bucket_state" where
  "cleaned now c s = fst (bucket_reap (bucket_refill s now c) now c)"

definition swept :: "nat \<Rightarrow> bucket_config \<Rightarrow> bucket_state \<Rightarrow> bucket_state option" where
  "swept now c s = (if bucket_is_empty (cleaned now c s) (bc_capacity c) then None else Some (cleaned now c s))"

lemma bucket_reap_active:
  assumes "distinct (bs_ids s)"
  shows "map_of (bs_active (fst (bucket_reap s now c))) i =
    (case map_of (bs_active s) i of
       None \<Rightarrow> None
     | Some r \<Rightarrow> if bc_reservation_timeout_ms c \<le> now - ar_created_at_ms r then None else Some r)"
proof -
  have "map_of (filter (\<lambda>p. fst p \<notin> K) xs) i = (if i \<in> K then None else map_of xs i)" for K and xs :: "(nat \<times> active_reservation) list"
    using map_of_filter_fst [of "\<lambda>j. j \<notin> K" xs i] by simp
  then show ?thesis
    using assms map_of_eq_Some_iff [of "bs_active s" i] map_of_eq_None_iff [of "bs_active s" i]
    by (force simp: bucket_reap_def Let_def fold_delete bs_ids_def split: option.split)
qed

lemma swept_live:
  assumes "distinct (bs_ids s)" and "map_of (bs_active s) i = Some r"
    and "now - ar_created_at_ms r < bc_reservation_timeout_ms c"
  shows "\<exists>s'. swept now c s = Some s' \<and> map_of (bs_active s') i = Some r"
proof -
  have "map_of (bs_active (cleaned now c s)) i = Some r"
    using bucket_reap_active [of "bucket_refill s now c" now c i] assms by (simp add: cleaned_def bs_ids_def)
  then show ?thesis by (auto simp: swept_def bucket_is_empty_def)
qed

lemma bucket_reap_count:
  assumes "bucket_inv l" and "map_of (bl_keys l) key = Some s" and "bucket_reap (bucket_refill s now c) now c = (s', ex)"
  shows "wrap_sub (bl_active_reservations l) (length ex) \<le> bl_active_reservations l"
proof -
  have ids: "bs_ids (bucket_refill s now c) = bs_ids s" by (simp add: bs_ids_def)
  have d: "distinct (bs_ids s)" using bucket_inv_ids [OF assms(1,2)] .
  have "set ex \<subseteq> set (bs_ids s)" "distinct ex"
    using bucket_reap_expired [of "bucket_refill s now c" now c] assms(3) d ids by simp_all
  then have "length ex \<le> length (bs_ids s)" using d by (metis card_mono distinct_card List.finite_set)
  moreover have "length (bs_ids s) \<le> bl_active_reservations l" "bl_active_reservations l \<le> u64_max"
    using assms(1) id_count_member [OF assms(2), of bs_ids] by (auto simp: bucket_inv_def book_inv_def)
  ultimately show ?thesis using wrap_sub_exact [of "length ex" "bl_active_reservations l"] by simp
qed

lemma bucket_cleanup_key_effect:
  assumes "bucket_inv l" and "bucket_cleanup_key now key (m, l) = (m', l')"
  shows "map_of (bl_keys l') k = (if k = key then Option.bind (map_of (bl_keys l) k) (swept now (bl_config l)) else map_of (bl_keys l) k)"
    and "bl_config l' = bl_config l" and "bl_active_reservations l' \<le> bl_active_reservations l"
proof -
  show "map_of (bl_keys l') k = (if k = key then Option.bind (map_of (bl_keys l) k) (swept now (bl_config l)) else map_of (bl_keys l) k)"
    "bl_config l' = bl_config l" "bl_active_reservations l' \<le> bl_active_reservations l"
    using assms(2) bucket_reap_count [OF assms(1)]
    by (auto simp: bucket_cleanup_key_def Let_def bucket_apply_reap_def map_of_update map_of_adelete swept_def cleaned_def
        split: option.splits prod.splits if_splits)
qed

lemma bucket_cleanup_effect:
  assumes "bucket_inv l" and "bucket_cleanup l now n = (m, l')"
  shows "map_of (bl_keys l') k = (if k \<in> set (take n (map fst (bl_keys l)))
      then Option.bind (map_of (bl_keys l) k) (swept now (bl_config l)) else map_of (bl_keys l) k)"
    and "bucket_inv l'" and "bl_config l' = bl_config l" and "bl_active_reservations l' \<le> bl_active_reservations l"
    and "bl_next_id l' = bl_next_id l"
proof -
  have fold: "map_of (bl_keys l') k = (if k \<in> set ks then Option.bind (map_of (bl_keys l) k) (swept now (bl_config l)) else map_of (bl_keys l) k) \<and>
      bl_config l' = bl_config l \<and> bl_active_reservations l' \<le> bl_active_reservations l"
    if "bucket_inv l" "distinct ks" "fold (bucket_cleanup_key now) ks (j, l) = (m, l')" for ks j l m l' k
    using that
  proof (induction ks arbitrary: j l)
    case (Cons x ks)
    obtain m1 l1 where step: "bucket_cleanup_key now x (j, l) = (m1, l1)" by force
    have "bucket_inv l1" using bucket_cleanup_key_inv [OF Cons.prems(1), of now x j] step by simp
    from Cons.IH [where j = m1, OF this] Cons.prems(2,3) step
    have IH: "map_of (bl_keys l') k = (if k \<in> set ks then Option.bind (map_of (bl_keys l1) k) (swept now (bl_config l1)) else map_of (bl_keys l1) k)"
      "bl_config l' = bl_config l1" "bl_active_reservations l' \<le> bl_active_reservations l1" by simp_all
    with Cons.prems(2) bucket_cleanup_key_effect [OF Cons.prems(1) step] show ?case by auto
  qed simp
  have "distinct (take n (map fst (bl_keys l)))" using assms(1) by (simp add: bucket_inv_def book_inv_def)
  from fold [where j = 0 and m = m and l' = l' and k = k, OF assms(1) this] assms(2)
  show "map_of (bl_keys l') k = (if k \<in> set (take n (map fst (bl_keys l)))
      then Option.bind (map_of (bl_keys l) k) (swept now (bl_config l)) else map_of (bl_keys l) k)"
    "bl_config l' = bl_config l" "bl_active_reservations l' \<le> bl_active_reservations l"
    by (simp_all add: bucket_cleanup_def)
  show "bucket_inv l'" "bl_next_id l' = bl_next_id l"
    using bucket_cleanup_inv [OF assms(1), of now n] bucket_cleanup_next_id [of l now n] assms(2) by simp_all
qed

text \<open>A bucket that is full at one time is full at every later time.\<close>

lemma bucket_refill_full_later:
  assumes c: "bucket_config_validate c = Inr ()" and bal: "bucket_bal (bc_capacity c) s"
    and full: "bs_tokens (bucket_refill s now c) = F_Fin (of_nat (bc_capacity c))" and "now \<le> t"
  shows "bs_tokens (bucket_refill s t c) = F_Fin (of_nat (bc_capacity c))"
proof -
  obtain q where q: "bc_refill_rate c = F_Fin q" "0 < q" "f64_of_u64 (bc_capacity c) = F_Fin (of_nat (bc_capacity c))"
    using bucket_config_ok [OF c] by blast
  obtain r where r: "bs_tokens s = F_Fin r" "f64_rep r" "0 \<le> r" "r \<le> of_nat (bc_capacity c)"
    using bal by (auto simp: bucket_bal_def)
  let ?gain = "\<lambda>n. f64_mul (f64_div (f64_of_u64 n) (F_Fin 1000)) (F_Fin q)"
  let ?n = "now - bs_last_refill_ms s" and ?t = "t - bs_last_refill_ms s"
  have upper: "r' \<le> of_nat (bc_capacity c)" "r \<le> r'" if "bs_tokens (bucket_refill s t c) = F_Fin r'" for r'
    using bucket_refill_tokens [OF c r, of t] that by auto
  obtain r' where r': "bs_tokens (bucket_refill s t c) = F_Fin r'" using bucket_refill_tokens [OF c r, of t] by auto
  show ?thesis
  proof (cases "0 < ?n")
    case False
    then have "r = of_nat (bc_capacity c)" using full r by (simp add: bucket_refill_def)
    with upper [OF r'] r' show ?thesis by simp
  next
    case True
    have "f64_le (f64_of_u64 ?n) (f64_of_u64 ?t)"
      using f64_round_mono [of "of_nat ?n" "of_nat ?t"] assms(4) by (simp add: f64_of_u64_def)
    then have "f64_le (f64_add (F_Fin r) (?gain ?n)) (f64_add (F_Fin r) (?gain ?t))"
      using q(2) r(3) by (intro f64_add_mono f64_mul_mono f64_div_mono f64_nonneg_mul f64_nonneg_div f64_nonneg_of_u64) simp_all
    moreover have "f64_min (f64_add (F_Fin r) (?gain ?n)) (F_Fin (of_nat (bc_capacity c))) = F_Fin (of_nat (bc_capacity c))"
      using full True q r by (simp add: bucket_refill_def)
    ultimately have "f64_min (f64_add (F_Fin r) (?gain ?t)) (F_Fin (of_nat (bc_capacity c))) = F_Fin (of_nat (bc_capacity c))"
      by (cases "f64_add (F_Fin r) (?gain ?n)"; cases "f64_add (F_Fin r) (?gain ?t)") (auto simp: f64_min_def split: if_splits)
    with True assms(4) q r show ?thesis by (simp add: bucket_refill_def)
  qed
qed

lemma bucket_new_full:
  assumes "bucket_config_validate c = Inr ()"
  shows "bs_tokens (bucket_refill (bucket_state_new (bc_capacity c)) t c) = F_Fin (of_nat (bc_capacity c))"
proof -
  obtain q where "f64_of_u64 (bc_capacity c) = F_Fin (of_nat (bc_capacity c))" using bucket_config_ok [OF assms] by blast
  then show ?thesis
    using bucket_full_refill [OF assms, of "bucket_state_new (bc_capacity c)" t] by (simp add: bucket_state_new_def)
qed

lemma swept_None:
  assumes "bucket_config_validate c = Inr ()" and "bucket_bal (bc_capacity c) s" and "swept now c s = None"
  shows "bs_tokens (bucket_refill s now c) = F_Fin (of_nat (bc_capacity c))"
proof -
  obtain q where "f64_of_u64 (bc_capacity c) = F_Fin (of_nat (bc_capacity c))" using bucket_config_ok [OF assms(1)] by blast
  with assms(3) bucket_refill_bal [OF assms(1,2), of now] show ?thesis
    by (auto simp: swept_def cleaned_def bucket_is_empty_def bucket_bal_def split: if_splits)
qed

lemma bucket_cleanup_view:
  assumes "bucket_inv l" and "bucket_cleanup l now n = (m, l')"
    and "now \<le> t" and "t = now \<or> map_of (bl_keys l') k = None"
  shows "bucket_view l' k t = bucket_view l k t"
proof (cases "map_of (bl_keys l) k")
  case None
  with bucket_cleanup_effect [OF assms(1,2)] show ?thesis by (simp add: bucket_view_def)
next
  case (Some s)
  let ?c = "bl_config l"
  have c: "bucket_config_validate ?c = Inr ()" and bal: "bucket_bal (bc_capacity ?c) s"
    using assms(1) Some by (auto simp: bucket_inv_def)
  note eff = bucket_cleanup_effect [OF assms(1,2)]
  show ?thesis
  proof (cases "map_of (bl_keys l') k")
    case None
    then have "swept now ?c s = None" using eff(1) [of k] Some by (auto split: if_splits)
    from bucket_refill_full_later [OF c bal swept_None [OF c bal this] assms(3)] None Some bucket_new_full [OF c, of t]
    show ?thesis by (simp add: bucket_view_def eff(3))
  next
    case (Some s')
    then have "s' = s \<or> s' = cleaned now ?c s"
      using eff(1) [of k] \<open>map_of (bl_keys l) k = Some s\<close> by (auto simp: swept_def split: if_splits)
    moreover have "bs_tokens (bucket_refill (cleaned now ?c s) now ?c) = bs_tokens (bucket_refill s now ?c)"
      by (simp add: bucket_refill_same cleaned_def bucket_refill_last)
    ultimately show ?thesis
      using Some \<open>map_of (bl_keys l) k = Some s\<close> assms(4) by (auto simp: bucket_view_def eff(3))
  qed
qed

text \<open>With a slot free, the decision depends on the balance on offer alone.\<close>

lemma bucket_reserve_decision:
  assumes "bucket_inv l" and "bl_active_reservations l < bc_max_active_reservations (bl_config l)"
    and "map_of (bl_keys l) k \<noteq> None \<or> bl_key_count l < bc_max_keys (bl_config l)"
  shows "fst (bucket_reserve l k e t) =
    (let c = bl_config l; tokens = bucket_view l k t; x = f64_of_u64 e; left = f64_sub tokens x
     in if k = [] \<or> bc_max_key_length c < length k \<or> e = 0 then Denied 0 InvalidKey 0
        else if f64_lt tokens x then Denied (bucket_retry_after x tokens c) WindowCapacity (f64_to_u64 (f64_floor tokens))
        else Admitted \<lparr>rsv_id = bl_next_id l, rsv_estimate = e, rsv_created_at_ms = t,
               rsv_usage_after = f64_to_u64 (f64_max (f64_sub (f64_of_u64 (bc_capacity c)) left) (F_Fin 0)),
               rsv_remaining = f64_to_u64 (f64_floor left)\<rparr>)"
proof -
  obtain s l0 where ent: "bucket_entry l k = Some (s, l0)"
    using assms(3) by (cases "map_of (bl_keys l) k") (auto simp: bucket_entry_def Let_def)
  note e = bucket_entry_Some [OF ent]
  obtain s' ex where r: "bucket_reap (bucket_refill s t (bl_config l)) t (bl_config l) = (s', ex)" by force
  have "bs_tokens s' = bucket_view l k t"
    using e bucket_reap_tokens [of "bucket_refill s t (bl_config l)" t "bl_config l"] by (auto simp: r bucket_view_def)
  moreover have "wrap_sub (bl_active_reservations l0) (length ex) < bc_max_active_reservations (bl_config l)"
    using bucket_reap_count [OF bucket_entry_inv [OF assms(1) ent], of k s t "bl_config l" s' ex] e r assms(2) by simp
  ultimately show ?thesis
    using e by (simp add: bucket_reserve_def Let_def ent r bucket_apply_reap_def)
qed

lemma bucket_forgotten_decision:
  assumes "bucket_inv l" and "bucket_cleanup l now n = (m, l')"
    and k: "map_of (bl_keys l) k \<noteq> None" "map_of (bl_keys l') k = None" "now \<le> t"
    and room: "bl_active_reservations l < bc_max_active_reservations (bl_config l)"
  shows "fst (bucket_reserve l' k e t) = fst (bucket_reserve l k e t)"
proof -
  note eff = bucket_cleanup_effect [OF assms(1,2)]
  have "set (map fst (bl_keys l')) \<subset> set (map fst (bl_keys l))"
  proof -
    have "k \<in> set (map fst (bl_keys l))" "k \<notin> set (map fst (bl_keys l'))" using k by (auto simp: map_of_eq_None_iff)
    moreover have "x \<in> set (map fst (bl_keys l))" if "x \<in> set (map fst (bl_keys l'))" for x
      using that eff(1) [of x] map_of_eq_None_iff [of "bl_keys l'" x] map_of_eq_None_iff [of "bl_keys l" x]
      by (auto split: if_splits)
    ultimately show ?thesis by blast
  qed
  then have "card (set (map fst (bl_keys l'))) < card (set (map fst (bl_keys l)))" by (intro psubset_card_mono) simp_all
  then have "bl_key_count l' < bl_key_count l" "bl_key_count l \<le> bc_max_keys (bl_config l)"
    using assms(1) eff(2) distinct_card [of "map fst (bl_keys l')"] distinct_card [of "map fst (bl_keys l)"]
    by (auto simp: bucket_inv_def book_inv_def)
  then show ?thesis
    using bucket_reserve_decision [OF eff(2), of k e t] bucket_reserve_decision [OF assms(1) room, of k e t]
      bucket_cleanup_view [OF assms(1,2) k(3)] k room eff(3-5) by (simp add: Let_def)
qed

section \<open>A small bucket to evaluate\<close>

definition demo_bucket_config :: bucket_config where
  "demo_bucket_config = \<lparr>bc_capacity = 10, bc_refill_rate = F_Fin 2, bc_reservation_timeout_ms = 50,
     bc_max_keys = 4, bc_max_key_length = 8, bc_max_active_reservations = 4\<rparr>"

definition demo_bucket :: bucket_ledger where
  "demo_bucket = \<lparr>bl_config = demo_bucket_config, bl_keys = [], bl_reservations = [], bl_next_id = 1,
     bl_key_count = 0, bl_active_reservations = 0\<rparr>"

lemma demo_bucket_new: "bucket_ledger_new demo_bucket_config = Inr demo_bucket"
  by (simp add: bucket_ledger_new_def bucket_config_validate_def validate_capacity_and_refill_rate_def
      demo_bucket_config_def demo_bucket_def MAX_F64_SAFE_INTEGER_def
      MAX_CAPACITY_REFILL_RATE_RATIO_SECS_def f64_of_u64_def)

lemma demo_bucket_inv: "bucket_inv demo_bucket"
  by (rule bucket_ledger_new_inv [OF demo_bucket_new]) (simp_all add: demo_bucket_config_def u64_max_def)

lemmas bucket_eval = bucket_reserve_def bucket_entry_def bucket_state_new_def bucket_refill_def
  bucket_reap_def bucket_apply_reap_def f64_of_u64_def f64_sub_def f64_max_def forget_ids_def
  Let_def wrap_sub_def wrap_add_def u64_max_def

lemma demo_bucket_admits:
  "bucket_reserve demo_bucket ''k'' 7 0 =
     (Admitted \<lparr>rsv_id = 1, rsv_estimate = 7, rsv_created_at_ms = 0, rsv_usage_after = 7, rsv_remaining = 3\<rparr>,
      demo_bucket\<lparr>bl_keys := [(''k'', \<lparr>bs_tokens = F_Fin 3, bs_last_refill_ms = 0,
                      bs_active = [(1, \<lparr>ar_estimate = 7, ar_created_at_ms = 0\<rparr>)]\<rparr>)],
                  bl_reservations := [(1, ''k'')], bl_next_id := 2, bl_key_count := 1,
                  bl_active_reservations := 1\<rparr>)"
  by (simp add: demo_bucket_def demo_bucket_config_def bucket_eval)

definition demo_bucket_idle :: bucket_ledger where
  "demo_bucket_idle = demo_bucket\<lparr>bl_key_count := 1,
     bl_keys := [(''k'', \<lparr>bs_tokens = F_Fin 10, bs_last_refill_ms = 0, bs_active = []\<rparr>)]\<rparr>"

lemma demo_bucket_idle_inv: "bucket_inv demo_bucket_idle"
proof -
  have "bucket_entry demo_bucket ''k'' =
      Some (\<lparr>bs_tokens = F_Fin 10, bs_last_refill_ms = 0, bs_active = []\<rparr>, demo_bucket_idle)"
    by (simp add: demo_bucket_idle_def demo_bucket_def demo_bucket_config_def bucket_eval)
  then show ?thesis by (rule bucket_entry_inv [OF demo_bucket_inv])
qed

section \<open>Properties\<close>

text \<open>
  C26. Balances stay sound. In every ledger reached from a fresh one by any sequence of
  reservations, settlements and cleanups, at any times, as long as the caps fit 64 bits and the id
  counter does not wrap: each tracked bucket holds a finite double between zero and the capacity,
  the reverse map names exactly the reservations the buckets hold, the key counter and the
  reservation counter are the sizes they count, and both caps hold.
\<close>

theorem bucket_run_sound:
  assumes "bucket_ledger_new c = Inr l" and "bc_max_keys c \<le> u64_max"
    and "bc_max_active_reservations c \<le> u64_max" and "length ops < u64_max"
    and "l' = fold bucket_step ops l"
  shows "(\<forall>k s. map_of (bl_keys l') k = Some s \<longrightarrow>
            f64_le (F_Fin 0) (bs_tokens s) \<and> f64_le (bs_tokens s) (f64_of_u64 (bc_capacity (bl_config l')))) \<and>
    (\<forall>i k. map_of (bl_reservations l') i = Some k \<longleftrightarrow>
       (\<exists>s r. map_of (bl_keys l') k = Some s \<and> map_of (bs_active s) i = Some r)) \<and>
    bucket_ledger_key_count l' = length (bl_keys l') \<and>
    bucket_ledger_key_count l' \<le> bc_max_keys (bl_config l') \<and>
    bucket_ledger_active_count l' = (\<Sum>p\<leftarrow>bl_keys l'. length (bs_active (snd p))) \<and>
    bucket_ledger_active_count l' \<le> bc_max_active_reservations (bl_config l')"
proof -
  have "bl_next_id l = 1" using assms(1) by (auto simp: bucket_ledger_new_def res_bind_Inr_iff)
  then have inv: "bucket_inv l'"
    using bucket_fold_inv [OF bucket_ledger_new_inv [OF assms(1-3)], of ops] assms(4,5) by simp
  then obtain q where "f64_of_u64 (bc_capacity (bl_config l')) = F_Fin (of_nat (bc_capacity (bl_config l')))"
    using bucket_config_ok by (metis bucket_inv_def)
  with inv have "\<forall>k s. map_of (bl_keys l') k = Some s \<longrightarrow>
      f64_le (F_Fin 0) (bs_tokens s) \<and> f64_le (bs_tokens s) (f64_of_u64 (bc_capacity (bl_config l')))"
    by (fastforce simp: bucket_inv_def bucket_bal_def)
  moreover have "\<forall>i k. map_of (bl_reservations l') i = Some k \<longleftrightarrow>
      (\<exists>s r. map_of (bl_keys l') k = Some s \<and> map_of (bs_active s) i = Some r)"
    using bucket_inv_owner [OF inv] by blast
  ultimately show ?thesis
    using inv by (simp add: bucket_inv_def book_inv_def bucket_ledger_key_count_def bucket_ledger_active_count_def
        id_count_def bs_ids_def)
qed

theorem bucket_run_sound_witness:
  "bucket_ledger_key_count (fold bucket_step [Op_Reserve ''k'' 7 0, Op_Reconcile 1 (Some 3) 0, Op_Cleanup 9 4] demo_bucket)
     = length (bl_keys (fold bucket_step [Op_Reserve ''k'' 7 0, Op_Reconcile 1 (Some 3) 0, Op_Cleanup 9 4] demo_bucket))"
  using bucket_run_sound [OF demo_bucket_new,
      of "[Op_Reserve ''k'' 7 0, Op_Reconcile 1 (Some 3) 0, Op_Cleanup 9 4]"]
  by (simp add: demo_bucket_config_def u64_max_def)

text \<open>
  C16. A burst cannot overdraw. In a ledger in good order whose id counter does not wrap, let one key
  ask at one instant for any estimates of at most \<open>2 ^ 53\<close> tokens each, the bound the source states
  for reserved tokens, up to which the conversion to binary64 is exact. The estimates admitted together never exceed the balance the key
  is offered at that instant, and so never the capacity.
\<close>

theorem bucket_burst_cap:
  assumes "bucket_inv l" and "\<forall>e \<in> set es. e \<le> MAX_F64_SAFE_INTEGER"
    and "bl_next_id l + length es \<le> u64_max"
  shows "f64_le (F_Fin (of_nat (bucket_burst l key now es))) (bucket_view l key now) \<and>
    bucket_burst l key now es \<le> bucket_ledger_limit l"
proof -
  obtain b where b: "bucket_view l key now = F_Fin b" "0 \<le> b" "b \<le> of_nat (bc_capacity (bl_config l))"
    using bucket_view_bal [OF assms(1)] by blast
  have "of_nat (bucket_burst l key now es) \<le> b"
    using bucket_burst_balance [OF assms(1) b(1) _ assms(3) b(2)] assms(2) by (simp add: MAX_F64_SAFE_INTEGER_def)
  then have "(of_nat (bucket_burst l key now es) :: rat) \<le> of_nat (bc_capacity (bl_config l))"
    using b(3) by linarith
  with b(1) \<open>of_nat (bucket_burst l key now es) \<le> b\<close> show ?thesis by (simp add: bucket_ledger_limit_def)
qed

theorem bucket_burst_cap_witness: "bucket_burst demo_bucket ''k'' 0 [7, 7, 3] \<le> 10"
  using bucket_burst_cap [OF demo_bucket_inv, of "[7, 7, 3]" "''k''" 0]
  by (simp add: demo_bucket_def demo_bucket_config_def u64_max_def MAX_F64_SAFE_INTEGER_def
      bucket_ledger_limit_def)

text \<open>
  C33. Cleanup is invisible. Run cleanup over any number of keys of a ledger in good order. Every key
  is offered the same balance at that instant as before. A reservation that has not timed out stays
  with its key. A key that was forgotten gets, at any later time, the decision on its next
  reservation that it would have got without the cleanup, as long as the ledger had a reservation
  slot free before it (cleanup may free slots) and the next operation is that reservation.
\<close>

theorem bucket_eviction_invisible:
  assumes "bucket_inv l" and "bucket_cleanup l now n = (m, l')"
  shows "(\<forall>k. bucket_view l' k now = bucket_view l k now) \<and>
    (\<forall>k s i r. map_of (bl_keys l) k = Some s \<longrightarrow> map_of (bs_active s) i = Some r \<longrightarrow>
       now - ar_created_at_ms r < bc_reservation_timeout_ms (bl_config l) \<longrightarrow>
       map_of (bl_reservations l') i = Some k \<and>
       (\<exists>s'. map_of (bl_keys l') k = Some s' \<and> map_of (bs_active s') i = Some r)) \<and>
    (\<forall>k e t. map_of (bl_keys l) k \<noteq> None \<longrightarrow> map_of (bl_keys l') k = None \<longrightarrow> now \<le> t \<longrightarrow>
       bl_active_reservations l < bc_max_active_reservations (bl_config l) \<longrightarrow>
       fst (bucket_reserve l' k e t) = fst (bucket_reserve l k e t))"
proof (intro conjI allI impI)
  note c = bucket_cleanup_effect [OF assms]
  fix k
  show "bucket_view l' k now = bucket_view l k now"
    by (rule bucket_cleanup_view [OF assms]) simp_all
  fix s i r assume live: "map_of (bl_keys l) k = Some s" "map_of (bs_active s) i = Some r"
    "now - ar_created_at_ms r < bc_reservation_timeout_ms (bl_config l)"
  show s': "\<exists>s'. map_of (bl_keys l') k = Some s' \<and> map_of (bs_active s') i = Some r"
    using c(1) [of k] live swept_live [OF bucket_inv_ids [OF assms(1) live(1)] live(2,3)]
    by (auto split: if_splits)
  then show "map_of (bl_reservations l') i = Some k" using bucket_inv_owner [OF c(2)] by blast
next
  fix k e t assume k: "map_of (bl_keys l) k \<noteq> None" "map_of (bl_keys l') k = None" "now \<le> t"
    and room: "bl_active_reservations l < bc_max_active_reservations (bl_config l)"
  show "fst (bucket_reserve l' k e t) = fst (bucket_reserve l k e t)"
    by (rule bucket_forgotten_decision [OF assms k room])
qed

theorem bucket_eviction_invisible_witness:
  "fst (bucket_reserve (snd (bucket_cleanup demo_bucket_idle 0 4)) ''k'' 7 5) = fst (bucket_reserve demo_bucket_idle ''k'' 7 5)"
proof -
  have "bucket_cleanup demo_bucket_idle 0 4 = (0, demo_bucket)"
    by (simp add: bucket_cleanup_def bucket_cleanup_key_def demo_bucket_idle_def demo_bucket_def demo_bucket_config_def
        bucket_eval bucket_is_empty_def f64_min_def)
  from bucket_eviction_invisible [OF demo_bucket_idle_inv this]
  have "map_of (bl_keys demo_bucket_idle) ''k'' \<noteq> None \<longrightarrow> map_of (bl_keys demo_bucket) ''k'' = None \<longrightarrow> 0 \<le> (5 :: nat) \<longrightarrow>
     bl_active_reservations demo_bucket_idle < bc_max_active_reservations (bl_config demo_bucket_idle) \<longrightarrow>
     fst (bucket_reserve demo_bucket ''k'' 7 5) = fst (bucket_reserve demo_bucket_idle ''k'' 7 5)"
    by blast
  with \<open>bucket_cleanup demo_bucket_idle 0 4 = (0, demo_bucket)\<close> show ?thesis
    by (simp add: demo_bucket_idle_def demo_bucket_def demo_bucket_config_def)
qed

lemma bucket_correct_exact:
  assumes "cap \<le> 2 ^ 53" and "e \<le> 2 ^ 53" and "a \<le> 2 ^ 53" and "f64_rep b" and "of_nat e \<le> b" and "b \<le> of_nat cap"
    and "bs_tokens s = F_Fin (b - of_nat e)"
  shows "bs_tokens (bucket_correct s (e - a) (a - e) cap) = F_Fin (max 0 (b - of_nat a))"
proof -
  have cap: "b \<le> 2 ^ 53" using assms(1,6) by (metis of_nat_le_iff of_nat_numeral of_nat_power order_trans)
  consider "a < e" | "a = e" | "e < a" by linarith
  then show ?thesis
  proof cases
    case 1
    then have "f64_rep (b - of_nat a)" using f64_rep_diff [OF assms(4) _ cap, of a] assms(5) by simp
    moreover have "f64_of_u64 (e - a) = F_Fin (of_nat e - of_nat a)"
      using 1 assms(2) f64_of_u64_exact [of "e - a"] by (simp add: of_nat_diff)
    moreover have "of_nat a \<le> (of_nat e :: rat)" using 1 by simp
    ultimately show ?thesis
      using 1 assms by (simp add: bucket_correct_def f64_of_u64_exact f64_rep_def f64_min_def)
  next
    case 2
    with assms show ?thesis by (simp add: bucket_correct_def)
  next
    case 3
    have x: "f64_of_u64 (a - e) = F_Fin (of_nat a - of_nat e)"
      using 3 assms(3) f64_of_u64_exact [of "a - e"] by (simp add: of_nat_diff)
    then have "f64_sub (bs_tokens s) (f64_of_u64 (a - e)) = f64_round (b - of_nat a)"
      using assms(7) by (simp add: f64_sub_def)
    moreover have "f64_max (f64_round (b - of_nat a)) (F_Fin 0) = F_Fin (max 0 (b - of_nat a))"
    proof (cases "of_nat a \<le> b")
      case True
      then show ?thesis using f64_rep_diff [OF assms(4) True cap] by (auto simp: f64_rep_def f64_max_def)
    next
      case False
      then have "f64_le (f64_round (b - of_nat a)) (F_Fin 0)"
        using f64_round_mono [of "b - of_nat a" 0] f64_rep_0 by (simp add: f64_rep_def del: f64_rep_0)
      then show ?thesis using False by (cases "f64_round (b - of_nat a)") (auto simp: f64_max_def)
    qed
    ultimately show ?thesis using 3 by (simp add: bucket_correct_def)
  qed
qed

text \<open>
  C32. A settlement leaves exactly the actual cost charged. In a ledger in good order whose id counter
  does not wrap, a reservation that is admitted and settled at the same instant, with an estimate and
  an actual count of at most \<open>2 ^ 53\<close> tokens each, lowers the balance its key is offered by exactly
  the actual count, down to zero at least: in that range refunds and overages are exact in binary64.
\<close>

theorem bucket_settle_exact:
  assumes "bucket_inv l" and "bl_next_id l < u64_max"
    and "e \<le> MAX_F64_SAFE_INTEGER" and "a \<le> MAX_F64_SAFE_INTEGER"
    and "bucket_view l key now = F_Fin b"
    and "bucket_reserve l key e now = (Admitted r, l1)"
    and "bucket_reconcile l1 (rsv_id r) (Some a) now = (st, l2)"
  shows "st = Applied a (e - a) (a - e) \<and> bucket_view l2 key now = F_Fin (max 0 (b - of_nat a))"
  using assms(6)
proof (cases rule: bucket_reserve_cases)
  case (admitted s0 l0 s1 ex l1' s')
  note ent = bucket_entry_Some [OF admitted(1)]
  let ?c = "bl_config l" and ?i = "bl_next_id l"
  have c: "bucket_config_validate ?c = Inr ()" using assms(1) by (simp add: bucket_inv_def)
  then have cap: "bc_capacity ?c \<le> 2 ^ 53" using bucket_config_ok by blast
  have v: "bucket_view l key now = bs_tokens s1" "now \<le> bs_last_refill_ms s1"
    using admitted(2) ent bucket_reap_tokens [of "bucket_refill s0 now ?c" now ?c]
      bucket_reap_last [of "bucket_refill s0 now ?c" now ?c]
    by (auto simp: bucket_view_def Let_def bucket_refill_last)
  have "bucket_bal (bc_capacity ?c) s0"
    using bucket_entry_inv [OF assms(1) admitted(1)] ent by (auto simp: bucket_inv_def)
  from bucket_refill_bal [OF c this, of now] have bal: "bucket_bal (bc_capacity ?c) s1"
    using bucket_reap_bal admitted(2) by (metis fst_conv)
  then have b: "f64_rep b" "b \<le> of_nat (bc_capacity ?c)" "bs_tokens s1 = F_Fin b"
    using v(1) assms(5) by (auto simp: bucket_bal_def)
  have e: "of_nat e \<le> b" "f64_sub (bs_tokens s1) (f64_of_u64 e) = F_Fin (b - of_nat e)"
    using bucket_take [OF c bal admitted(4)] assms(3) b(3) by (auto simp: MAX_F64_SAFE_INTEGER_def)
  have l1: "map_of (bl_reservations l1) ?i = Some key" "map_of (bl_keys l1) key = Some s'"
    "map_of (bs_active s') ?i = Some \<lparr>ar_estimate = e, ar_created_at_ms = now\<rparr>"
    "bl_config l1 = ?c" "rsv_id r = ?i" "now \<le> bs_last_refill_ms s'" "bs_tokens s' = F_Fin (b - of_nat e)"
    using admitted(3,6-8) ent v e by (auto simp: map_of_update bucket_apply_reap_def)
  have inv1: "bucket_inv l1" using bucket_reserve_inv [OF assms(1,2,6)] .
  from inv1 assms(7) show ?thesis
  proof (cases rule: bucket_reconcile_cases)
    case (applied key' s r' a' s2)
    then have eq: "key' = key" "s = s'" "r' = \<lparr>ar_estimate = e, ar_created_at_ms = now\<rparr>" "a' = a"
      using l1 by auto
    let ?s = "s'\<lparr>bs_active := AList.delete ?i (bs_active s')\<rparr>"
    have s2: "s2 = bucket_correct ?s (e - a) (a - e) (bc_capacity ?c)"
      using applied(5) l1 by (simp add: eq bucket_refill_same)
    have "bs_tokens s2 = F_Fin (max 0 (b - of_nat a))"
      unfolding s2 using assms(3,4) b e(1) l1 cap
      by (intro bucket_correct_exact) (auto simp: MAX_F64_SAFE_INTEGER_def)
    moreover have "now \<le> bs_last_refill_ms s2" using l1 by (simp add: s2 bucket_correct_def)
    ultimately show ?thesis
      using applied(6,7) l1 by (simp add: eq bucket_view_def map_of_update bucket_refill_same)
  qed (use l1 in simp)
qed auto

theorem bucket_settle_exact_witness:
  "fst (bucket_reconcile (snd (bucket_reserve demo_bucket ''k'' 7 0)) 1 (Some 9) 0) = Applied 9 0 2 \<and>
   bucket_view (snd (bucket_reconcile (snd (bucket_reserve demo_bucket ''k'' 7 0)) 1 (Some 9) 0)) ''k'' 0 = F_Fin 1"
proof -
  define l1 where "l1 = snd (bucket_reserve demo_bucket ''k'' 7 0)"
  have res: "bucket_reserve demo_bucket ''k'' 7 0 =
     (Admitted \<lparr>rsv_id = 1, rsv_estimate = 7, rsv_created_at_ms = 0, rsv_usage_after = 7, rsv_remaining = 3\<rparr>, l1)"
    by (simp add: l1_def demo_bucket_admits)
  obtain st l2 where set: "bucket_reconcile l1 1 (Some 9) 0 = (st, l2)" by force
  have "bucket_view demo_bucket ''k'' 0 = F_Fin 10"
    by (simp add: bucket_view_def demo_bucket_def demo_bucket_config_def bucket_eval)
  from bucket_settle_exact [OF demo_bucket_inv _ _ _ this res, of 9 st l2]
  have "st = Applied 9 0 2 \<and> bucket_view l2 ''k'' 0 = F_Fin 1"
    using set by (simp add: demo_bucket_def u64_max_def MAX_F64_SAFE_INTEGER_def)
  with set show ?thesis by (simp flip: l1_def)
qed

end
