(* ===== verification/Rate_Backend.thy ===== *)
theory Rate_Backend
  imports Bucket_Ledger
begin

text \<open>
  The pluggable state backends of \<^verbatim>\<open>filters/src/token_rate_limit/backend.rs\<close>. The trait object is a
  record of operations over a backend state; its contract is the locale \<open>rate_backend\<close>, which both
  in-process backends interpret. The background reconciliation worker is proved against the
  contract only: every request it takes is settled or abandoned after at most three attempts.
\<close>

section \<open>Requests, replies and the backend interface\<close>

record reserve_request =
  rr_key :: string
  rr_estimate :: nat
  rr_now_ms :: nat

record reconcile_request =
  rc_key :: string
  rc_reservation_id :: nat
  rc_actual :: "nat option"
  rc_now_ms :: nat

datatype backend_reserve =
    BR_Admitted (br_id: nat) (br_estimate: nat) (br_usage_after: nat) (br_left: nat)
  | BR_Denied (br_retry_after: nat) (br_reason: denial_reason) (br_left: nat)

fun backend_reserve_remaining :: "backend_reserve \<Rightarrow> nat" where
  "backend_reserve_remaining (BR_Admitted _ _ _ rem) = rem"
| "backend_reserve_remaining (BR_Denied _ _ rem) = rem"

datatype backend_settlement = BS_Applied nat nat nat | BS_Noop

record backend_snapshot =
  snap_budget_remaining :: nat
  snap_active_reservations :: nat
  snap_active_keys :: nat

datatype backend_error = Unavailable string | InvalidResponse | ConfigurationMismatch

record cleanup_report =
  cr_orphaned :: nat
  cr_active_reservations :: nat
  cr_active_keys :: nat

definition MAX_REPORTED_REMAINING :: nat where
  "MAX_REPORTED_REMAINING = 2 ^ 53 - 1"

record 'b backend_ops =
  bo_reserve :: "'b \<Rightarrow> reserve_request \<Rightarrow> (backend_error + backend_reserve) \<times> 'b"
  bo_reconcile :: "'b \<Rightarrow> reconcile_request \<Rightarrow> (backend_error + backend_settlement) \<times> 'b"
  bo_enqueue_reconcile :: "'b \<Rightarrow> reconcile_request \<Rightarrow> (backend_error + unit) \<times> 'b"
  bo_limit :: "'b \<Rightarrow> nat"
  bo_snapshot :: "'b \<Rightarrow> backend_snapshot"
  bo_backend_name :: string
  bo_algorithm_name :: string
  bo_rule_name :: string
  bo_reconcile_sync :: "'b \<Rightarrow> reconcile_request \<Rightarrow> backend_settlement option \<times> 'b"
  bo_cleanup :: "'b \<Rightarrow> nat \<Rightarrow> nat \<Rightarrow> cleanup_report option \<times> 'b"

section \<open>The in-process backends\<close>

fun reply_of_decision :: "decision \<Rightarrow> backend_reserve" where
  "reply_of_decision (Admitted r) =
     BR_Admitted (rsv_id r) (rsv_estimate r) (rsv_usage_after r) (rsv_remaining r)"
| "reply_of_decision (Denied retry why rem) = BR_Denied retry why rem"

fun settlement_of :: "settlement \<Rightarrow> backend_settlement" where
  "settlement_of (Applied actual refund overage) = BS_Applied actual refund overage"
| "settlement_of Noop = BS_Noop"

record 'l memory_backend =
  mb_ledger :: 'l
  mb_last_remaining :: nat

definition memory_backend_new :: "'l \<Rightarrow> 'l memory_backend" where
  "memory_backend_new l = \<lparr>mb_ledger = l, mb_last_remaining = 0\<rparr>"

definition window_reserve :: "ledger memory_backend \<Rightarrow> reserve_request \<Rightarrow>
    (backend_error + backend_reserve) \<times> ledger memory_backend" where
  "window_reserve b q =
     (let (d, l) = ledger_reserve (mb_ledger b) (rr_key q) (rr_estimate q) (rr_now_ms q);
          reply = reply_of_decision d
      in (Inr reply, b\<lparr>mb_ledger := l, mb_last_remaining := backend_reserve_remaining reply\<rparr>))"

definition window_reconcile :: "ledger memory_backend \<Rightarrow> reconcile_request \<Rightarrow>
    (backend_error + backend_settlement) \<times> ledger memory_backend" where
  "window_reconcile b q =
     (let (st, l) = ledger_reconcile (mb_ledger b) (rc_reservation_id q) (rc_actual q) (rc_now_ms q)
      in (Inr (settlement_of st), b\<lparr>mb_ledger := l\<rparr>))"

definition window_enqueue_reconcile :: "ledger memory_backend \<Rightarrow> reconcile_request \<Rightarrow>
    (backend_error + unit) \<times> ledger memory_backend" where
  "window_enqueue_reconcile b q =
     (let (_, l) = ledger_reconcile (mb_ledger b) (rc_reservation_id q) (rc_actual q) (rc_now_ms q)
      in (Inr (), b\<lparr>mb_ledger := l\<rparr>))"

definition window_snapshot :: "ledger memory_backend \<Rightarrow> backend_snapshot" where
  "window_snapshot b =
     \<lparr>snap_budget_remaining = min (mb_last_remaining b) MAX_REPORTED_REMAINING,
      snap_active_reservations = ledger_active_count (mb_ledger b),
      snap_active_keys = ledger_key_count (mb_ledger b)\<rparr>"

definition window_reconcile_sync :: "ledger memory_backend \<Rightarrow> reconcile_request \<Rightarrow>
    backend_settlement option \<times> ledger memory_backend" where
  "window_reconcile_sync b q =
     (let (st, l) = ledger_reconcile (mb_ledger b) (rc_reservation_id q) (rc_actual q) (rc_now_ms q)
      in (Some (settlement_of st), b\<lparr>mb_ledger := l\<rparr>))"

definition window_cleanup :: "ledger memory_backend \<Rightarrow> nat \<Rightarrow> nat \<Rightarrow>
    cleanup_report option \<times> ledger memory_backend" where
  "window_cleanup b now n =
     (let (orphaned, l) = ledger_cleanup (mb_ledger b) now n
      in (Some \<lparr>cr_orphaned = orphaned, cr_active_reservations = ledger_active_count l,
                cr_active_keys = ledger_key_count l\<rparr>,
          b\<lparr>mb_ledger := l\<rparr>))"

definition window_ops :: "ledger memory_backend backend_ops" where
  "window_ops = \<lparr>bo_reserve = window_reserve, bo_reconcile = window_reconcile,
     bo_enqueue_reconcile = window_enqueue_reconcile, bo_limit = ledger_limit \<circ> mb_ledger,
     bo_snapshot = window_snapshot, bo_backend_name = ''memory'', bo_algorithm_name = ''sliding_window'',
     bo_rule_name = '''',
     bo_reconcile_sync = window_reconcile_sync, bo_cleanup = window_cleanup\<rparr>"

definition bucket_backend_reserve :: "bucket_ledger memory_backend \<Rightarrow> reserve_request \<Rightarrow>
    (backend_error + backend_reserve) \<times> bucket_ledger memory_backend" where
  "bucket_backend_reserve b q =
     (let (d, l) = bucket_reserve (mb_ledger b) (rr_key q) (rr_estimate q) (rr_now_ms q);
          reply = reply_of_decision d
      in (Inr reply, b\<lparr>mb_ledger := l, mb_last_remaining := backend_reserve_remaining reply\<rparr>))"

definition reconcile_ledger :: "bucket_ledger memory_backend \<Rightarrow> reconcile_request \<Rightarrow>
    backend_settlement \<times> bucket_ledger memory_backend" where
  "reconcile_ledger b q =
     (let (st, l) = bucket_reconcile (mb_ledger b) (rc_reservation_id q) (rc_actual q) (rc_now_ms q)
      in (settlement_of st, b\<lparr>mb_ledger := l\<rparr>))"

definition bucket_backend_reconcile :: "bucket_ledger memory_backend \<Rightarrow> reconcile_request \<Rightarrow>
    (backend_error + backend_settlement) \<times> bucket_ledger memory_backend" where
  "bucket_backend_reconcile b q = (let (st, b') = reconcile_ledger b q in (Inr st, b'))"

definition bucket_backend_enqueue_reconcile :: "bucket_ledger memory_backend \<Rightarrow> reconcile_request \<Rightarrow>
    (backend_error + unit) \<times> bucket_ledger memory_backend" where
  "bucket_backend_enqueue_reconcile b q = (let (_, b') = reconcile_ledger b q in (Inr (), b'))"

definition bucket_backend_snapshot :: "bucket_ledger memory_backend \<Rightarrow> backend_snapshot" where
  "bucket_backend_snapshot b =
     \<lparr>snap_budget_remaining = min (mb_last_remaining b) MAX_REPORTED_REMAINING,
      snap_active_reservations = bucket_ledger_active_count (mb_ledger b),
      snap_active_keys = bucket_ledger_key_count (mb_ledger b)\<rparr>"

definition bucket_backend_reconcile_sync :: "bucket_ledger memory_backend \<Rightarrow> reconcile_request \<Rightarrow>
    backend_settlement option \<times> bucket_ledger memory_backend" where
  "bucket_backend_reconcile_sync b q = (let (st, b') = reconcile_ledger b q in (Some st, b'))"

definition bucket_backend_cleanup :: "bucket_ledger memory_backend \<Rightarrow> nat \<Rightarrow> nat \<Rightarrow>
    cleanup_report option \<times> bucket_ledger memory_backend" where
  "bucket_backend_cleanup b now n =
     (let (orphaned, l) = bucket_cleanup (mb_ledger b) now n
      in (Some \<lparr>cr_orphaned = orphaned, cr_active_reservations = bucket_ledger_active_count l,
                cr_active_keys = bucket_ledger_key_count l\<rparr>,
          b\<lparr>mb_ledger := l\<rparr>))"

definition bucket_ops :: "bucket_ledger memory_backend backend_ops" where
  "bucket_ops = \<lparr>bo_reserve = bucket_backend_reserve, bo_reconcile = bucket_backend_reconcile,
     bo_enqueue_reconcile = bucket_backend_enqueue_reconcile, bo_limit = bucket_ledger_limit \<circ> mb_ledger,
     bo_snapshot = bucket_backend_snapshot, bo_backend_name = ''memory'', bo_algorithm_name = ''token_bucket'',
     bo_rule_name = '''',
     bo_reconcile_sync = bucket_backend_reconcile_sync, bo_cleanup = bucket_backend_cleanup\<rparr>"

section \<open>The reconciliation worker\<close>

text \<open>
  What the worker logs for one request: a retry with its delay in milliseconds, a completed
  settlement, or an abandoned one.
\<close>

datatype worker_event = WE_Retry nat nat | WE_Completed backend_settlement | WE_Abandoned backend_error

function reconcile_attempts :: "('b \<Rightarrow> reconcile_request \<Rightarrow> (backend_error + backend_settlement) \<times> 'b) \<Rightarrow>
    nat \<Rightarrow> reconcile_request \<Rightarrow> 'b \<Rightarrow> worker_event list \<times> 'b" where
  "reconcile_attempts reconcile attempts q b =
     (case reconcile b q of
        (Inr st, b') \<Rightarrow> ([WE_Completed st], b')
      | (Inl e, b') \<Rightarrow>
          (if attempts < 2
           then (let (evs, b'') = reconcile_attempts reconcile (attempts + 1) q b'
                 in (WE_Retry (attempts + 1) (25 * (attempts + 1)) # evs, b''))
           else ([WE_Abandoned e], b')))"
  by pat_completeness auto
termination
  by (relation "measure (\<lambda>(_, attempts, _, _). 2 - attempts)") auto

declare reconcile_attempts.simps [simp del]

fun run_reconcile_worker :: "('b \<Rightarrow> reconcile_request \<Rightarrow> (backend_error + backend_settlement) \<times> 'b) \<Rightarrow>
    reconcile_request list \<Rightarrow> 'b \<Rightarrow> worker_event list list \<times> 'b" where
  "run_reconcile_worker reconcile [] b = ([], b)"
| "run_reconcile_worker reconcile (q # qs) b =
     (let (evs, b') = reconcile_attempts reconcile 0 q b;
          (rest, b'') = run_reconcile_worker reconcile qs b'
      in (evs # rest, b''))"

text \<open>
  The queue in front of the worker. \<open>rw_open\<close> says that the receiving half is alive,
  \<open>rw_rx\<close> that it has not been taken yet.
\<close>

record reconcile_worker =
  rw_queue :: "reconcile_request list"
  rw_bound :: nat
  rw_open :: bool
  rw_rx :: bool
  rw_started :: bool
  rw_spawned :: nat

definition reconcile_worker_new :: reconcile_worker where
  "reconcile_worker_new = \<lparr>rw_queue = [], rw_bound = 1024, rw_open = True, rw_rx = True,
     rw_started = False, rw_spawned = 0\<rparr>"

definition reconcile_worker_detached :: reconcile_worker where
  "reconcile_worker_detached = \<lparr>rw_queue = [], rw_bound = 1, rw_open = False, rw_rx = False,
     rw_started = False, rw_spawned = 0\<rparr>"

definition reconcile_worker_enqueue :: "reconcile_worker \<Rightarrow> reconcile_request \<Rightarrow>
    (backend_error + unit) \<times> reconcile_worker" where
  "reconcile_worker_enqueue w q =
     (if rw_open w \<and> length (rw_queue w) < rw_bound w
      then (Inr (), w\<lparr>rw_queue := rw_queue w @ [q]\<rparr>)
      else (Inl (Unavailable ''reconciliation queue is full or stopped''), w))"

definition reconcile_worker_start :: "reconcile_worker \<Rightarrow> reconcile_worker" where
  "reconcile_worker_start w =
     (if rw_started w then w
      else if rw_rx w then w\<lparr>rw_started := True, rw_rx := False, rw_spawned := rw_spawned w + 1\<rparr>
      else w\<lparr>rw_started := True\<rparr>)"

section \<open>The contract\<close>

text \<open>The settlement of a reservation that holds an estimate, at its actual cost.\<close>

definition settle_at :: "nat option \<Rightarrow> nat option \<Rightarrow> backend_settlement" where
  "settle_at held actual =
     (case held of
        None \<Rightarrow> BS_Noop
      | Some e \<Rightarrow> (let a = (case actual of None \<Rightarrow> e | Some a \<Rightarrow> a) in BS_Applied a (e - a) (a - e)))"

text \<open>
  \<open>ok b n\<close> says that the state is sound and has room for \<open>n\<close> more reservation ids; \<open>held b i\<close> is
  the estimate reservation \<open>i\<close> still holds.
\<close>

locale rate_backend =
  fixes ops :: "'b backend_ops"
    and ok :: "'b \<Rightarrow> nat \<Rightarrow> bool"
    and held :: "'b \<Rightarrow> nat \<Rightarrow> nat option"
  assumes reserve_ok: "ok b (Suc n) \<Longrightarrow> bo_reserve ops b q = (r, b') \<Longrightarrow> ok b' n \<and> (\<exists>reply. r = Inr reply)"
    and reserve_held: "ok b (Suc n) \<Longrightarrow> bo_reserve ops b q = (Inr (BR_Admitted i e u rem), b') \<Longrightarrow>
      e = rr_estimate q \<and> held b i = None \<and> held b' i = Some e"
    and reconcile_ok: "ok b n \<Longrightarrow> bo_reconcile ops b p = (x, b') \<Longrightarrow>
      ok b' n \<and> held b' (rc_reservation_id p) = None \<and>
      (\<forall>j. held b' j = held b j \<or> held b' j = None) \<and>
      x = Inr (settle_at (held b (rc_reservation_id p)) (rc_actual p))"
    and sync_same: "bo_reconcile_sync ops b p = (Some st, b') \<longleftrightarrow> bo_reconcile ops b p = (Inr st, b')"
    and enqueue_same: "bo_enqueue_reconcile ops b p = (Inr (), snd (bo_reconcile ops b p))"
begin

lemma worker_completes:
  assumes "ok b n"
  shows "reconcile_attempts (bo_reconcile ops) k q b =
    ([WE_Completed (settle_at (held b (rc_reservation_id q)) (rc_actual q))], snd (bo_reconcile ops b q))"
proof -
  obtain r b' where "bo_reconcile ops b q = (r, b')" by force
  with reconcile_ok [OF assms this] show ?thesis by (simp add: reconcile_attempts.simps)
qed

lemma worker_run:
  assumes "ok b n"
  shows "ok (snd (run_reconcile_worker (bo_reconcile ops) qs b)) n \<and>
    length (fst (run_reconcile_worker (bo_reconcile ops) qs b)) = length qs \<and>
    (\<forall>k < length qs. \<exists>st. fst (run_reconcile_worker (bo_reconcile ops) qs b) ! k = [WE_Completed st] \<and>
       (st = BS_Noop \<or> st = settle_at (held b (rc_reservation_id (qs ! k))) (rc_actual (qs ! k))) \<and>
       ((\<exists>j < k. rc_reservation_id (qs ! j) = rc_reservation_id (qs ! k)) \<longrightarrow> st = BS_Noop))"
  using assms
proof (induction qs arbitrary: b)
  case (Cons q qs)
  obtain r b' where step: "bo_reconcile ops b q = (r, b')" by force
  note rec = reconcile_ok [OF Cons.prems step]
  let ?run = "run_reconcile_worker (bo_reconcile ops)"
  have run: "fst (?run (q # qs) b) =
      [WE_Completed (settle_at (held b (rc_reservation_id q)) (rc_actual q))] # fst (?run qs b')"
    "snd (?run (q # qs) b) = snd (?run qs b')"
    using worker_completes [OF Cons.prems, of 0 q] step by (simp_all add: Let_def split: prod.split)
  note IH = Cons.IH [OF conjunct1 [OF rec]]
  have "\<exists>st. fst (?run (q # qs) b) ! k = [WE_Completed st] \<and>
      (st = BS_Noop \<or> st = settle_at (held b (rc_reservation_id ((q # qs) ! k))) (rc_actual ((q # qs) ! k))) \<and>
      ((\<exists>j < k. rc_reservation_id ((q # qs) ! j) = rc_reservation_id ((q # qs) ! k)) \<longrightarrow> st = BS_Noop)"
    if k: "k < length (q # qs)" for k
  proof (cases k)
    case (Suc k')
    with k have k': "k' < length qs" by simp
    let ?id = "rc_reservation_id (qs ! k')"
    from IH [THEN conjunct2, THEN conjunct2, THEN spec, THEN mp, OF k'] obtain st where st: "fst (?run qs b') ! k' = [WE_Completed st]"
      "st = BS_Noop \<or> st = settle_at (held b' ?id) (rc_actual (qs ! k'))"
      "(\<exists>j < k'. rc_reservation_id (qs ! j) = ?id) \<longrightarrow> st = BS_Noop" by (elim exE conjE) (rule that)
    have gone: "st = BS_Noop" if "rc_reservation_id q = ?id"
    proof -
      have "held b' ?id = None" using rec that by simp
      with st(2) show ?thesis by (auto simp: settle_at_def)
    qed
    have "held b' ?id = held b ?id \<or> held b' ?id = None" using rec by simp
    then have "st = BS_Noop \<or> st = settle_at (held b ?id) (rc_actual (qs ! k'))"
      using st(2) by (auto simp: settle_at_def)
    moreover have "st = BS_Noop" if "j < k" "rc_reservation_id ((q # qs) ! j) = ?id" for j
    proof (cases j)
      case 0
      with that gone show ?thesis by simp
    next
      case (Suc j')
      with that \<open>k = Suc k'\<close> have "\<exists>j < k'. rc_reservation_id (qs ! j) = ?id" by auto
      with st(3) show ?thesis by simp
    qed
    ultimately show ?thesis using st(1) Suc run(1) by (intro exI [of _ st]) auto
  qed (simp add: run(1) del: run_reconcile_worker.simps)
  with run IH show ?case by (simp only: length_Cons) blast
qed simp

end

text \<open>
  A backend may release a reservation that has timed out while it reconciles another one; \<open>due b i t\<close>
  says that reservation \<open>i\<close> may be released that way at time \<open>t\<close>. What is not due stays.
\<close>

locale settling_backend = rate_backend ops ok held
  for ops :: "'b backend_ops" and ok :: "'b \<Rightarrow> nat \<Rightarrow> bool" and held :: "'b \<Rightarrow> nat \<Rightarrow> nat option" +
  fixes due :: "'b \<Rightarrow> nat \<Rightarrow> nat \<Rightarrow> bool"
  assumes reconcile_keeps: "ok b n \<Longrightarrow> bo_reconcile ops b p = (x, b') \<Longrightarrow> j \<noteq> rc_reservation_id p \<Longrightarrow>
      \<not> due b j (rc_now_ms p) \<Longrightarrow> held b' j = held b j \<and> (\<forall>t. due b' j t \<longrightarrow> due b j t)"
begin

text \<open>The first request for a reservation settles it, every later one does nothing.\<close>

lemma worker_exact:
  assumes "ok b n" and "k < length qs" and "\<forall>j < k. \<not> due b (rc_reservation_id (qs ! k)) (rc_now_ms (qs ! j))"
  shows "fst (run_reconcile_worker (bo_reconcile ops) qs b) ! k =
    [WE_Completed (if \<exists>j < k. rc_reservation_id (qs ! j) = rc_reservation_id (qs ! k) then BS_Noop
       else settle_at (held b (rc_reservation_id (qs ! k))) (rc_actual (qs ! k)))]"
  using assms
proof (induction qs arbitrary: b k)
  case (Cons q qs)
  obtain r b' where step: "bo_reconcile ops b q = (r, b')" by force
  note rec = reconcile_ok [OF Cons.prems(1) step]
  let ?run = "run_reconcile_worker (bo_reconcile ops)"
  have run: "fst (?run (q # qs) b) =
      [WE_Completed (settle_at (held b (rc_reservation_id q)) (rc_actual q))] # fst (?run qs b')"
    using worker_completes [OF Cons.prems(1), of 0 q] step by (simp add: Let_def split: prod.split)
  show ?case
  proof (cases k)
    case 0
    then show ?thesis by (simp add: run del: run_reconcile_worker.simps)
  next
    case (Suc k')
    with Cons.prems have k': "k' < length qs" by simp
    let ?id = "rc_reservation_id (qs ! k')"
    show ?thesis
    proof (cases "rc_reservation_id q = ?id")
      case True
      then have "held b' ?id = None" using rec by simp
      moreover obtain st where "fst (?run qs b') ! k' = [WE_Completed st]"
        "st = BS_Noop \<or> st = settle_at (held b' ?id) (rc_actual (qs ! k'))"
        using worker_run [of b' n qs] rec k' by blast
      ultimately have "fst (?run (q # qs) b) ! k = [WE_Completed BS_Noop]"
        by (auto simp: run Suc settle_at_def simp del: run_reconcile_worker.simps)
      moreover have "\<exists>j < k. rc_reservation_id ((q # qs) ! j) = rc_reservation_id ((q # qs) ! k)"
        using True Suc by (intro exI [of _ 0]) simp
      ultimately show ?thesis by simp
    next
      case False
      have "\<not> due b ?id (rc_now_ms q)" using Cons.prems(3) Suc by (auto dest: spec [of _ 0])
      then have keep: "held b' ?id = held b ?id" "\<forall>t. due b' ?id t \<longrightarrow> due b ?id t"
        using reconcile_keeps [OF Cons.prems(1) step, of ?id] False by auto
      have "\<forall>j < k'. \<not> due b' ?id (rc_now_ms (qs ! j))"
        using Cons.prems(3) keep(2) Suc by (auto dest: spec [of _ "Suc _"])
      note IH = Cons.IH [OF conjunct1 [OF rec] k' this, unfolded keep(1)]
      have "(\<exists>j < k. rc_reservation_id ((q # qs) ! j) = ?id) \<longleftrightarrow> (\<exists>j < k'. rc_reservation_id (qs ! j) = ?id)"
        using False Suc by (auto simp: less_Suc_eq_0_disj)
      with IH show ?thesis by (auto simp: run Suc simp del: run_reconcile_worker.simps)
    qed
  qed
qed simp

end

section \<open>Both in-process backends meet the contract\<close>

definition window_ok :: "ledger memory_backend \<Rightarrow> nat \<Rightarrow> bool" where
  "window_ok b n \<longleftrightarrow> ledger_inv (mb_ledger b) \<and> lg_next_id (mb_ledger b) + n \<le> u64_max"

definition window_held :: "ledger memory_backend \<Rightarrow> nat \<Rightarrow> nat option" where
  "window_held b i =
     Option.bind (map_of (lg_reservations (mb_ledger b)) i) (\<lambda>k.
     Option.bind (map_of (lg_keys (mb_ledger b)) k) (\<lambda>s.
     map_option ar_estimate (map_of (ks_active s) i)))"

text \<open>A reservation of the sliding-window backend that has timed out.\<close>

definition window_due :: "ledger memory_backend \<Rightarrow> nat \<Rightarrow> nat \<Rightarrow> bool" where
  "window_due b i t =
     (case Option.bind (map_of (lg_reservations (mb_ledger b)) i) (\<lambda>k.
           Option.bind (map_of (lg_keys (mb_ledger b)) k) (\<lambda>s. map_of (ks_active s) i)) of
        None \<Rightarrow> False
      | Some r \<Rightarrow> is_expired t (lg_config (mb_ledger b)) r)"

definition bucket_ok :: "bucket_ledger memory_backend \<Rightarrow> nat \<Rightarrow> bool" where
  "bucket_ok b n \<longleftrightarrow> bucket_inv (mb_ledger b) \<and> bl_next_id (mb_ledger b) + n \<le> u64_max"

definition bucket_held :: "bucket_ledger memory_backend \<Rightarrow> nat \<Rightarrow> nat option" where
  "bucket_held b i =
     Option.bind (map_of (bl_reservations (mb_ledger b)) i) (\<lambda>k.
     Option.bind (map_of (bl_keys (mb_ledger b)) k) (\<lambda>s.
     map_option ar_estimate (map_of (bs_active s) i)))"

lemma window_reserve_ok:
  assumes "window_ok b (Suc n)" and "window_reserve b q = (r, b')"
  shows "window_ok b' n \<and> (\<exists>reply. r = Inr reply)"
proof -
  obtain d l' where res: "ledger_reserve (mb_ledger b) (rr_key q) (rr_estimate q) (rr_now_ms q) = (d, l')" by force
  have "ledger_inv l'" using ledger_reserve_inv [OF _ _ res] assms(1) by (simp add: window_ok_def)
  moreover have "lg_next_id l' + n \<le> u64_max"
    using reserve_next_id [of "mb_ledger b" "rr_key q" "rr_estimate q" "rr_now_ms q"] assms(1) res
    by (simp add: window_ok_def)
  ultimately show ?thesis using assms(2) res by (auto simp: window_reserve_def window_ok_def Let_def)
qed

lemma window_reserve_held:
  assumes "window_ok b (Suc n)" and "window_reserve b q = (Inr (BR_Admitted i e u rem), b')"
  shows "e = rr_estimate q \<and> window_held b i = None \<and> window_held b' i = Some e"
proof -
  let ?l = "mb_ledger b"
  obtain d l' where res: "ledger_reserve ?l (rr_key q) (rr_estimate q) (rr_now_ms q) = (d, l')" by force
  have d: "reply_of_decision d = BR_Admitted i e u rem" and b': "mb_ledger b' = l'"
    using assms(2) res by (auto simp: window_reserve_def Let_def)
  from res show ?thesis
  proof (cases rule: ledger_reserve_cases)
    case (admitted s0 l0 s ex l1 s' mu rem')
    have i: "i = lg_next_id ?l" "e = rr_estimate q" using d admitted(8) by simp_all
    have "map_of (lg_reservations ?l) i = None"
      using assms(1) by (force simp: i window_ok_def ledger_inv_def book_inv_def map_of_eq_None_iff)
    then have "window_held b i = None" by (simp add: window_held_def)
    moreover have "window_held b' i = Some e"
      by (simp add: window_held_def b' admitted(6,7) i map_of_update)
    ultimately show ?thesis using i by simp
  next
    case refused
    with d show ?thesis by (cases d) auto
  next
    case (denied s0 l0 s ex)
    from denied(4) d show ?thesis by auto
  qed
qed

lemma window_reconcile_ok:
  assumes "window_ok b n" and "window_reconcile b p = (x, b')"
  shows "window_ok b' n \<and> window_held b' (rc_reservation_id p) = None \<and>
    (\<forall>j. window_held b' j = window_held b j \<or> window_held b' j = None) \<and>
    x = Inr (settle_at (window_held b (rc_reservation_id p)) (rc_actual p))"
proof -
  let ?l = "mb_ledger b" and ?i = "rc_reservation_id p"
  obtain st l' where res: "ledger_reconcile ?l ?i (rc_actual p) (rc_now_ms p) = (st, l')" by force
  have b': "mb_ledger b' = l'" "x = Inr (settlement_of st)"
    using assms(2) res by (auto simp: window_reconcile_def)
  have inv: "ledger_inv ?l" using assms(1) by (simp add: window_ok_def)
  have "window_ok b' n"
    using ledger_reconcile_inv [OF inv res] reconcile_next_id [of ?l ?i "rc_actual p" "rc_now_ms p"] assms(1) res
    by (simp add: window_ok_def b')
  moreover have "window_held b' ?i = None"
    using reconcile_forgets [of ?l ?i "rc_actual p" "rc_now_ms p"] res by (simp add: window_held_def b')
  moreover have "(\<forall>j. window_held b' j = window_held b j \<or> window_held b' j = None) \<and>
      settlement_of st = settle_at (window_held b ?i) (rc_actual p)"
    using inv res
  proof (cases rule: ledger_reconcile_cases)
    case noop
    then show ?thesis by (simp add: window_held_def b' settle_at_def)
  next
    case (applied key s r a l2 s1 s2 ex)
    have sub: "map_of (ks_active s2) j = Some r' \<Longrightarrow> map_of (ks_active s) j = Some r'" for j r'
      using reap_map_of [of s1 "rc_now_ms p" "lg_config ?l" j r'] applied(6)
      by (auto simp: applied(5) map_of_adelete split: if_splits)
    have "window_held b' j = window_held b j \<or> window_held b' j = None" for j
    proof (cases "map_of (lg_reservations l') j")
      case (Some k)
      then have old: "map_of (lg_reservations ?l) j = Some k"
        by (auto simp: applied(7,9) ledger_apply_reap_def map_of_forget_ids map_of_adelete split: if_splits)
      show ?thesis
      proof (cases "k = key")
        case True
        then have "map_of (lg_keys l') k = Some s2"
          by (simp add: applied(9) ledger_apply_reap_def map_of_update)
        with Some old True sub [of j] applied(2) show ?thesis
          by (cases "map_of (ks_active s2) j") (simp_all add: window_held_def b')
      next
        case False
        then have "map_of (lg_keys l') k = map_of (lg_keys ?l) k"
          by (simp add: applied(7,9) ledger_apply_reap_def map_of_update)
        with Some old show ?thesis by (simp add: window_held_def b')
      qed
    qed (simp add: window_held_def b')
    moreover have "settlement_of st = settle_at (window_held b ?i) (rc_actual p)"
      using applied(1-4) by (simp add: applied(8) window_held_def settle_at_def Let_def)
    ultimately show ?thesis by blast
  qed
  ultimately show ?thesis by (simp add: b')
qed

lemma window_sync_same:
  "window_reconcile_sync b p = (Some st, b') \<longleftrightarrow> window_reconcile b p = (Inr st, b')"
  "window_enqueue_reconcile b p = (Inr (), snd (window_reconcile b p))"
  by (auto simp: window_reconcile_sync_def window_reconcile_def window_enqueue_reconcile_def split: prod.splits)

interpretation window_backend: rate_backend window_ops window_ok window_held
proof (unfold_locales, goal_cases)
  case (1 b n q r b')
  then show ?case using window_reserve_ok by (auto simp: window_ops_def)
next
  case (2 b n q i e u rem b')
  then show ?case using window_reserve_held by (auto simp: window_ops_def)
next
  case (3 b n p x b')
  then show ?case using window_reconcile_ok by (simp add: window_ops_def)
qed (simp_all add: window_ops_def window_sync_same)

lemma kept_reservation:
  assumes "distinct (map fst xs)" and "map_of xs j = Some r" and "P (j, r)"
  shows "map_of (filter P xs) j = Some r"
  using assms distinct_filter_fst [OF assms(1), of P] by (simp add: map_of_eq_Some_iff)

text \<open>Reconciling one reservation leaves every other one that has not timed out as it was.\<close>

lemma reconcile_keeps_others:
  assumes inv: "ledger_inv l" and res: "ledger_reconcile l i actual now = (st, l')" and "j \<noteq> i"
    and j: "map_of (lg_reservations l) j = Some k" "map_of (lg_keys l) k = Some sk" "map_of (ks_active sk) j = Some r"
    and live: "\<not> is_expired now (lg_config l) r"
  shows "map_of (lg_reservations l') j = Some k \<and> (\<exists>s'. map_of (lg_keys l') k = Some s' \<and> map_of (ks_active s') j = Some r)"
  using inv res
proof (cases rule: ledger_reconcile_cases)
  case noop
  with j show ?thesis by simp
next
  case (applied key s q a l2 s1 s2 ex)
  have d: "distinct (ks_ids s)" using ledger_inv_ids [OF inv applied(2)] .
  have d1: "distinct (ks_ids s1)" using d by (simp add: applied(5) ks_ids_def AList.distinct_delete)
  have act: "ks_active s2 = filter (\<lambda>p. \<not> is_expired now (lg_config l) (snd p)) (ks_active s1)"
    using reap_active_distinct [OF d1, of now "lg_config l"] applied(6) by simp
  have ex: "x \<in> set ex \<Longrightarrow> \<exists>r. map_of (ks_active s1) x = Some r \<and> is_expired now (lg_config l) r" for x
    using reap_expired [of s1 now "lg_config l"] applied(6) d1 by (force simp: ks_ids_def map_of_eq_Some_iff)
  have own: "map_of (lg_reservations l) x = Some key" if "map_of (ks_active s) x = Some r'" for x r'
  proof -
    have "x \<in> set (ks_ids s)" using map_of_SomeD [OF that] by (force simp: ks_ids_def)
    then have "owns ks_ids (lg_keys l) key x" using applied(2) by (auto simp: owns_def)
    with inv show ?thesis by (simp add: ledger_inv_def book_inv_def)
  qed
  have new: "map_of (ks_active s1) j = map_of (ks_active s) j" using assms(3) by (simp add: applied(5) map_of_adelete)
  have "j \<notin> set ex"
  proof
    assume "j \<in> set ex"
    from ex [OF this] new obtain r' where r': "map_of (ks_active s) j = Some r'" "is_expired now (lg_config l) r'" by auto
    have "k = key" using own [OF r'(1)] j(1) by simp
    with j r' applied(2) live show False by simp
  qed
  then have keep: "map_of (lg_reservations l') j = Some k"
    using j(1) assms(3) by (simp add: applied(7,9) ledger_apply_reap_def map_of_forget_ids map_of_adelete)
  show ?thesis
  proof (cases "k = key")
    case True
    with j applied(2) new have "map_of (ks_active s1) j = Some r" by simp
    with live d1 have "map_of (ks_active s2) j = Some r" unfolding act by (intro kept_reservation) (simp_all add: ks_ids_def)
    with True keep show ?thesis by (simp add: applied(9) ledger_apply_reap_def map_of_update)
  next
    case False
    with keep j show ?thesis by (simp add: applied(7,9) ledger_apply_reap_def map_of_update)
  qed
qed

lemma reconcile_config: "ledger_reconcile l i actual now = (st, l') \<Longrightarrow> lg_config l' = lg_config l"
  by (auto simp: ledger_reconcile_def ledger_apply_reap_def Let_def split: option.splits prod.splits)

lemma window_reconcile_keeps:
  assumes "window_ok b n" and "window_reconcile b p = (x, b')" and "j \<noteq> rc_reservation_id p"
    and "\<not> window_due b j (rc_now_ms p)"
  shows "window_held b' j = window_held b j \<and> (\<forall>t. window_due b' j t \<longrightarrow> window_due b j t)"
proof -
  let ?l = "mb_ledger b"
  obtain st l' where res: "ledger_reconcile ?l (rc_reservation_id p) (rc_actual p) (rc_now_ms p) = (st, l')" by force
  have b': "mb_ledger b' = l'" using assms(2) res by (auto simp: window_reconcile_def)
  have inv: "ledger_inv ?l" using assms(1) by (simp add: window_ok_def)
  show ?thesis
  proof (cases "map_of (lg_reservations ?l) j")
    case None
    with reconcile_forgotten [of ?l j "rc_reservation_id p" "rc_actual p" "rc_now_ms p"] res show ?thesis
      by (simp add: window_held_def window_due_def b')
  next
    case (Some k)
    then obtain s where s: "map_of (lg_keys ?l) k = Some s" "j \<in> set (ks_ids s)"
      using inv book_inv_owner by (metis ledger_inv_def)
    then obtain r where r: "map_of (ks_active s) j = Some r"
      by (metis ks_ids_def map_of_eq_None_iff not_None_eq set_map)
    have "\<not> is_expired (rc_now_ms p) (lg_config ?l) r" using assms(4) Some s r by (simp add: window_due_def)
    from reconcile_keeps_others [OF inv res assms(3) Some s(1) r this] Some s r reconcile_config [OF res] show ?thesis
      by (auto simp: window_held_def window_due_def b')
  qed
qed

interpretation window_worker: settling_backend window_ops window_ok window_held window_due
  by unfold_locales (use window_reconcile_keeps in \<open>auto simp: window_ops_def\<close>)

lemma bucket_reserve_ok:
  assumes "bucket_ok b (Suc n)" and "bucket_backend_reserve b q = (r, b')"
  shows "bucket_ok b' n \<and> (\<exists>reply. r = Inr reply)"
proof -
  obtain d l' where res: "bucket_reserve (mb_ledger b) (rr_key q) (rr_estimate q) (rr_now_ms q) = (d, l')" by force
  have "bucket_inv l'" using bucket_reserve_inv [OF _ _ res] assms(1) by (simp add: bucket_ok_def)
  moreover have "bl_next_id l' + n \<le> u64_max"
    using bucket_reserve_next_id [of "mb_ledger b" "rr_key q" "rr_estimate q" "rr_now_ms q"] assms(1) res
    by (simp add: bucket_ok_def)
  ultimately show ?thesis using assms(2) res by (auto simp: bucket_backend_reserve_def bucket_ok_def Let_def)
qed

lemma bucket_reserve_held:
  assumes "bucket_ok b (Suc n)" and "bucket_backend_reserve b q = (Inr (BR_Admitted i e u rem), b')"
  shows "e = rr_estimate q \<and> bucket_held b i = None \<and> bucket_held b' i = Some e"
proof -
  let ?l = "mb_ledger b"
  obtain d l' where res: "bucket_reserve ?l (rr_key q) (rr_estimate q) (rr_now_ms q) = (d, l')" by force
  have d: "reply_of_decision d = BR_Admitted i e u rem" and b': "mb_ledger b' = l'"
    using assms(2) res by (auto simp: bucket_backend_reserve_def Let_def)
  from res show ?thesis
  proof (cases rule: bucket_reserve_cases)
    case (admitted s0 l0 s ex l1 s')
    have i: "i = bl_next_id ?l" "e = rr_estimate q" using d admitted(8) by simp_all
    have "map_of (bl_reservations ?l) i = None"
      using assms(1) by (force simp: i bucket_ok_def bucket_inv_def book_inv_def map_of_eq_None_iff)
    then have "bucket_held b i = None" by (simp add: bucket_held_def)
    moreover have "bucket_held b' i = Some e"
      by (simp add: bucket_held_def b' admitted(6,7) i map_of_update)
    ultimately show ?thesis using i by simp
  next
    case refused
    with d show ?thesis by (cases d) auto
  next
    case (denied s0 l0 s ex)
    from denied(4) d show ?thesis by auto
  qed
qed

lemma bucket_reconcile_ok:
  assumes "bucket_ok b n" and "bucket_backend_reconcile b p = (x, b')"
  shows "bucket_ok b' n \<and> bucket_held b' (rc_reservation_id p) = None \<and>
    (\<forall>j. bucket_held b' j = bucket_held b j \<or> bucket_held b' j = None) \<and>
    x = Inr (settle_at (bucket_held b (rc_reservation_id p)) (rc_actual p))"
proof -
  let ?l = "mb_ledger b" and ?i = "rc_reservation_id p"
  obtain st l' where res: "bucket_reconcile ?l ?i (rc_actual p) (rc_now_ms p) = (st, l')" by force
  have b': "mb_ledger b' = l'" "x = Inr (settlement_of st)"
    using assms(2) res by (auto simp: bucket_backend_reconcile_def reconcile_ledger_def)
  have inv: "bucket_inv ?l" using assms(1) by (simp add: bucket_ok_def)
  note inv' = bucket_reconcile_inv [OF inv res]
  from inv res show ?thesis
  proof (cases rule: bucket_reconcile_cases)
    case noop
    with assms(1) show ?thesis by (simp add: bucket_held_def bucket_ok_def b' settle_at_def)
  next
    case (applied key s r a s1)
    have "bucket_held b' j = bucket_held b j \<or> bucket_held b' j = None" for j
      using applied(2) by (cases "j = ?i"; cases "map_of (bl_reservations ?l) j")
        (auto simp: bucket_held_def b' applied(5,7) map_of_adelete map_of_update)
    moreover have "bucket_held b' ?i = None"
      by (simp add: bucket_held_def b' applied(7) map_of_adelete)
    moreover have "settlement_of st = settle_at (bucket_held b ?i) (rc_actual p)"
      using applied(1-4) by (simp add: applied(6) bucket_held_def settle_at_def Let_def)
    moreover have "bucket_ok b' n" using inv' assms(1) by (simp add: bucket_ok_def b' applied(7))
    ultimately show ?thesis by (simp add: b')
  qed
qed

interpretation bucket_backend: rate_backend bucket_ops bucket_ok bucket_held
proof (unfold_locales, goal_cases)
  case (1 b n q r b')
  then show ?case using bucket_reserve_ok by (auto simp: bucket_ops_def)
next
  case (2 b n q i e u rem b')
  then show ?case using bucket_reserve_held by (auto simp: bucket_ops_def)
next
  case (3 b n p x b')
  then show ?case using bucket_reconcile_ok by (simp add: bucket_ops_def)
next
  case (4 b p st b')
  then show ?case by (auto simp: bucket_ops_def bucket_backend_reconcile_sync_def bucket_backend_reconcile_def split: prod.splits)
next
  case (5 b p)
  then show ?case
    by (auto simp: bucket_ops_def bucket_backend_enqueue_reconcile_def bucket_backend_reconcile_def split: prod.splits)
qed

text \<open>The token-bucket backend never releases a reservation while it reconciles another one.\<close>

lemma bucket_reconcile_keeps:
  assumes "bucket_ok b n" and "bucket_backend_reconcile b p = (x, b')" and "j \<noteq> rc_reservation_id p"
  shows "bucket_held b' j = bucket_held b j"
proof -
  let ?l = "mb_ledger b"
  obtain st l' where res: "bucket_reconcile ?l (rc_reservation_id p) (rc_actual p) (rc_now_ms p) = (st, l')" by force
  have b': "mb_ledger b' = l'" using assms(2) res by (auto simp: bucket_backend_reconcile_def reconcile_ledger_def)
  have "bucket_inv ?l" using assms(1) by (simp add: bucket_ok_def)
  from this res show ?thesis
  proof (cases rule: bucket_reconcile_cases)
    case (applied key s r a s1)
    with assms(3) show ?thesis
      by (cases "map_of (bl_reservations ?l) j") (auto simp: bucket_held_def b' applied(5,7) map_of_adelete map_of_update)
  qed (simp add: bucket_held_def b')
qed

interpretation bucket_worker: settling_backend bucket_ops bucket_ok bucket_held "\<lambda>b i t. False"
  by unfold_locales (use bucket_reconcile_keeps in \<open>auto simp: bucket_ops_def\<close>)

section \<open>Properties\<close>

text \<open>
  C30. Both in-process backends keep the contract of the backend trait: a reservation succeeds with
  a reply, an admitted id is fresh and holds exactly the requested estimate, reconciling releases
  it and reports the settlement of that estimate, never revives another reservation, and the
  synchronous and the enqueued path do the same as the awaited one.
\<close>

theorem backends_meet_contract:
  "rate_backend window_ops window_ok window_held \<and> rate_backend bucket_ops bucket_ok bucket_held"
  by (intro conjI window_backend.rate_backend_axioms bucket_backend.rate_backend_axioms)

text \<open>
  The worker gives up after three attempts. For any backend, the worker handles every queued
  request in order, and what it does for one request is at most two retries, delayed 25 and 50
  milliseconds, followed by exactly one completion or abandonment.
\<close>

theorem worker_attempts_bounded:
  "length (fst (run_reconcile_worker reconcile qs b)) = length qs \<and>
   list_all (\<lambda>evs. (\<exists>st. evs \<in> {[WE_Completed st], [WE_Retry 1 25, WE_Completed st],
                                [WE_Retry 1 25, WE_Retry 2 50, WE_Completed st]}) \<or>
                   (\<exists>e. evs = [WE_Retry 1 25, WE_Retry 2 50, WE_Abandoned e]))
     (fst (run_reconcile_worker reconcile qs b))"
proof (induction qs arbitrary: b)
  case (Cons q qs)
  obtain evs b' where a: "reconcile_attempts reconcile 0 q b = (evs, b')" by force
  have "(\<exists>st. evs \<in> {[WE_Completed st], [WE_Retry 1 25, WE_Completed st],
                    [WE_Retry 1 25, WE_Retry 2 50, WE_Completed st]}) \<or>
        (\<exists>e. evs = [WE_Retry 1 25, WE_Retry 2 50, WE_Abandoned e])"
    using a by (subst (asm) reconcile_attempts.simps, subst (asm) reconcile_attempts.simps,
        subst (asm) reconcile_attempts.simps) (auto simp: Let_def split: prod.splits sum.splits)
  with Cons [of b'] a show ?case by (simp add: Let_def case_prod_beta)
qed simp

text \<open>
  C36. Background reconciliation settles each reservation exactly once. Run over the sliding-window
  backend in good order, the worker completes every request of its queue on the first attempt. The
  first request for an id settles the estimate the id held when the worker started, at the actual
  count, or is a no-op if it held none; every later request for the id is a no-op. The id must not
  have timed out at the times of the requests in front, since reconciling also reaps its key.
\<close>

theorem window_worker_settles_once:
  assumes "window_ok b n" and "k < length qs"
    and "\<forall>j < k. \<not> window_due b (rc_reservation_id (qs ! k)) (rc_now_ms (qs ! j))"
  shows "fst (run_reconcile_worker (bo_reconcile window_ops) qs b) ! k =
    [WE_Completed (if \<exists>j < k. rc_reservation_id (qs ! j) = rc_reservation_id (qs ! k) then BS_Noop
       else settle_at (window_held b (rc_reservation_id (qs ! k))) (rc_actual (qs ! k)))]"
  by (rule window_worker.worker_exact [OF assms])

definition demo_backend :: "ledger memory_backend" where
  "demo_backend = \<lparr>mb_ledger = demo_reserved, mb_last_remaining = 4\<rparr>"

definition demo_requests :: "reconcile_request list" where
  "demo_requests = [\<lparr>rc_key = ''k'', rc_reservation_id = 1, rc_actual = Some 4, rc_now_ms = 9\<rparr>,
     \<lparr>rc_key = ''k'', rc_reservation_id = 1, rc_actual = None, rc_now_ms = 10\<rparr>]"

theorem window_worker_settles_once_witness:
  "fst (run_reconcile_worker (bo_reconcile window_ops) demo_requests demo_backend) ! 0 = [WE_Completed (BS_Applied 4 2 0)] \<and>
   fst (run_reconcile_worker (bo_reconcile window_ops) demo_requests demo_backend) ! 1 = [WE_Completed BS_Noop]"
proof -
  have "lg_next_id demo_reserved \<le> u64_max" by code_simp
  then have ok: "window_ok demo_backend 0"
    using demo_reserved_inv by (simp add: window_ok_def demo_backend_def)
  have "window_held demo_backend 1 = Some 6" "\<not> window_due demo_backend 1 9" by code_simp+
  with window_worker_settles_once [OF ok, of 0 demo_requests] window_worker_settles_once [OF ok, of 1 demo_requests]
  show ?thesis by (simp add: demo_requests_def settle_at_def)
qed

end
