(* ===== verification/Weights.thy ===== *)
theory Weights
  imports F64
begin

text \<open>
  The token-type-aware cost of \<^verbatim>\<open>filters/src/token_rate_limit/weights.rs\<close>: the weights of a rule, the
  typed usage counts read from request metadata, and the cost a reservation settles at. Shown:
  the cost never exceeds \<open>2 ^ 53\<close>, whole weights price every token once, unit weights charge exactly
  the larger of the reported total and the typed parts, overlays keep every weight finite and non-negative, and how nested
  reasoning is told from additive reasoning.
\<close>

section \<open>Data\<close>

definition COST_U64_CAP :: nat where
  "COST_U64_CAP = 9007199254740992"

definition COST_F64_CAP :: f64 where
  "COST_F64_CAP = F_Fin 9007199254740992"

record token_type_weights_config =
  twc_input :: "f64 option"
  twc_output :: "f64 option"
  twc_cached_input :: "f64 option"
  twc_cache_write :: "f64 option"
  twc_reasoning :: "f64 option"

record token_weights =
  tw_input :: f64
  tw_output :: f64
  tw_cached_input :: f64
  tw_cache_write :: f64
  tw_reasoning :: f64

definition UNITY :: token_weights where
  "UNITY = \<lparr>tw_input = F_Fin 1, tw_output = F_Fin 1, tw_cached_input = F_Fin 1,
            tw_cache_write = F_Fin 1, tw_reasoning = F_Fin 1\<rparr>"

datatype weight_field = W_Input | W_Output | W_Cached_Input | W_Cache_Write | W_Reasoning

record usage_counts =
  uc_input :: "nat option"
  uc_output :: "nat option"
  uc_total :: "nat option"
  uc_cache_read :: "nat option"
  uc_cache_write :: "nat option"
  uc_reasoning :: "nat option"
  uc_overflow :: bool

section \<open>Operations\<close>

text \<open>The error names the offending field.\<close>

definition checked_weight :: "f64 \<Rightarrow> weight_field \<Rightarrow> weight_field + f64" where
  "checked_weight v field = (if f64_is_finite v \<and> f64_le (F_Fin 0) v then Inr v else Inl field)"

definition overlay_field :: "f64 option \<Rightarrow> f64 \<Rightarrow> weight_field \<Rightarrow> weight_field + f64" where
  "overlay_field v old field = (case v of None \<Rightarrow> Inr old | Some x \<Rightarrow> checked_weight x field)"

definition weights_overlay :: "token_weights \<Rightarrow> token_type_weights_config \<Rightarrow> weight_field + token_weights" where
  "weights_overlay w c =
     res_bind (overlay_field (twc_input c) (tw_input w) W_Input) (\<lambda>i.
     res_bind (overlay_field (twc_output c) (tw_output w) W_Output) (\<lambda>out.
     res_bind (overlay_field (twc_cached_input c) (tw_cached_input w) W_Cached_Input) (\<lambda>ci.
     res_bind (overlay_field (twc_cache_write c) (tw_cache_write w) W_Cache_Write) (\<lambda>cw.
     res_bind (overlay_field (twc_reasoning c) (tw_reasoning w) W_Reasoning) (\<lambda>r.
       Inr \<lparr>tw_input = i, tw_output = out, tw_cached_input = ci, tw_cache_write = cw, tw_reasoning = r\<rparr>)))))"

text \<open>\<^verbatim>\<open>str::parse::<u64>\<close>: an optional plus sign, at least one decimal digit, no overflow.\<close>

definition digit_val :: "char \<Rightarrow> nat option" where
  "digit_val ch = (if 48 \<le> (of_char ch :: nat) \<and> (of_char ch :: nat) \<le> 57 then Some (of_char ch - 48) else None)"

fun parse_digits :: "nat \<Rightarrow> string \<Rightarrow> nat option" where
  "parse_digits acc [] = Some acc"
| "parse_digits acc (ch # cs) =
     (case digit_val ch of
        None \<Rightarrow> None
      | Some d \<Rightarrow> (if acc * 10 + d \<le> u64_max then parse_digits (acc * 10 + d) cs else None))"

definition parse_u64 :: "string \<Rightarrow> nat option" where
  "parse_u64 s =
     (let ds = (case s of [] \<Rightarrow> [] | ch # cs \<Rightarrow> if ch = CHR ''+'' then cs else s)
      in if ds = [] then None else parse_digits 0 ds)"

type_synonym metadata = "(string \<times> string) list"

definition parse_u64_meta :: "metadata \<Rightarrow> string \<Rightarrow> nat option" where
  "parse_u64_meta ctx key = Option.bind (map_of ctx key) parse_u64"

definition usage_from_context :: "metadata \<Rightarrow> usage_counts" where
  "usage_from_context ctx =
     \<lparr>uc_input = parse_u64_meta ctx ''token.input'',
      uc_output = parse_u64_meta ctx ''token.output'',
      uc_total = parse_u64_meta ctx ''token.total'',
      uc_cache_read = parse_u64_meta ctx ''token.cache_read'',
      uc_cache_write = parse_u64_meta ctx ''token.cache_write'',
      uc_reasoning = parse_u64_meta ctx ''token.reasoning'',
      uc_overflow = (map_of ctx ''token.status'' = Some ''overflow'')\<rparr>"

definition unwrap_or :: "'a option \<Rightarrow> 'a \<Rightarrow> 'a" where
  "unwrap_or v d = (case v of None \<Rightarrow> d | Some x \<Rightarrow> x)"

definition abs_diff :: "nat \<Rightarrow> nat \<Rightarrow> nat" where
  "abs_diff a b = (a - b) + (b - a)"

definition reasoning_is_nested :: "nat \<Rightarrow> nat \<Rightarrow> nat option \<Rightarrow> nat \<Rightarrow> bool" where
  "reasoning_is_nested input output tot reasoning =
     (if reasoning = 0 then True
      else case tot of
        None \<Rightarrow> True
      | Some t \<Rightarrow>
          (let nested_sum = sat_add input output;
               additive_sum = sat_add nested_sum reasoning
           in abs_diff t nested_sum \<le> abs_diff t additive_sum))"

definition to_cost_f64 :: "nat \<Rightarrow> f64" where
  "to_cost_f64 tokens = f64_of_u64 (min tokens COST_U64_CAP)"

definition ceil_cost :: "f64 \<Rightarrow> nat" where
  "ceil_cost cost =
     (if f64_is_nan cost \<or> f64_le cost (F_Fin 0) then 0
      else if f64_is_infinite cost then COST_U64_CAP
      else f64_to_u64 (f64_ceil (f64_min cost COST_F64_CAP)))"

text \<open>
  The typed partition of \<^verbatim>\<open>partitioned_cost\<close>: uncached input, cache reads, cache writes, visible
  output, reasoning and the part of the total none of them covers.
\<close>

definition partition_counts :: "nat \<Rightarrow> nat \<Rightarrow> usage_counts \<Rightarrow> nat \<times> nat \<times> nat \<times> nat \<times> nat \<times> nat" where
  "partition_counts input output u =
     (let cache_read = min (unwrap_or (uc_cache_read u) 0) input;
          after_read = input - cache_read;
          cache_write = min (unwrap_or (uc_cache_write u) 0) after_read;
          uncached = after_read - cache_write;
          reasoning = unwrap_or (uc_reasoning u) 0;
          nested = reasoning_is_nested input output (uc_total u) reasoning;
          (visible_output, reasoning_tokens) =
            (if nested then (output - min reasoning output, min reasoning output) else (output, reasoning));
          accounted0 = sat_add input output;
          accounted = (if nested then accounted0 else sat_add accounted0 reasoning);
          uncovered = (case uc_total u of None \<Rightarrow> 0 | Some t \<Rightarrow> t - accounted)
      in (uncached, cache_read, cache_write, visible_output, reasoning_tokens, uncovered))"

definition partitioned_cost :: "nat \<Rightarrow> nat \<Rightarrow> usage_counts \<Rightarrow> token_weights \<Rightarrow> nat" where
  "partitioned_cost input output u w =
     (let (uncached, cache_read, cache_write, visible_output, reasoning_tokens, uncovered) =
            partition_counts input output u;
          term1 = f64_mul (to_cost_f64 uncached) (tw_input w);
          term2 = f64_mul (to_cost_f64 cache_read) (tw_cached_input w);
          term3 = f64_mul (to_cost_f64 cache_write) (tw_cache_write w);
          term4 = f64_mul (to_cost_f64 visible_output) (tw_output w);
          term5 = f64_mul (to_cost_f64 reasoning_tokens) (tw_reasoning w);
          term6 = f64_mul (to_cost_f64 uncovered) (tw_input w)
      in ceil_cost (f64_add (f64_add (f64_add (f64_add (f64_add term1 term2) term3) term4) term5) term6))"

definition weighted_cost :: "usage_counts \<Rightarrow> token_weights \<Rightarrow> nat option" where
  "weighted_cost u w =
     (if uc_overflow u then None
      else case (uc_input u, uc_output u) of
        (Some input, Some output) \<Rightarrow> Some (partitioned_cost input output u w)
      | _ \<Rightarrow> uc_total u)"

section \<open>Lemmas\<close>

lemma f64_of_small: "n \<le> COST_U64_CAP \<Longrightarrow> f64_of_u64 n = F_Fin (of_nat n)"
  by (simp add: f64_of_u64_exact COST_U64_CAP_def)

lemma ceil_cost_le: "ceil_cost x \<le> COST_U64_CAP"
  by (cases x) (auto simp: ceil_cost_def f64_min_def COST_F64_CAP_def COST_U64_CAP_def nat_le_iff ceiling_le_iff
      intro: min.coboundedI2)

lemma partitioned_cost_le: "partitioned_cost input output u w \<le> COST_U64_CAP"
  unfolding partitioned_cost_def Let_def by (simp add: ceil_cost_le split: prod.split)

lemma ceil_cost_nat: "n \<le> COST_U64_CAP \<Longrightarrow> ceil_cost (F_Fin (of_nat n)) = n"
  by (auto simp: ceil_cost_def f64_min_def COST_F64_CAP_def COST_U64_CAP_def u64_max_def)

lemma add_exact:
  "a + b \<le> COST_U64_CAP \<Longrightarrow> f64_add (F_Fin (of_nat a)) (F_Fin (of_nat b)) = F_Fin (of_nat (a + b))"
  using f64_of_small [of "a + b"] by (simp add: f64_of_u64_def)

lemma whole_mul:
  assumes "w * n \<le> COST_U64_CAP"
  shows "f64_mul (to_cost_f64 n) (F_Fin (of_nat w)) = F_Fin (of_nat (w * n))"
proof (cases "w = 0")
  case True
  then show ?thesis using f64_of_small [of "min n COST_U64_CAP"] by (simp add: to_cost_f64_def)
next
  case False
  then have "n \<le> w * n" by simp
  with assms have "n \<le> COST_U64_CAP" by linarith
  then have "to_cost_f64 n = F_Fin (of_nat n)" by (simp add: to_cost_f64_def f64_of_small)
  with f64_of_small [OF assms] show ?thesis by (simp add: f64_of_u64_def mult.commute)
qed

lemma partition_total:
  assumes "partition_counts input output u = (a, b, c, d, e, f)"
    and "input + output + unwrap_or (uc_reasoning u) 0 \<le> u64_max"
  shows "a + b + c + d + e + f =
    (let parts = (if reasoning_is_nested input output (uc_total u) (unwrap_or (uc_reasoning u) 0)
                  then input + output else input + output + unwrap_or (uc_reasoning u) 0)
     in max parts (unwrap_or (uc_total u) 0))"
proof -
  let ?r = "unwrap_or (uc_reasoning u) 0"
  let ?n = "reasoning_is_nested input output (uc_total u) ?r"
  let ?parts = "if ?n then input + output else input + output + ?r"
  let ?x = "partition_counts input output u"
  have "fst ?x + fst (snd ?x) + fst (snd (snd ?x)) = input"
    by (simp add: partition_counts_def Let_def)
  moreover have "fst (snd (snd (snd ?x))) + fst (snd (snd (snd (snd ?x)))) = (if ?n then output else output + ?r)"
    by (simp add: partition_counts_def Let_def)
  moreover have "snd (snd (snd (snd (snd ?x)))) = unwrap_or (uc_total u) 0 - ?parts"
  proof -
    have acc: "sat_add input output = input + output" "sat_add (input + output) ?r = input + output + ?r"
      using assms(2) by (simp_all add: sat_add_def)
    have "snd (snd (snd (snd (snd ?x)))) = (case uc_total u of None \<Rightarrow> 0 | Some t \<Rightarrow> t - ?parts)"
      by (cases "uc_total u") (simp_all add: partition_counts_def Let_def acc)
    then show ?thesis by (simp add: unwrap_or_def split: option.split)
  qed
  ultimately show ?thesis by (cases ?n) (simp_all add: assms(1) Let_def)
qed

text \<open>The weights of a rule that are whole numbers.\<close>

definition whole_weights :: "nat \<Rightarrow> nat \<Rightarrow> nat \<Rightarrow> nat \<Rightarrow> nat \<Rightarrow> token_weights" where
  "whole_weights wi wo wc ww wr =
     \<lparr>tw_input = F_Fin (of_nat wi), tw_output = F_Fin (of_nat wo), tw_cached_input = F_Fin (of_nat wc),
      tw_cache_write = F_Fin (of_nat ww), tw_reasoning = F_Fin (of_nat wr)\<rparr>"

lemma whole_cost:
  assumes "partition_counts input output u = (a, b, c, d, e, f)"
    and "wi * a + wc * b + ww * c + wo * d + wr * e + wi * f \<le> COST_U64_CAP"
  shows "partitioned_cost input output u (whole_weights wi wo wc ww wr) = wi * a + wc * b + ww * c + wo * d + wr * e + wi * f"
proof -
  have "f64_add (f64_add (f64_add (f64_add (f64_add (F_Fin (of_nat (wi * a))) (F_Fin (of_nat (wc * b)))) (F_Fin (of_nat (ww * c))))
     (F_Fin (of_nat (wo * d)))) (F_Fin (of_nat (wr * e)))) (F_Fin (of_nat (wi * f))) =
     F_Fin (of_nat (wi * a + wc * b + ww * c + wo * d + wr * e + wi * f))"
    using assms(2) by (simp only: add_exact)
  moreover have "wi * a \<le> COST_U64_CAP" "wc * b \<le> COST_U64_CAP" "ww * c \<le> COST_U64_CAP" "wo * d \<le> COST_U64_CAP"
    "wr * e \<le> COST_U64_CAP" "wi * f \<le> COST_U64_CAP" using assms(2) by linarith+
  ultimately show ?thesis
    using ceil_cost_nat [OF assms(2)] by (simp only: partitioned_cost_def assms(1) whole_weights_def Let_def split_conv
        token_weights.select_convs whole_mul)
qed

lemma unity_cost:
  assumes "a + b + c + d + e + f \<le> COST_U64_CAP" and "partition_counts input output u = (a, b, c, d, e, f)"
  shows "partitioned_cost input output u UNITY = a + b + c + d + e + f"
proof -
  have "UNITY = whole_weights 1 1 1 1 1" by (simp add: UNITY_def whole_weights_def)
  with whole_cost [OF assms(2), of 1 1 1 1 1] assms(1) show ?thesis by simp
qed

text \<open>The partition of a consistent report, for each of the two ways to report reasoning.\<close>

lemma partition_consistent:
  assumes "cr = unwrap_or (uc_cache_read u) 0" and "cw = unwrap_or (uc_cache_write u) 0" and "cr + cw \<le> input"
    and "r = unwrap_or (uc_reasoning u) 0" and "input + output + r \<le> u64_max"
    and "if nested then r \<le> output \<and> uc_total u \<in> {None, Some (input + output)} else 0 < r \<and> uc_total u = Some (input + output + r)"
  shows "partition_counts input output u =
    (input - cr - cw, cr, cw, if nested then output - r else output, r, 0)"
proof -
  have s: "sat_add input output = input + output" "sat_add (input + output) r = input + output + r"
    using assms(5) by (simp_all add: sat_add_def)
  have n: "reasoning_is_nested input output (uc_total u) r = nested"
    using assms(6) by (auto simp: reasoning_is_nested_def s abs_diff_def Let_def split: if_splits)
  have m: "min cr input = cr" "min cw (input - cr) = cw" using assms(3) by simp_all
  show ?thesis
    using assms(6) n unfolding partition_counts_def assms(1,2,4) [symmetric]
    by (auto simp: Let_def m s split: if_splits)
qed

lemma checked_weight_ok: "checked_weight v fl = Inr x \<longleftrightarrow> x = v \<and> (\<exists>q \<ge> 0. v = F_Fin q)"
  by (cases v) (auto simp: checked_weight_def)

lemma overlay_field_ok:
  assumes "overlay_field v old fl = Inr x"
  shows "x = unwrap_or v old" and "(\<exists>q \<ge> 0. old = F_Fin q) \<Longrightarrow> \<exists>q \<ge> 0. x = F_Fin q"
  using assms by (cases v; auto simp: overlay_field_def checked_weight_ok unwrap_or_def)+

definition weights_ok :: "token_weights \<Rightarrow> bool" where
  "weights_ok w \<longleftrightarrow> (\<forall>x \<in> {tw_input w, tw_output w, tw_cached_input w, tw_cache_write w, tw_reasoning w}.
     \<exists>q \<ge> 0. x = F_Fin q)"

section \<open>Properties\<close>

text \<open>
  C34. Unit weights charge the provider's figure. When every weight is one and the counts stay
  below \<open>2 ^ 53\<close>, the settled cost is exactly the larger of the reported total and the sum of the
  typed parents, with reasoning added only when it is not already inside the output: no rounding,
  no double counting of cache or reasoning tokens, and nothing of the total left uncharged.
\<close>

theorem unity_weights_charge_total:
  assumes "uc_overflow u = False" and "uc_input u = Some input" and "uc_output u = Some output"
    and "input + output + unwrap_or (uc_reasoning u) 0 \<le> COST_U64_CAP"
    and "unwrap_or (uc_total u) 0 \<le> COST_U64_CAP"
  shows "weighted_cost u UNITY =
    Some (let parts = (if reasoning_is_nested input output (uc_total u) (unwrap_or (uc_reasoning u) 0)
                       then input + output else input + output + unwrap_or (uc_reasoning u) 0)
          in max parts (unwrap_or (uc_total u) 0))"
proof -
  obtain a b c d e f where p: "partition_counts input output u = (a, b, c, d, e, f)" by (metis prod.exhaust)
  have "input + output + unwrap_or (uc_reasoning u) 0 \<le> u64_max"
    using assms(4) by (simp add: COST_U64_CAP_def u64_max_def)
  note tot = partition_total [OF p this]
  have "a + b + c + d + e + f \<le> COST_U64_CAP" using assms(4,5) by (simp add: tot Let_def)
  from unity_cost [OF this p] tot assms(1-3) show ?thesis by (simp add: weighted_cost_def)
qed

theorem unity_weights_charge_total_witness:
  "weighted_cost \<lparr>uc_input = Some 100, uc_output = Some 40, uc_total = Some 150, uc_cache_read = Some 30,
     uc_cache_write = None, uc_reasoning = Some 10, uc_overflow = False\<rparr> UNITY = Some 150"
  using unity_weights_charge_total [of "\<lparr>uc_input = Some 100, uc_output = Some 40, uc_total = Some 150,
     uc_cache_read = Some 30, uc_cache_write = None, uc_reasoning = Some 10, uc_overflow = False\<rparr>" 100 40]
  by (simp add: COST_U64_CAP_def unwrap_or_def reasoning_is_nested_def sat_add_def u64_max_def abs_diff_def)

text \<open>
  C35. Every token is priced once, at the weight of its type. Take whole-number weights and a
  consistent report: both parents present, cache reads and writes within the input, and reasoning
  either inside the output, with no total or the total of both parents, or beside it, with the total
  of all three. If the price is at most \<open>2 ^ 53\<close>, the settled cost is exactly the sum over the
  uncached input, the cache reads, the cache writes, the visible output and the reasoning tokens,
  each times its own weight: nothing is rounded, charged twice or left out.
\<close>

theorem whole_weights_price_each_token:
  assumes "\<not> uc_overflow u" and "uc_input u = Some input" and "uc_output u = Some output"
    and "cr = unwrap_or (uc_cache_read u) 0" and "cw = unwrap_or (uc_cache_write u) 0" and "cr + cw \<le> input"
    and "r = unwrap_or (uc_reasoning u) 0" and "input + output + r \<le> u64_max"
    and "if nested then r \<le> output \<and> uc_total u \<in> {None, Some (input + output)} else 0 < r \<and> uc_total u = Some (input + output + r)"
    and "visible = (if nested then output - r else output)"
    and "wi * (input - cr - cw) + wc * cr + ww * cw + wo * visible + wr * r \<le> COST_U64_CAP"
  shows "weighted_cost u (whole_weights wi wo wc ww wr) =
    Some (wi * (input - cr - cw) + wc * cr + ww * cw + wo * visible + wr * r)"
proof -
  have p: "partition_counts input output u = (input - cr - cw, cr, cw, visible, r, 0)"
    using partition_consistent [OF assms(4-9)] assms(10) by simp
  have "partitioned_cost input output u (whole_weights wi wo wc ww wr) = wi * (input - cr - cw) + wc * cr + ww * cw + wo * visible + wr * r"
    using whole_cost [OF p, of wi wc ww wo wr] assms(11) by simp
  with assms(1-3) show ?thesis by (simp add: weighted_cost_def)
qed

theorem whole_weights_price_each_token_witness:
  "weighted_cost \<lparr>uc_input = Some 100, uc_output = Some 40, uc_total = Some 150, uc_cache_read = Some 30,
     uc_cache_write = Some 20, uc_reasoning = Some 10, uc_overflow = False\<rparr> (whole_weights 2 5 0 3 7) = Some 430"
  using whole_weights_price_each_token [of "\<lparr>uc_input = Some 100, uc_output = Some 40, uc_total = Some 150,
     uc_cache_read = Some 30, uc_cache_write = Some 20, uc_reasoning = Some 10, uc_overflow = False\<rparr>" 100 40 30 20 10 False 40 2 0 3 5 7]
  by (simp add: COST_U64_CAP_def unwrap_or_def u64_max_def)

text \<open>
  How reasoning tokens are read. With counts that do not saturate, reasoning counts as part of
  the output when the total is the sum of input and output, and as an addition when the total is
  the sum of all three; without a total or without reasoning it is taken to be nested.
\<close>

theorem reasoning_nested_or_additive:
  assumes "input + output + reasoning \<le> u64_max" and "0 < reasoning"
  shows "reasoning_is_nested input output (Some (input + output)) reasoning \<and>
    \<not> reasoning_is_nested input output (Some (input + output + reasoning)) reasoning \<and>
    reasoning_is_nested input output None reasoning \<and>
    reasoning_is_nested input output t 0"
  using assms by (simp add: reasoning_is_nested_def sat_add_def abs_diff_def)

theorem reasoning_nested_or_additive_witness:
  "reasoning_is_nested 10 5 (Some 15) 3 \<and> \<not> reasoning_is_nested 10 5 (Some 18) 3"
  using reasoning_nested_or_additive [of 10 5 3] by (simp add: u64_max_def)

text \<open>
  Overlays keep weights usable. Overlaying a configuration on valid weights either fails with
  the first field that is negative or not finite, or gives weights that are all finite and
  non-negative and that keep every field the configuration leaves out.
\<close>

theorem weights_overlay_ok:
  assumes "weights_ok w" and "weights_overlay w c = Inr w'"
  shows "weights_ok w' \<and>
    tw_input w' = unwrap_or (twc_input c) (tw_input w) \<and>
    tw_output w' = unwrap_or (twc_output c) (tw_output w) \<and>
    tw_cached_input w' = unwrap_or (twc_cached_input c) (tw_cached_input w) \<and>
    tw_cache_write w' = unwrap_or (twc_cache_write c) (tw_cache_write w) \<and>
    tw_reasoning w' = unwrap_or (twc_reasoning c) (tw_reasoning w)"
proof -
  obtain i out ci cw r where f:
    "overlay_field (twc_input c) (tw_input w) W_Input = Inr i"
    "overlay_field (twc_output c) (tw_output w) W_Output = Inr out"
    "overlay_field (twc_cached_input c) (tw_cached_input w) W_Cached_Input = Inr ci"
    "overlay_field (twc_cache_write c) (tw_cache_write w) W_Cache_Write = Inr cw"
    "overlay_field (twc_reasoning c) (tw_reasoning w) W_Reasoning = Inr r"
    "w' = \<lparr>tw_input = i, tw_output = out, tw_cached_input = ci, tw_cache_write = cw, tw_reasoning = r\<rparr>"
    using assms(2) by (auto simp: weights_overlay_def res_bind_Inr_iff)
  note keep = f(1-5) [THEN overlay_field_ok(2)]
  have "weights_ok w'" using assms(1) keep by (simp add: weights_ok_def f(6))
  with f(1-5) [THEN overlay_field_ok(1)] f(6) show ?thesis by simp
qed

theorem weights_overlay_ok_witness:
  "weights_ok (UNITY\<lparr>tw_cached_input := F_Fin (1 / 10)\<rparr>)"
  using weights_overlay_ok [of UNITY "\<lparr>twc_input = None, twc_output = None, twc_cached_input = Some (F_Fin (1 / 10)),
      twc_cache_write = None, twc_reasoning = None\<rparr>" "UNITY\<lparr>tw_cached_input := F_Fin (1 / 10)\<rparr>"]
  by (simp add: weights_ok_def UNITY_def weights_overlay_def overlay_field_def checked_weight_def)

end
