(* ===== verification/Utf8.thy ===== *)
theory Utf8
  imports Prelude
begin

text \<open>
  Bytes and UTF-8 as the Rust standard library decodes it: one step of the \<^verbatim>\<open>Utf8Chunks\<close> iterator
  (\<^verbatim>\<open>core::str::lossy\<close>), \<^verbatim>\<open>str::from_utf8\<close> as validity, and \<^verbatim>\<open>String::from_utf8_lossy\<close>, which replaces
  every maximal ill-formed prefix by U+FFFD. A Rust \<^verbatim>\<open>String\<close> read from the wire is its byte list.
\<close>

type_synonym byte = "8 word"
type_synonym bytes = "byte list"

abbreviation LF :: byte where "LF \<equiv> 0x0A"
abbreviation CR :: byte where "CR \<equiv> 0x0D"
abbreviation COLON :: byte where "COLON \<equiv> 0x3A"
abbreviation SPACE :: byte where "SPACE \<equiv> 0x20"

text \<open>The bytes of an ASCII literal.\<close>

definition ascii :: "string \<Rightarrow> bytes" where
  "ascii s = map of_char s"

definition utf8_char_width :: "byte \<Rightarrow> nat" where
  "utf8_char_width b =
     (if b < 0x80 then 1
      else if 0xC2 \<le> b \<and> b \<le> 0xDF then 2
      else if 0xE0 \<le> b \<and> b \<le> 0xEF then 3
      else if 0xF0 \<le> b \<and> b \<le> 0xF4 then 4
      else 0)"

definition is_cont :: "byte \<Rightarrow> bool" where
  "is_cont b \<longleftrightarrow> 0x80 \<le> b \<and> b \<le> 0xBF"

definition second_ok3 :: "byte \<Rightarrow> byte \<Rightarrow> bool" where
  "second_ok3 b c \<longleftrightarrow>
     (b = 0xE0 \<and> 0xA0 \<le> c \<and> c \<le> 0xBF) \<or> (0xE1 \<le> b \<and> b \<le> 0xEC \<and> is_cont c) \<or>
     (b = 0xED \<and> 0x80 \<le> c \<and> c \<le> 0x9F) \<or> (0xEE \<le> b \<and> b \<le> 0xEF \<and> is_cont c)"

definition second_ok4 :: "byte \<Rightarrow> byte \<Rightarrow> bool" where
  "second_ok4 b c \<longleftrightarrow>
     (b = 0xF0 \<and> 0x90 \<le> c \<and> c \<le> 0xBF) \<or> (0xF1 \<le> b \<and> b \<le> 0xF3 \<and> is_cont c) \<or>
     (b = 0xF4 \<and> 0x80 \<le> c \<and> c \<le> 0x8F)"

text \<open>A missing byte reads as zero, which is no continuation byte (\<^verbatim>\<open>safe_get\<close>).\<close>

definition safe_get :: "bytes \<Rightarrow> nat \<Rightarrow> byte" where
  "safe_get bs i = (if i < length bs then bs ! i else 0)"

text \<open>
  Scan one character at the head of a non-empty list: \<open>(n, True)\<close> is a well-formed character of
  \<open>n\<close> bytes, \<open>(n, False)\<close> an ill-formed prefix of \<open>n\<close> bytes.
\<close>

definition utf8_scan :: "byte \<Rightarrow> bytes \<Rightarrow> nat \<times> bool" where
  "utf8_scan b rest =
     (if utf8_char_width b = 1 then (1, True)
      else if utf8_char_width b = 2 then
        (if is_cont (safe_get rest 0) then (2, True) else (1, False))
      else if utf8_char_width b = 3 then
        (if \<not> second_ok3 b (safe_get rest 0) then (1, False)
         else if \<not> is_cont (safe_get rest 1) then (2, False)
         else (3, True))
      else if utf8_char_width b = 4 then
        (if \<not> second_ok4 b (safe_get rest 0) then (1, False)
         else if \<not> is_cont (safe_get rest 1) then (2, False)
         else if \<not> is_cont (safe_get rest 2) then (3, False)
         else (4, True))
      else (1, False))"

lemma utf8_scan_pos: "0 < fst (utf8_scan b rest)"
  by (simp add: utf8_scan_def)

function utf8_valid :: "bytes \<Rightarrow> bool" where
  "utf8_valid [] = True"
| "utf8_valid (b # rest) =
     (case utf8_scan b rest of (n, ok) \<Rightarrow> ok \<and> utf8_valid (drop (n - 1) rest))"
  by pat_completeness auto
termination
  by (relation "measure length") auto

definition from_utf8 :: "bytes \<Rightarrow> bytes option" where
  "from_utf8 bs = (if utf8_valid bs then Some bs else None)"

function from_utf8_lossy :: "bytes \<Rightarrow> bytes" where
  "from_utf8_lossy [] = []"
| "from_utf8_lossy (b # rest) =
     (case utf8_scan b rest of (n, ok) \<Rightarrow>
        (if ok then take n (b # rest) else [0xEF, 0xBF, 0xBD]) @ from_utf8_lossy (drop (n - 1) rest))"
  by pat_completeness auto
termination
  by (relation "measure length") auto

lemma from_utf8_lossy_valid: "utf8_valid bs \<Longrightarrow> from_utf8_lossy bs = bs"
proof (induction bs rule: utf8_valid.induct)
  case (2 b rest)
  obtain n ok where scan: "utf8_scan b rest = (n, ok)" by force
  with "2.prems" have ok: "ok" "utf8_valid (drop (n - 1) rest)" by simp_all
  have "0 < n" using utf8_scan_pos [of b rest] scan by simp
  then have "take n (b # rest) = b # take (n - 1) rest" by (cases n) simp_all
  with "2.IH" [OF scan [symmetric]] ok scan show ?case by simp
qed simp

end
