(* ===== verification/Sse_Frame.thy ===== *)
theory Sse_Frame
  imports Utf8
begin

text \<open>
  The byte-level server-sent-event frame parser of \<^verbatim>\<open>apis/src/openai/sse/frame.rs\<close>. The parser keeps
  a partial line, the fields of the open frame, the state of the optional byte order mark and
  whether the last chunk ended in a carriage return; feeding a chunk returns the frames it
  completes, or an error, and the parser state reached. Shown here: the byte counter is exact in
  every state and two chunks in a row parse as their concatenation; the properties of a whole
  stream are in \<^verbatim>\<open>Sse_Lines\<close>.
\<close>

section \<open>Data\<close>

definition UTF8_BOM :: bytes where
  "UTF8_BOM = [0xEF, 0xBB, 0xBF]"

datatype stream_start = CheckingBom nat | Past

record sse_frame =
  sf_event_type :: "bytes option"
  sf_data :: bytes

record sse_parser =
  sp_stream_start :: stream_start
  sp_line_buf :: bytes
  sp_event_type :: "bytes option"
  sp_data_buf :: bytes
  sp_has_data :: bool
  sp_prev_cr :: bool
  sp_scratch_bytes :: nat
  sp_max_buffer_bytes :: nat

text \<open>
  The errors of the frame and the event layer; the frame layer raises \<open>BufferOverflow\<close> and
  \<open>EventLimitExceeded\<close>, each with the observed value and the limit. Durations are nanoseconds.
\<close>

datatype sse_parse_error =
    BufferOverflow nat nat
  | MalformedJson string string
  | MissingEventType string string
  | InvalidEventType
  | EventTypeMismatch string string
  | EventLimitExceeded nat nat
  | Timeout nat nat
  | MissingTerminalEvent
  | EventAfterTerminal string
  | AccumulationLimitExceeded string nat nat
  | ClientToolRestore string string
  | StreamPoisoned

section \<open>Operations\<close>

definition sse_parser_new :: "nat \<Rightarrow> sse_parser" where
  "sse_parser_new limit =
     \<lparr>sp_stream_start = CheckingBom 0, sp_line_buf = [], sp_event_type = None, sp_data_buf = [],
      sp_has_data = False, sp_prev_cr = False, sp_scratch_bytes = 0, sp_max_buffer_bytes = limit\<rparr>"

definition bom_prefix_len :: "sse_parser \<Rightarrow> nat" where
  "bom_prefix_len p = (case sp_stream_start p of CheckingBom m \<Rightarrow> m | Past \<Rightarrow> 0)"

definition buffered_bytes :: "sse_parser \<Rightarrow> nat" where
  "buffered_bytes p =
     sat_add (sat_add (sat_add (bom_prefix_len p) (length (sp_line_buf p))) (length (sp_data_buf p)))
       (case sp_event_type p of None \<Rightarrow> 0 | Some e \<Rightarrow> length e)"

definition has_incomplete_frame :: "sse_parser \<Rightarrow> bool" where
  "has_incomplete_frame p \<longleftrightarrow>
     bom_prefix_len p \<noteq> 0 \<or> sp_line_buf p \<noteq> [] \<or> sp_has_data p \<or> sp_event_type p \<noteq> None"

definition check_buffer_limit :: "sse_parser \<Rightarrow> sse_parse_error option" where
  "check_buffer_limit p =
     (if sp_max_buffer_bytes p < sp_scratch_bytes p
      then Some (BufferOverflow (sp_scratch_bytes p) (sp_max_buffer_bytes p)) else None)"

definition check_event_limit :: "(nat \<times> nat) option \<Rightarrow> nat \<Rightarrow> sse_parse_error option" where
  "check_event_limit el parsed =
     (case el of
        None \<Rightarrow> None
      | Some (current, max_events) \<Rightarrow>
          (let count = sat_add (sat_add current parsed) 1
           in if max_events < count then Some (EventLimitExceeded count max_events) else None))"

definition process_line :: "sse_parser \<Rightarrow> sse_frame option \<times> sse_parser" where
  "process_line p =
     (if sp_line_buf p = [] then
        (if sp_has_data p
         then (Some \<lparr>sf_event_type = sp_event_type p, sf_data = sp_data_buf p\<rparr>,
               p\<lparr>sp_has_data := False, sp_data_buf := [], sp_event_type := None\<rparr>)
         else (None, p\<lparr>sp_event_type := None\<rparr>))
      else if hd (sp_line_buf p) = COLON then (None, p)
      else if COLON \<notin> set (sp_line_buf p) then (None, p)
      else
        (let field = takeWhile (\<lambda>b. b \<noteq> COLON) (sp_line_buf p);
             after = tl (dropWhile (\<lambda>b. b \<noteq> COLON) (sp_line_buf p));
             v = (case after of [] \<Rightarrow> [] | b # rest \<Rightarrow> if b = SPACE then rest else after)
         in if field = ascii ''data'' then
              (None, p\<lparr>sp_has_data := True,
                       sp_data_buf := sp_data_buf p @ (if sp_has_data p then [LF] else []) @ v\<rparr>)
            else if field = ascii ''event'' then
              (None, p\<lparr>sp_event_type := Some (from_utf8_lossy v)\<rparr>)
            else (None, p)))"

text \<open>
  The byte order mark: \<open>Inl\<close> a state in which the byte was consumed as part of the mark,
  \<open>Inr\<close> a state in which it is still to be handled.
\<close>

definition bom_step :: "sse_parser \<Rightarrow> byte \<Rightarrow> sse_parser + sse_parser" where
  "bom_step p b =
     (case sp_stream_start p of
        Past \<Rightarrow> Inr p
      | CheckingBom m \<Rightarrow>
          (if m < length UTF8_BOM \<and> UTF8_BOM ! m = b
           then (let p1 = p\<lparr>sp_stream_start := if m + 1 = length UTF8_BOM then Past else CheckingBom (m + 1)\<rparr>
                 in Inl (p1\<lparr>sp_scratch_bytes := buffered_bytes p1\<rparr>))
           else (let p1 = p\<lparr>sp_stream_start := Past, sp_line_buf := sp_line_buf p @ take m UTF8_BOM\<rparr>
                 in Inr (p1\<lparr>sp_scratch_bytes := buffered_bytes p1\<rparr>))))"

text \<open>
  The byte loop. Its state is the frames emitted and the events counted so far in this chunk and
  the parser. \<open>sse_byte\<close> is one turn for a byte, told whether it is the last of the chunk; after a
  carriage return the loop skips a line feed, or the parser carries that to the next chunk.
\<close>

type_synonym sse_acc = "sse_frame list \<times> nat \<times> sse_parser"
type_synonym sse_result = "(sse_parse_error + sse_frame list) \<times> sse_parser"

definition check_buffer :: "sse_acc \<Rightarrow> (sse_parse_error \<times> sse_parser) + sse_acc" where
  "check_buffer acc =
     (case acc of (frames, counted, p) \<Rightarrow>
       (case check_buffer_limit p of Some e \<Rightarrow> Inl (e, p) | None \<Rightarrow> Inr acc))"

definition end_line :: "(nat \<times> nat) option \<Rightarrow> (sse_frame \<Rightarrow> bool) \<Rightarrow> sse_acc \<Rightarrow>
    (sse_parse_error \<times> sse_parser) + sse_acc" where
  "end_line el cf acc =
     (case acc of (frames, counted, p) \<Rightarrow>
       (let (frame, p1) = process_line p;
            p2 = p1\<lparr>sp_line_buf := []\<rparr>;
            p3 = p2\<lparr>sp_scratch_bytes := buffered_bytes p2\<rparr>
        in case frame of
             None \<Rightarrow> Inr (frames, counted, p3)
           | Some f \<Rightarrow>
               (if cf f then
                  (case check_event_limit el counted of
                     Some e \<Rightarrow> Inl (e, p1)
                   | None \<Rightarrow> Inr (frames @ [f], sat_add counted 1, p3))
                else Inr (frames @ [f], counted, p3))))"

definition sse_byte :: "(nat \<times> nat) option \<Rightarrow> (sse_frame \<Rightarrow> bool) \<Rightarrow> bool \<Rightarrow> byte \<Rightarrow> sse_acc \<Rightarrow>
    (sse_parse_error \<times> sse_parser) + sse_acc" where
  "sse_byte el cf is_last b acc =
     (case acc of (frames, counted, p) \<Rightarrow>
       (case bom_step p b of
          Inl p1 \<Rightarrow> check_buffer (frames, counted, p1)
        | Inr p1 \<Rightarrow>
            (if b = LF \<or> b = CR then
               res_bind (end_line el cf (frames, counted, p1)) (\<lambda>(frames', counted', p2).
                 check_buffer (frames', counted', if b = CR \<and> is_last then p2\<lparr>sp_prev_cr := True\<rparr> else p2))
             else
               check_buffer (frames, counted,
                 p1\<lparr>sp_line_buf := sp_line_buf p1 @ [b],
                    sp_scratch_bytes := sat_add (sp_scratch_bytes p1) 1\<rparr>))))"

fun sse_loop :: "(nat \<times> nat) option \<Rightarrow> (sse_frame \<Rightarrow> bool) \<Rightarrow> sse_acc \<Rightarrow> bytes \<Rightarrow>
    (sse_parse_error \<times> sse_parser) + sse_acc" where
  "sse_loop el cf acc [] = Inr acc"
| "sse_loop el cf acc (b # rest) =
     res_bind (sse_byte el cf (rest = []) b acc) (\<lambda>acc'.
       case rest of
         [] \<Rightarrow> sse_loop el cf acc' []
       | x # rest' \<Rightarrow>
           (if b = CR \<and> x = LF then sse_loop el cf acc' rest' else sse_loop el cf acc' rest))"

definition parse_chunk_inner :: "sse_parser \<Rightarrow> bytes \<Rightarrow> (nat \<times> nat) option \<Rightarrow> (sse_frame \<Rightarrow> bool) \<Rightarrow> sse_result" where
  "parse_chunk_inner p chunk el cf =
     (if chunk = [] then (Inr [], p\<lparr>sp_scratch_bytes := buffered_bytes p\<rparr>)
      else case sse_loop el cf ([], 0, p\<lparr>sp_prev_cr := False\<rparr>)
                  (if sp_prev_cr p \<and> hd chunk = LF then tl chunk else chunk) of
             Inl (e, p') \<Rightarrow> (Inl e, p')
           | Inr (frames, _, p') \<Rightarrow> (Inr frames, p'\<lparr>sp_scratch_bytes := buffered_bytes p'\<rparr>))"

definition parse_chunk :: "sse_parser \<Rightarrow> bytes \<Rightarrow> sse_result" where
  "parse_chunk p chunk = parse_chunk_inner p chunk None (\<lambda>_. True)"

definition parse_chunk_with_counted_event_limit ::
  "sse_parser \<Rightarrow> bytes \<Rightarrow> nat \<Rightarrow> nat \<Rightarrow> (sse_frame \<Rightarrow> bool) \<Rightarrow> sse_result" where
  "parse_chunk_with_counted_event_limit p chunk current max_events cf =
     parse_chunk_inner p chunk (Some (current, max_events)) cf"

definition parse_chunk_with_event_limit :: "sse_parser \<Rightarrow> bytes \<Rightarrow> nat \<Rightarrow> nat \<Rightarrow> sse_result" where
  "parse_chunk_with_event_limit p chunk current max_events =
     parse_chunk_with_counted_event_limit p chunk current max_events (\<lambda>_. True)"

section \<open>The parser invariant\<close>

text \<open>The byte counter is exact and a pending byte order mark comes before any line byte.\<close>

definition sp_ok :: "sse_parser \<Rightarrow> bool" where
  "sp_ok p \<longleftrightarrow> sp_scratch_bytes p = buffered_bytes p \<and>
     (case sp_stream_start p of
        CheckingBom m \<Rightarrow> m < 3 \<and> sp_line_buf p = [] \<and> sp_data_buf p = [] \<and> \<not> sp_has_data p \<and>
          sp_event_type p = None
      | Past \<Rightarrow> True)"

lemma buffered_bytes_eq:
  "buffered_bytes p = min u64_max (bom_prefix_len p + length (sp_line_buf p) + length (sp_data_buf p) +
     (case sp_event_type p of None \<Rightarrow> 0 | Some e \<Rightarrow> length e))"
  by (auto simp: buffered_bytes_def sat_add_def min_def split: option.splits)

lemma buffered_bytes_irrelevant [simp]:
  "buffered_bytes (p\<lparr>sp_scratch_bytes := n\<rparr>) = buffered_bytes p"
  "buffered_bytes (p\<lparr>sp_prev_cr := c\<rparr>) = buffered_bytes p"
  by (simp_all add: buffered_bytes_def bom_prefix_len_def)

lemma sp_ok_new: "sp_ok (sse_parser_new limit)"
  by (simp add: sp_ok_def sse_parser_new_def buffered_bytes_def bom_prefix_len_def)

lemma sp_ok_prev_cr [simp]: "sp_ok (p\<lparr>sp_prev_cr := c\<rparr>) = sp_ok p"
  by (simp add: sp_ok_def split: stream_start.split)

lemma prev_cr_same: "\<not> sp_prev_cr p \<Longrightarrow> p\<lparr>sp_prev_cr := False\<rparr> = p"
  by (cases p) simp

lemma sp_ok_scratch: "sp_ok p \<Longrightarrow> p\<lparr>sp_scratch_bytes := buffered_bytes p\<rparr> = p"
  by (simp add: sp_ok_def)

lemma bom_step_ok:
  assumes "sp_ok p"
  shows "case bom_step p b of
      Inl p1 \<Rightarrow> sp_ok p1 \<and> b \<noteq> CR \<and> b \<noteq> LF \<and> sp_prev_cr p1 = sp_prev_cr p
    | Inr p1 \<Rightarrow> sp_ok p1 \<and> sp_stream_start p1 = Past \<and> sp_prev_cr p1 = sp_prev_cr p"
proof (cases "sp_stream_start p")
  case (CheckingBom m)
  with assms have "m = 0 \<or> m = 1 \<or> m = 2" by (auto simp: sp_ok_def)
  with CheckingBom assms show ?thesis
    by (auto simp: bom_step_def UTF8_BOM_def sp_ok_def Let_def)
qed (use assms in \<open>simp add: bom_step_def\<close>)

lemma process_line_ok:
  "sp_stream_start (snd (process_line p)) = sp_stream_start p"
  "sp_prev_cr (snd (process_line p)) = sp_prev_cr p"
  "sp_max_buffer_bytes (snd (process_line p)) = sp_max_buffer_bytes p"
  by (simp_all add: process_line_def Let_def)

lemma end_line_ok:
  assumes "end_line el cf (fr, n, p) = Inr (fr', n', p')" and "sp_stream_start p = Past"
  shows "sp_ok p' \<and> sp_prev_cr p' = sp_prev_cr p \<and> sp_stream_start p' = Past"
  using assms process_line_ok [of p]
  by (auto simp: end_line_def sp_ok_def Let_def split: option.splits if_splits prod.splits)

lemma check_buffer_Inr: "check_buffer acc = Inr acc' \<longleftrightarrow> acc' = acc \<and> check_buffer_limit (snd (snd acc)) = None"
  by (auto simp: check_buffer_def split: prod.splits option.splits)

lemma check_buffer_limit_prev_cr [simp]:
  "check_buffer_limit (p\<lparr>sp_prev_cr := c\<rparr>) = check_buffer_limit p"
  by (simp add: check_buffer_limit_def)

lemma push_ok:
  assumes "sp_ok p" and "sp_stream_start p = Past"
  shows "sp_ok (p\<lparr>sp_line_buf := sp_line_buf p @ [b], sp_scratch_bytes := sat_add (sp_scratch_bytes p) 1\<rparr>)"
  using assms by (auto simp: sp_ok_def buffered_bytes_eq bom_prefix_len_def sat_add_def min_def)

text \<open>One turn keeps the invariant, and being last in a chunk only marks a carriage return.\<close>

lemma sse_byte_ok:
  assumes ok: "sp_ok p" and b: "sse_byte el cf l b (fr, n, p) = Inr (fr', n', p')"
  shows "sp_ok p' \<and> sp_prev_cr p' = (b = CR \<and> l \<or> sp_prev_cr p) \<and> check_buffer_limit p' = None"
proof (cases "bom_step p b")
  case (Inl p1)
  with bom_step_ok [OF ok, of b] b show ?thesis
    by (auto simp: sse_byte_def check_buffer_Inr)
next
  case (Inr p1)
  have p1: "sp_ok p1" "sp_stream_start p1 = Past" "sp_prev_cr p1 = sp_prev_cr p"
    using bom_step_ok [OF ok, of b] Inr by auto
  show ?thesis
  proof (cases "b = LF \<or> b = CR")
    case True
    with b Inr obtain p2 where "end_line el cf (fr, n, p1) = Inr (fr', n', p2)"
      "p' = (if b = CR \<and> l then p2\<lparr>sp_prev_cr := True\<rparr> else p2)" "check_buffer_limit p' = None"
      by (auto simp: sse_byte_def res_bind_Inr_iff check_buffer_Inr)
    with end_line_ok [OF this(1) p1(2)] p1 show ?thesis by auto
  next
    case False
    with b Inr p1 push_ok [OF p1(1,2), of b] show ?thesis by (auto simp: sse_byte_def check_buffer_Inr)
  qed
qed

lemma sse_byte_last:
  "sse_byte el cf True b acc =
     (case sse_byte el cf False b acc of
        Inl (e, p) \<Rightarrow> Inl (e, snd (projl (sse_byte el cf True b acc)))
      | Inr (fr, n, p) \<Rightarrow> Inr (fr, n, if b = CR then p\<lparr>sp_prev_cr := True\<rparr> else p))"
proof (cases "b = CR")
  case False
  then have e: "(b = CR \<and> l) = False" for l by blast
  have "sse_byte el cf True b acc = sse_byte el cf False b acc" unfolding sse_byte_def e ..
  with False show ?thesis by (auto split: sum.split)
next
  case True
  obtain fr n p where acc: "acc = (fr, n, p)" by (metis prod_cases3)
  have "\<exists>p1. bom_step p b = Inr p1"
    using True by (cases "sp_stream_start p") (auto simp: bom_step_def UTF8_BOM_def Let_def nth_Cons')
  then obtain p1 where p1: "bom_step p b = Inr p1" ..
  show ?thesis
  proof (cases "end_line el cf (fr, n, p1)")
    case (Inl x)
    with True p1 show ?thesis by (cases x) (simp add: acc sse_byte_def)
  next
    case (Inr y)
    obtain fr' n' p2 where "y = (fr', n', p2)" by (metis prod_cases3)
    with Inr True p1 show ?thesis
      by (cases "check_buffer_limit p2") (simp_all add: acc sse_byte_def check_buffer_def)
  qed
qed

section \<open>Chunking\<close>

lemma sse_loop_Cons:
  "sse_byte el cf (rest = []) b acc = Inr acc' \<Longrightarrow>
     sse_loop el cf acc (b # rest) =
       sse_loop el cf acc' (if b = CR \<and> rest \<noteq> [] \<and> hd rest = LF then tl rest else rest)"
  by (cases rest) auto

lemma sse_loop_append:
  assumes "sp_ok p" and "\<not> sp_prev_cr p" and "ys \<noteq> []"
  shows "case sse_loop el cf (fr, n, p) xs of
      Inl (e, _) \<Rightarrow> (\<exists>p''. sse_loop el cf (fr, n, p) (xs @ ys) = Inl (e, p''))
    | Inr (fr', n', p') \<Rightarrow> sp_ok p' \<and>
        sse_loop el cf (fr, n, p) (xs @ ys) =
          sse_loop el cf (fr', n', p'\<lparr>sp_prev_cr := False\<rparr>) (if sp_prev_cr p' \<and> hd ys = LF then tl ys else ys)"
  using assms
proof (induction xs arbitrary: fr n p rule: length_induct)
  case (1 xs)
  show ?case
  proof (cases xs)
    case Nil
    with "1.prems" show ?thesis by (simp add: prev_cr_same)
  next
    case (Cons b rest)
    show ?thesis
    proof (cases "rest = []")
      case False
      obtain x rest' where rest: "rest = x # rest'" using False by (cases rest) auto
      show ?thesis
      proof (cases "sse_byte el cf False b (fr, n, p)")
        case (Inl e)
        then show ?thesis by (cases e) (simp add: Cons rest)
      next
        case (Inr acc)
        obtain fr1 n1 p1 where acc: "acc = (fr1, n1, p1)" by (metis prod_cases3)
        have p1: "sp_ok p1" "\<not> sp_prev_cr p1"
          using sse_byte_ok [OF "1.prems"(1), of el cf False b fr n fr1 n1 p1] Inr acc "1.prems" by auto
        show ?thesis
        proof (cases "b = CR \<and> x = LF")
          case True
          then have e: "sse_loop el cf (fr, n, p) xs = sse_loop el cf (fr1, n1, p1) rest'"
            "sse_loop el cf (fr, n, p) (xs @ ys) = sse_loop el cf (fr1, n1, p1) (rest' @ ys)"
            using Inr acc by (simp_all add: Cons rest)
          have "length rest' < length xs" by (simp add: Cons rest)
          from "1.IH" [rule_format, OF this p1 "1.prems"(3), of fr1 n1] show ?thesis unfolding e .
        next
          case F: False
          then have e: "sse_loop el cf (fr, n, p) xs = sse_loop el cf (fr1, n1, p1) rest"
            "sse_loop el cf (fr, n, p) (xs @ ys) = sse_loop el cf (fr1, n1, p1) (rest @ ys)"
            using Inr acc by (auto simp: Cons rest)
          have "length rest < length xs" by (simp add: Cons)
          from "1.IH" [rule_format, OF this p1 "1.prems"(3), of fr1 n1] show ?thesis unfolding e .
        qed
      qed
    next
      case True
      obtain y ys' where ys: "ys = y # ys'" using "1.prems"(3) by (cases ys) auto
      show ?thesis
      proof (cases "sse_byte el cf False b (fr, n, p)")
        case (Inl x)
        obtain e q where x: "x = (e, q)" by force
        then have "sse_byte el cf True b (fr, n, p) = Inl (e, snd (projl (sse_byte el cf True b (fr, n, p))))"
          using sse_byte_last [of el cf b "(fr, n, p)"] Inl by simp
        then obtain q' where "sse_byte el cf True b (fr, n, p) = Inl (e, q')" ..
        with Inl x show ?thesis by (simp add: Cons True ys)
      next
        case (Inr acc)
        obtain fr1 n1 p1 where acc: "acc = (fr1, n1, p1)" by (metis prod_cases3)
        have p1: "sp_ok p1" "\<not> sp_prev_cr p1"
          using sse_byte_ok [OF "1.prems"(1), of el cf False b fr n fr1 n1 p1] Inr acc "1.prems" by auto
        then have "p1\<lparr>sp_prev_cr := False\<rparr> = p1" by (simp add: prev_cr_same)
        moreover have "sse_byte el cf True b (fr, n, p) = Inr (fr1, n1, if b = CR then p1\<lparr>sp_prev_cr := True\<rparr> else p1)"
          using sse_byte_last [of el cf b "(fr, n, p)"] Inr acc by simp
        ultimately show ?thesis using p1 Inr acc by (auto simp: Cons True ys prev_cr_same)
      qed
    qed
  qed
qed

text \<open>Without an event budget the counter is idle and earlier frames are only carried along.\<close>

definition no_count :: "(sse_parse_error \<times> sse_parser) + sse_acc \<Rightarrow> (sse_parse_error \<times> sse_parser) + sse_frame list \<times> sse_parser" where
  "no_count = map_sum id (\<lambda>(fr, n, p). (fr, p))"

definition prepend :: "sse_frame list \<Rightarrow> (sse_parse_error \<times> sse_parser) + sse_frame list \<times> sse_parser \<Rightarrow>
    (sse_parse_error \<times> sse_parser) + sse_frame list \<times> sse_parser" where
  "prepend f0 = map_sum id (\<lambda>(fr, p). (f0 @ fr, p))"

lemma end_line_prepend:
  "no_count (end_line None cf (f0 @ fr, n, p)) = prepend f0 (no_count (end_line None cf' (fr, m, p)))"
  by (auto simp: end_line_def no_count_def prepend_def check_event_limit_def Let_def split: option.split prod.split)

lemma check_buffer_prepend:
  "no_count (check_buffer (f0 @ fr, n, p)) = prepend f0 (no_count (check_buffer (fr, m, p)))"
  by (auto simp: check_buffer_def no_count_def prepend_def split: option.split)

lemma sse_byte_prepend:
  "no_count (sse_byte None cf l b (f0 @ fr, n, p)) = prepend f0 (no_count (sse_byte None cf' l b (fr, m, p)))"
proof (cases "bom_step p b")
  case (Inl p1)
  then show ?thesis by (simp add: sse_byte_def check_buffer_prepend)
next
  case (Inr p1)
  have "no_count (end_line None cf (f0 @ fr, n, p1)) = prepend f0 (no_count (end_line None cf' (fr, m, p1)))"
    by (rule end_line_prepend)
  with Inr check_buffer_prepend show ?thesis
    by (cases "end_line None cf (f0 @ fr, n, p1)"; cases "end_line None cf' (fr, m, p1)")
      (auto simp: sse_byte_def no_count_def prepend_def)
qed

lemma sse_loop_prepend:
  "no_count (sse_loop None cf (f0 @ fr, n, p) xs) = prepend f0 (no_count (sse_loop None cf' (fr, m, p) xs))"
proof (induction xs arbitrary: fr n m p rule: length_induct)
  case (1 xs)
  show ?case
  proof (cases xs)
    case Nil
    then show ?thesis by (simp add: no_count_def prepend_def)
  next
    case (Cons b rest)
    note sp = sse_byte_prepend [of cf "rest = []" b f0 fr n p cf' m]
    show ?thesis
    proof (cases "sse_byte None cf' (rest = []) b (fr, m, p)")
      case (Inl x)
      with sp show ?thesis
        by (cases "sse_byte None cf (rest = []) b (f0 @ fr, n, p)") (auto simp: Cons no_count_def prepend_def)
    next
      case (Inr a)
      obtain fr1 m1 p1 where a: "a = (fr1, m1, p1)" by (metis prod_cases3)
      with sp Inr obtain n1 where n1: "sse_byte None cf (rest = []) b (f0 @ fr, n, p) = Inr (f0 @ fr1, n1, p1)"
        by (cases "sse_byte None cf (rest = []) b (f0 @ fr, n, p)") (auto simp: no_count_def prepend_def)
      have IH: "length zs < length xs \<Longrightarrow> no_count (sse_loop None cf (f0 @ fr1, n1, p1) zs) =
          prepend f0 (no_count (sse_loop None cf' (fr1, m1, p1) zs))" for zs
        using "1.IH" by blast
      show ?thesis unfolding Cons sse_loop_Cons [OF n1] sse_loop_Cons [OF Inr] a
        by (rule IH) (auto simp: Cons less_Suc_eq_le)
    qed
  qed
qed

lemma parse_chunk_eq:
  "parse_chunk p chunk =
     (case no_count (sse_loop None (\<lambda>_. True) ([], 0, p\<lparr>sp_prev_cr := False\<rparr>)
              (if sp_prev_cr p \<and> hd chunk = LF then tl chunk else chunk)) of
        Inl (e, p') \<Rightarrow> (Inl e, p')
      | Inr (frames, p') \<Rightarrow> (Inr frames, p'\<lparr>sp_scratch_bytes := buffered_bytes p'\<rparr>))" if "chunk \<noteq> []"
  using that by (auto simp: parse_chunk_def parse_chunk_inner_def no_count_def split: sum.split prod.split)

lemma sse_loop_ok:
  assumes "sp_ok p" and "sse_loop el cf (fr, n, p) xs = Inr (fr', n', p')"
  shows "sp_ok p' \<and> (xs \<noteq> [] \<longrightarrow> check_buffer_limit p' = None)"
  using assms
proof (induction xs arbitrary: fr n p rule: length_induct)
  case (1 xs)
  show ?case
  proof (cases xs)
    case Nil
    with "1.prems" show ?thesis by simp
  next
    case (Cons b rest)
    then obtain a where "sse_byte el cf (rest = []) b (fr, n, p) = Inr a"
      using "1.prems"(2) by (cases "sse_byte el cf (rest = []) b (fr, n, p)") simp_all
    moreover obtain fr1 n1 p1 where a: "a = (fr1, n1, p1)" by (metis prod_cases3)
    ultimately have byte: "sse_byte el cf (rest = []) b (fr, n, p) = Inr (fr1, n1, p1)" by simp
    let ?zs = "if b = CR \<and> rest \<noteq> [] \<and> hd rest = LF then tl rest else rest"
    have p1: "sp_ok p1" "check_buffer_limit p1 = None" using sse_byte_ok [OF "1.prems"(1) byte] by auto
    have "sse_loop el cf (fr1, n1, p1) ?zs = Inr (fr', n', p')"
      using "1.prems"(2) sse_loop_Cons [OF byte] by (simp add: Cons)
    moreover have "length ?zs < length xs" by (auto simp: Cons less_Suc_eq_le)
    ultimately have "sp_ok p' \<and> (?zs \<noteq> [] \<longrightarrow> check_buffer_limit p' = None)" using "1.IH" p1(1) by blast
    with \<open>sse_loop el cf (fr1, n1, p1) ?zs = Inr (fr', n', p')\<close> p1(2) show ?thesis by (cases "?zs = []") auto
  qed
qed

lemma parse_chunk_ok: "sp_ok p \<Longrightarrow> parse_chunk p xs = (Inr f, p') \<Longrightarrow> sp_ok p'"
  using sse_loop_ok [of "p\<lparr>sp_prev_cr := False\<rparr>" None "\<lambda>_. True" "[]" 0]
  by (fastforce simp: parse_chunk_def parse_chunk_inner_def sp_ok_scratch split: if_splits sum.splits prod.splits)

text \<open>Two chunks in a row, or one.\<close>

lemma parse_chunk_append:
  assumes ok: "sp_ok p"
  shows "case parse_chunk p xs of
      (Inl e, _) \<Rightarrow> fst (parse_chunk p (xs @ ys)) = Inl e
    | (Inr f1, p1) \<Rightarrow> sp_ok p1 \<and>
        parse_chunk p (xs @ ys) =
          (case parse_chunk p1 ys of (Inl e, p2) \<Rightarrow> (Inl e, p2) | (Inr f2, p2) \<Rightarrow> (Inr (f1 @ f2), p2))"
proof (cases "xs = [] \<or> ys = []")
  case True
  then show ?thesis
  proof
    assume "xs = []"
    with ok show ?thesis by (auto simp: parse_chunk_def parse_chunk_inner_def sp_ok_scratch split: sum.split prod.split)
  next
    assume "ys = []"
    with parse_chunk_ok [OF ok, of xs] show ?thesis
      by (auto simp: parse_chunk_def [of _ "[]"] parse_chunk_inner_def [of _ "[]"] sp_ok_scratch split: sum.split prod.split)
  qed
next
  case False
  let ?cf = "\<lambda>_ :: sse_frame. True" and ?q = "p\<lparr>sp_prev_cr := False\<rparr>"
  define xs' where "xs' = (if sp_prev_cr p \<and> hd xs = LF then tl xs else xs)"
  have split: "(if sp_prev_cr p \<and> hd (xs @ ys) = LF then tl (xs @ ys) else xs @ ys) = xs' @ ys"
    using False by (auto simp: xs'_def)
  have "sp_ok ?q" "\<not> sp_prev_cr ?q" using ok by simp_all
  note app = sse_loop_append [OF this, of ys None ?cf "[]" 0 xs']
  have "xs @ ys \<noteq> []" using False by simp
  note whole = parse_chunk_eq [OF this, of p, unfolded split]
  show ?thesis
  proof (cases "sse_loop None ?cf ([], 0, ?q) xs'")
    case (Inl x)
    with app False obtain e q q' where x: "x = (e, q)" "sse_loop None ?cf ([], 0, ?q) (xs' @ ys) = Inl (e, q')"
      by (cases x) auto
    then have "fst (parse_chunk p (xs @ ys)) = Inl e" by (simp add: whole no_count_def)
    moreover have "parse_chunk p xs = (Inl e, q)"
      using x Inl False by (simp add: parse_chunk_eq xs'_def [symmetric] no_count_def)
    ultimately show ?thesis by simp
  next
    case (Inr a)
    obtain f1 n1 p1 where a: "a = (f1, n1, p1)" by (metis prod_cases3)
    let ?ys = "if sp_prev_cr p1 \<and> hd ys = LF then tl ys else ys"
    have p1: "sp_ok p1" and run: "sse_loop None ?cf ([], 0, ?q) (xs' @ ys) =
        sse_loop None ?cf (f1, n1, p1\<lparr>sp_prev_cr := False\<rparr>) ?ys" using app Inr a False by auto
    have first: "parse_chunk p xs = (Inr f1, p1)"
      using False Inr a sp_ok_scratch [OF p1] by (simp add: parse_chunk_eq xs'_def [symmetric] no_count_def)
    have "parse_chunk p (xs @ ys) =
        (case prepend f1 (no_count (sse_loop None ?cf ([], 0, p1\<lparr>sp_prev_cr := False\<rparr>) ?ys)) of
           Inl (e, p') \<Rightarrow> (Inl e, p')
         | Inr (frames, p') \<Rightarrow> (Inr frames, p'\<lparr>sp_scratch_bytes := buffered_bytes p'\<rparr>))"
      using sse_loop_prepend [of ?cf f1 "[]" n1 "p1\<lparr>sp_prev_cr := False\<rparr>" ?ys ?cf 0]
      by (simp add: whole run)
    with first p1 False show ?thesis
      by (auto simp: parse_chunk_eq prepend_def split: sum.split prod.split)
  qed
qed

end
