(* ===== verification/Chunked.thy ===== *)
theory Chunked
  imports Prelude
begin

text \<open>
  Parsers that are fed a stream in chunks. A parser takes a state and a chunk and returns an error
  or the items the chunk completes, with the new state; \<open>feed\<close> delivers a list of chunks and stops at
  the first error. The locale \<open>chunked_parser\<close> is the contract that two chunks in a row are worth
  their concatenation; its consequence is that the cut of a stream into chunks makes no difference.
  The server-sent-event parser and the event-stream decoder are instances.
\<close>

fun feed :: "('s \<Rightarrow> 'b list \<Rightarrow> ('e + 'o list) \<times> 's) \<Rightarrow> 's \<Rightarrow> 'b list list \<Rightarrow> ('e + 'o list) \<times> 's" where
  "feed run s [] = (Inr [], s)"
| "feed run s (c # cs) =
     (case run s c of
        (Inl e, s1) \<Rightarrow> (Inl e, s1)
      | (Inr f1, s1) \<Rightarrow>
          (case feed run s1 cs of
             (Inl e, s2) \<Rightarrow> (Inl e, s2)
           | (Inr f2, s2) \<Rightarrow> (Inr (f1 @ f2), s2)))"

locale chunked_parser =
  fixes run :: "'s \<Rightarrow> 'b list \<Rightarrow> ('e + 'o list) \<times> 's"
    and ok :: "'s \<Rightarrow> bool"
  assumes run_Nil: "ok s0 \<Longrightarrow> run s0 [] = (Inr [], s0)"
    and run_append: "ok s \<Longrightarrow>
      (case run s xs of
         (Inl e, _) \<Rightarrow> fst (run s (xs @ ys)) = Inl e
       | (Inr f1, s1) \<Rightarrow> ok s1 \<and>
           run s (xs @ ys) =
             (case run s1 ys of (Inl e, s2) \<Rightarrow> (Inl e, s2) | (Inr f2, s2) \<Rightarrow> (Inr (f1 @ f2), s2)))"
begin

lemma feed_concat_both:
  assumes "ok s"
  shows "fst (feed run s cs) = fst (run s (concat cs)) \<and>
    (\<forall>fs s'. feed run s cs = (Inr fs, s') \<longrightarrow> run s (concat cs) = (Inr fs, s') \<and> ok s')"
  using assms
proof (induction cs arbitrary: s)
  case Nil
  then show ?case using run_Nil by simp
next
  case (Cons c cs)
  note app = run_append [OF Cons.prems, of c "concat cs"]
  obtain r s1 where r: "run s c = (r, s1)" by force
  show ?case
  proof (cases r)
    case (Inl e)
    with r app show ?thesis by simp
  next
    case (Inr f1)
    have ok1: "ok s1" and whole: "run s (c @ concat cs) =
        (case run s1 (concat cs) of (Inl e, s2) \<Rightarrow> (Inl e, s2) | (Inr f2, s2) \<Rightarrow> (Inr (f1 @ f2), s2))"
      using app r Inr by auto
    obtain r2 s2 where r2: "feed run s1 cs = (r2, s2)" by force
    obtain r3 s3 where r3: "run s1 (concat cs) = (r3, s3)" by force
    note IH = Cons.IH [OF ok1, THEN conjunct1] Cons.IH [OF ok1, THEN conjunct2, rule_format]
    have fed: "feed run s (c # cs) = (case r2 of Inl e \<Rightarrow> (Inl e, s2) | Inr f2 \<Rightarrow> (Inr (f1 @ f2), s2))"
      by (simp add: r Inr r2)
    have one: "run s (concat (c # cs)) = (case r3 of Inl e \<Rightarrow> (Inl e, s3) | Inr f2 \<Rightarrow> (Inr (f1 @ f2), s3))"
      by (simp add: whole r3)
    show ?thesis
    proof (cases r2)
      case (Inl e)
      have "r3 = Inl e" using IH(1) unfolding r2 r3 Inl by simp
      then show ?thesis unfolding fed one by (simp add: Inl)
    next
      case (Inr f2)
      have "r3 = Inr f2" "s3 = s2" "ok s2" using IH(2) [OF r2 [unfolded Inr]] unfolding r3 by simp_all
      then show ?thesis unfolding fed one by (simp add: Inr)
    qed
  qed
qed

lemma feed_concat: "ok s \<Longrightarrow> fst (feed run s cs) = fst (run s (concat cs))"
  using feed_concat_both by blast

lemma feed_ok: "ok s \<Longrightarrow> feed run s cs = (Inr fs, s') \<Longrightarrow> run s (concat cs) = (Inr fs, s') \<and> ok s'"
  using feed_concat_both by blast

lemma feed_of_run:
  assumes "ok s" and "run s (concat cs) = (Inr fs, s')"
  shows "feed run s cs = (Inr fs, s')"
proof -
  obtain r t where f: "feed run s cs = (r, t)" by force
  have "r = Inr fs" using feed_concat [OF assms(1), of cs] unfolding f assms(2) by simp
  with f have "feed run s cs = (Inr fs, t)" by simp
  with feed_ok [OF assms(1) this] assms(2) show ?thesis by simp
qed

end

end
