(* ===== verification/Sse_Lines.thy ===== *)
theory Sse_Lines
  imports Sse_Frame Chunked
begin

text \<open>
  What the frame parser of \<^verbatim>\<open>Sse_Frame\<close> promises for a whole stream. A reference reading of the
  stream (strip the byte order mark, split into lines, collect fields, emit at blank lines) is
  refined by the byte loop; the bytes retained are bounded by the limit, and by three times the
  input, so a limit of that size never overflows; event budgets are exact.
\<close>

section \<open>The stream read line by line\<close>

text \<open>The lines of a stream that ends every line with LF, CR or CRLF, and the unfinished last line.\<close>

fun sse_lines :: "bytes \<Rightarrow> bytes \<Rightarrow> bytes list \<times> bytes" where
  "sse_lines cur [] = ([], cur)"
| "sse_lines cur (b # rest) =
     (if b = LF \<or> b = CR then
        (let (ls, r) = sse_lines [] (if b = CR \<and> rest \<noteq> [] \<and> hd rest = LF then tl rest else rest)
         in (cur # ls, r))
      else sse_lines (cur @ [b]) rest)"

definition strip_bom :: "bytes \<Rightarrow> bytes" where
  "strip_bom bs = (if take 3 bs = UTF8_BOM then drop 3 bs else bs)"

text \<open>The value of the field a line names, with one leading space removed.\<close>

definition field_of :: "bytes \<Rightarrow> (bytes \<times> bytes) option" where
  "field_of line =
     (if line = [] \<or> hd line = COLON \<or> COLON \<notin> set line then None
      else (let after = tl (dropWhile (\<lambda>b. b \<noteq> COLON) line)
            in Some (takeWhile (\<lambda>b. b \<noteq> COLON) line,
                     if after \<noteq> [] \<and> hd after = SPACE then tl after else after)))"

fun join_lines :: "bytes list \<Rightarrow> bytes" where
  "join_lines [] = []"
| "join_lines [v] = v"
| "join_lines (v # vs) = v @ [LF] @ join_lines vs"

text \<open>An open frame: its event type and the data values seen so far.\<close>

type_synonym open_frame = "bytes option \<times> bytes list"

definition line_step :: "open_frame \<Rightarrow> bytes \<Rightarrow> sse_frame list \<times> open_frame" where
  "line_step fr line =
     (case fr of (ev, ds) \<Rightarrow>
        if line = [] then
          ((if ds = [] then [] else [\<lparr>sf_event_type = ev, sf_data = join_lines ds\<rparr>]), (None, []))
        else
          (case field_of line of
             None \<Rightarrow> ([], fr)
           | Some (f, v) \<Rightarrow>
               (if f = ascii ''data'' then ([], (ev, ds @ [v]))
                else if f = ascii ''event'' then ([], (Some (from_utf8_lossy v), ds))
                else ([], fr))))"

fun frames_of_lines :: "open_frame \<Rightarrow> bytes list \<Rightarrow> sse_frame list \<times> open_frame" where
  "frames_of_lines fr [] = ([], fr)"
| "frames_of_lines fr (l # ls) =
     (let (f1, fr1) = line_step fr l; (f2, fr2) = frames_of_lines fr1 ls in (f1 @ f2, fr2))"

definition sse_frames_of :: "bytes \<Rightarrow> sse_frame list" where
  "sse_frames_of bs = fst (frames_of_lines (None, []) (fst (sse_lines [] (strip_bom bs))))"

lemma join_lines_snoc: "join_lines (ds @ [v]) = (if ds = [] then v else join_lines ds @ [LF] @ v)"
  by (induction ds rule: join_lines.induct) auto

text \<open>The parser between bytes holds an unfinished line and an open frame.\<close>

definition holds :: "sse_parser \<Rightarrow> bytes \<Rightarrow> open_frame \<Rightarrow> bool" where
  "holds p cur fr \<longleftrightarrow>
     sp_stream_start p = Past \<and> sp_line_buf p = cur \<and> sp_event_type p = fst fr \<and>
     sp_data_buf p = join_lines (snd fr) \<and> sp_has_data p = (snd fr \<noteq> [])"

lemma process_line_step:
  assumes "holds p cur fr"
  shows "(case fst (process_line p) of None \<Rightarrow> [] | Some f \<Rightarrow> [f]) = fst (line_step fr cur) \<and>
    holds ((snd (process_line p))\<lparr>sp_line_buf := []\<rparr>) [] (snd (line_step fr cur))"
proof -
  have v: "(case xs of [] \<Rightarrow> [] | b # rest \<Rightarrow> if b = SPACE then rest else xs) =
      (if xs \<noteq> [] \<and> hd xs = SPACE then tl xs else xs)" for xs by (cases xs) auto
  obtain ev ds where fr: "fr = (ev, ds)" by force
  show ?thesis
  proof (cases "cur = []")
    case True
    with assms show ?thesis by (auto simp: fr holds_def process_line_def line_step_def)
  next
    case False
    with assms show ?thesis
      by (auto simp: fr holds_def process_line_def line_step_def field_of_def v Let_def join_lines_snoc)
  qed
qed

lemma end_line_step:
  assumes "holds p cur fr" and "end_line None cf (fs, n, p) = Inr (fs', n', p')"
  shows "fs' = fs @ fst (line_step fr cur) \<and> holds p' [] (snd (line_step fr cur))"
  using process_line_step [OF assms(1)] assms(2)
  by (auto simp: end_line_def check_event_limit_def Let_def holds_def split: option.splits if_splits prod.splits)

lemma holds_push:
  "holds p cur fr \<Longrightarrow> holds (p\<lparr>sp_line_buf := sp_line_buf p @ [b], sp_scratch_bytes := k\<rparr>) (cur @ [b]) fr"
  by (simp add: holds_def)

lemma holds_prev_cr [simp]: "holds (p\<lparr>sp_prev_cr := c\<rparr>) cur fr = holds p cur fr"
  by (simp add: holds_def)

text \<open>Past the byte order mark the loop reads lines.\<close>

lemma sse_loop_lines:
  assumes "holds p cur fr" and "sse_loop None cf (fs, n, p) bs = Inr (fs', n', p')"
  shows "fs' = fs @ fst (frames_of_lines fr (fst (sse_lines cur bs))) \<and>
    holds p' (snd (sse_lines cur bs)) (snd (frames_of_lines fr (fst (sse_lines cur bs))))"
  using assms
proof (induction bs arbitrary: p cur fr fs n rule: length_induct)
  case (1 bs)
  show ?case
  proof (cases bs)
    case Nil
    with "1.prems" show ?thesis by simp
  next
    case (Cons b rest)
    then obtain a where "sse_byte None cf (rest = []) b (fs, n, p) = Inr a"
      using "1.prems"(2) by (cases "sse_byte None cf (rest = []) b (fs, n, p)") simp_all
    moreover obtain fs1 n1 p1 where a: "a = (fs1, n1, p1)" by (metis prod_cases3)
    ultimately have byte: "sse_byte None cf (rest = []) b (fs, n, p) = Inr (fs1, n1, p1)" by simp
    have bom: "bom_step p b = Inr p" using "1.prems"(1) by (simp add: holds_def bom_step_def)
    let ?zs = "if b = CR \<and> rest \<noteq> [] \<and> hd rest = LF then tl rest else rest"
    have loop: "sse_loop None cf (fs1, n1, p1) ?zs = Inr (fs', n', p')"
      using "1.prems"(2) sse_loop_Cons [OF byte] by (simp add: Cons)
    have len: "length ?zs < length bs" by (auto simp: Cons less_Suc_eq_le)
    show ?thesis
    proof (cases "b = LF \<or> b = CR")
      case True
      with byte bom obtain p2 where "end_line None cf (fs, n, p) = Inr (fs1, n1, p2)"
        "p1 = (if b = CR \<and> rest = [] then p2\<lparr>sp_prev_cr := True\<rparr> else p2)"
        by (auto simp: sse_byte_def res_bind_Inr_iff check_buffer_Inr)
      with end_line_step [OF "1.prems"(1)] have
        s: "fs1 = fs @ fst (line_step fr cur)" "holds p1 [] (snd (line_step fr cur))" by auto
      from "1.IH" [rule_format, OF len s(2) loop] s(1) True show ?thesis
        by (simp add: Cons case_prod_beta Let_def)
    next
      case False
      then have "fs1 = fs" "n1 = n" "p1 = p\<lparr>sp_line_buf := sp_line_buf p @ [b], sp_scratch_bytes := sat_add (sp_scratch_bytes p) 1\<rparr>"
        using byte bom by (simp_all add: sse_byte_def check_buffer_Inr)
      with "1.IH" [rule_format, OF len _ loop, of "cur @ [b]" fr] holds_push [OF "1.prems"(1)] False show ?thesis
        by (simp add: Cons)
    qed
  qed
qed

lemma bom_prefix_cases:
  fixes bs :: bytes
  obtains (whole) rest where "bs = UTF8_BOM @ rest"
  | (part) m where "m < 3" "bs = take m UTF8_BOM"
  | (other) m b rest where "m < 3" "bs = take m UTF8_BOM @ b # rest" "b \<noteq> UTF8_BOM ! m"
proof -
  have "(\<exists>rest. bs = UTF8_BOM @ rest) \<or> (\<exists>m<3. bs = take m UTF8_BOM) \<or>
      (\<exists>m b rest. m < 3 \<and> bs = take m UTF8_BOM @ b # rest \<and> b \<noteq> UTF8_BOM ! m)"
  proof (cases "length bs < 3 \<and> bs = take (length bs) UTF8_BOM")
    case False
    show ?thesis
    proof (cases "bs = [] \<or> hd bs \<noteq> 0xEF")
      case True
      with False have "0 < (3::nat) \<and> bs = take 0 UTF8_BOM @ hd bs # tl bs \<and> hd bs \<noteq> UTF8_BOM ! 0"
        by (cases bs) (auto simp: UTF8_BOM_def)
      then show ?thesis by blast
    next
      case c1: False
      then obtain r1 where r1: "bs = 0xEF # r1" by (cases bs) auto
      show ?thesis
      proof (cases "r1 = [] \<or> hd r1 \<noteq> 0xBB")
        case True
        with False r1 have "1 < (3::nat) \<and> bs = take 1 UTF8_BOM @ hd r1 # tl r1 \<and> hd r1 \<noteq> UTF8_BOM ! 1"
          by (cases r1) (auto simp: UTF8_BOM_def)
        then show ?thesis by blast
      next
        case c2: False
        then obtain r2 where r2: "r1 = 0xBB # r2" by (cases r1) auto
        show ?thesis
        proof (cases "r2 = [] \<or> hd r2 \<noteq> 0xBF")
          case True
          with False r1 r2 have "2 < (3::nat) \<and> bs = take 2 UTF8_BOM @ hd r2 # tl r2 \<and> hd r2 \<noteq> UTF8_BOM ! 2"
            by (cases r2) (auto simp: UTF8_BOM_def numeral_2_eq_2)
          then show ?thesis by blast
        next
          case c3: False
          then have "bs = UTF8_BOM @ tl r2" using r1 r2 by (cases r2) (auto simp: UTF8_BOM_def)
          then show ?thesis by blast
        qed
      qed
    qed
  qed blast
  then show ?thesis using that by blast
qed

lemma strip_bom_other: "m < 3 \<Longrightarrow> b \<noteq> UTF8_BOM ! m \<Longrightarrow> strip_bom (take m UTF8_BOM @ b # rest) = take m UTF8_BOM @ b # rest"
  by (auto simp: strip_bom_def UTF8_BOM_def numeral_3_eq_3 less_Suc_eq numeral_2_eq_2)

lemma sse_lines_push: "\<forall>b\<in>set xs. b \<noteq> LF \<and> b \<noteq> CR \<Longrightarrow> sse_lines cur (xs @ ys) = sse_lines (cur @ xs) ys"
  by (induction xs arbitrary: cur) auto

lemma bom_plain: "\<forall>b\<in>set (take m UTF8_BOM). b \<noteq> LF \<and> b \<noteq> CR"
  using set_take_subset [of m UTF8_BOM] by (auto simp: UTF8_BOM_def)

lemma UTF8_BOM_length: "length UTF8_BOM = 3"
  by (simp add: UTF8_BOM_def)

text \<open>While the mark is being matched nothing else happens.\<close>

definition marking :: "nat \<Rightarrow> nat \<Rightarrow> sse_parser" where
  "marking limit m = (sse_parser_new limit)\<lparr>sp_stream_start := if m = 3 then Past else CheckingBom m, sp_scratch_bytes := if m = 3 then 0 else m\<rparr>"

lemma marking_step:
  assumes "m < 3" shows "bom_step (marking limit m) (UTF8_BOM ! m) = Inl (marking limit (Suc m))"
  using assms by (auto simp: marking_def bom_step_def sse_parser_new_def UTF8_BOM_def buffered_bytes_eq
      bom_prefix_len_def numeral_3_eq_3 less_Suc_eq u64_max_def)

lemma bom_not_break: "m < 3 \<Longrightarrow> UTF8_BOM ! m \<noteq> CR \<and> UTF8_BOM ! m \<noteq> LF"
  by (auto simp: UTF8_BOM_def numeral_3_eq_3 less_Suc_eq)

lemma sse_loop_marking:
  assumes "m \<le> 3" and "sse_loop el cf (fs, n, marking limit 0) (take m UTF8_BOM @ ys) = Inr r"
  shows "sse_loop el cf (fs, n, marking limit m) ys = Inr r"
  using assms
proof (induction m arbitrary: ys)
  case 0
  then show ?case by simp
next
  case (Suc m)
  then have m: "m < 3" by simp
  have "take (Suc m) UTF8_BOM @ ys = take m UTF8_BOM @ (UTF8_BOM ! m) # ys"
    using take_Suc_conv_app_nth [of m UTF8_BOM] m by (simp add: UTF8_BOM_length)
  with Suc have l: "sse_loop el cf (fs, n, marking limit m) ((UTF8_BOM ! m) # ys) = Inr r"
    by (auto simp del: sse_loop.simps)
  then have "sse_byte el cf (ys = []) (UTF8_BOM ! m) (fs, n, marking limit m) = Inr (fs, n, marking limit (Suc m))"
    using marking_step [OF m] by (auto simp: sse_byte_def check_buffer_def res_bind_Inr_iff split: option.splits)
  from l [unfolded sse_loop_Cons [OF this]] bom_not_break [OF m] show ?case by simp
qed

lemma sse_loop_bom_fails:
  assumes "bom_step p b = Inr p1" and "bom_step p1 b = Inr p1"
  shows "sse_loop el cf (fs, n, p) (b # rest) = sse_loop el cf (fs, n, p1) (b # rest)"
  using assms by (simp add: sse_byte_def)

lemma marking_fails:
  assumes "m < 3" and "b \<noteq> UTF8_BOM ! m"
  obtains p1 where "bom_step (marking limit m) b = Inr p1" "bom_step p1 b = Inr p1"
    "holds p1 (take m UTF8_BOM) (None, [])"
  using assms by (auto simp: bom_step_def marking_def sse_parser_new_def holds_def Let_def intro: that)

lemma sse_loop_from_start:
  assumes "sse_loop None cf ([], 0, sse_parser_new limit) bs = Inr (fs, n, p)"
  shows "fs = sse_frames_of bs"
proof -
  have new: "sse_parser_new limit = marking limit 0" by (simp add: marking_def sse_parser_new_def)
  note l = assms [unfolded new]
  show ?thesis
  proof (cases bs rule: bom_prefix_cases)
    case (whole rest)
    have "sse_loop None cf ([], 0, marking limit 3) rest = Inr (fs, n, p)"
      using sse_loop_marking [of 3] l whole by (simp add: UTF8_BOM_def)
    moreover have "holds (marking limit 3) [] (None, [])" by (simp add: holds_def marking_def sse_parser_new_def)
    moreover have "strip_bom bs = rest" by (simp add: whole strip_bom_def UTF8_BOM_def)
    ultimately show ?thesis using sse_loop_lines by (fastforce simp: sse_frames_of_def)
  next
    case (part m)
    then have "sse_loop None cf ([], 0, marking limit m) [] = Inr (fs, n, p)"
      using sse_loop_marking [of m _ _ _ _ _ "[]"] l by simp
    moreover have "strip_bom bs = bs" using part by (auto simp: strip_bom_def UTF8_BOM_def numeral_3_eq_3 less_Suc_eq)
    moreover have "sse_lines [] bs = ([], bs)" using sse_lines_push [OF bom_plain, of "[]" m "[]"] part by simp
    ultimately show ?thesis by (simp add: sse_frames_of_def)
  next
    case (other m b rest)
    obtain p1 where p1: "bom_step (marking limit m) b = Inr p1" "bom_step p1 b = Inr p1"
      "holds p1 (take m UTF8_BOM) (None, [])" using marking_fails [OF other(1,3)] by metis
    have "sse_loop None cf ([], 0, marking limit m) (b # rest) = Inr (fs, n, p)"
      by (rule sse_loop_marking) (use l other in simp_all)
    then have "sse_loop None cf ([], 0, p1) (b # rest) = Inr (fs, n, p)"
      using sse_loop_bom_fails [OF p1(1,2)] by simp
    from sse_loop_lines [OF p1(3) this] other show ?thesis
      using sse_lines_push [OF bom_plain, of "[]" m "b # rest"] by (simp add: sse_frames_of_def strip_bom_other)
  qed
qed

section \<open>How much is retained\<close>

lemma from_utf8_lossy_length: "length (from_utf8_lossy bs) \<le> 3 * length bs"
proof (induction bs rule: from_utf8_lossy.induct)
  case (2 b rest)
  obtain n ok where scan: "utf8_scan b rest = (n, ok)" by force
  with utf8_scan_pos [of b rest] have "0 < n" by simp
  with "2.IH" [OF scan [symmetric]] scan show ?case by (auto simp: min_def)
qed simp

text \<open>
  A weight that bounds the retained bytes: invalid bytes of an event type may grow threefold
  when they are replaced.
\<close>

definition retained :: "sse_parser \<Rightarrow> nat" where
  "retained p = 3 * bom_prefix_len p + 3 * length (sp_line_buf p) + length (sp_data_buf p) +
     (case sp_event_type p of None \<Rightarrow> 0 | Some e \<Rightarrow> length e)"

lemma buffered_le_retained: "buffered_bytes p \<le> retained p"
  by (auto simp: buffered_bytes_eq retained_def split: option.split)

lemma field_value_length:
  assumes "COLON \<in> set line"
  shows "length (takeWhile (\<lambda>b. b \<noteq> COLON) line) + length (tl (dropWhile (\<lambda>b. b \<noteq> COLON) line)) < length line"
proof -
  have "dropWhile (\<lambda>b. b \<noteq> COLON) line \<noteq> []" using assms by (auto simp: dropWhile_eq_Nil_conv)
  moreover have "length (takeWhile (\<lambda>b. b \<noteq> COLON) line) + length (dropWhile (\<lambda>b. b \<noteq> COLON) line) = length line"
    using takeWhile_dropWhile_id [of "\<lambda>b. b \<noteq> COLON" line] by (metis length_append)
  ultimately show ?thesis by (cases "dropWhile (\<lambda>b. b \<noteq> COLON) line") auto
qed

lemma process_line_retained:
  "retained ((snd (process_line p))\<lparr>sp_line_buf := []\<rparr>) \<le> retained p"
proof (cases "sp_line_buf p = [] \<or> hd (sp_line_buf p) = COLON \<or> COLON \<notin> set (sp_line_buf p)")
  case True
  then show ?thesis by (auto simp: process_line_def retained_def bom_prefix_len_def)
next
  case False
  define line where "line = sp_line_buf p"
  define f where "f = takeWhile (\<lambda>b. b \<noteq> COLON) line"
  define a where "a = tl (dropWhile (\<lambda>b. b \<noteq> COLON) line)"
  define v where "v = (case a of [] \<Rightarrow> [] | b # rest \<Rightarrow> if b = SPACE then rest else a)"
  have "length f + length a < length line" using field_value_length False by (simp add: f_def a_def line_def)
  moreover have "length v \<le> length a" by (cases a) (auto simp: v_def)
  ultimately have len: "length f + length v < length line" by simp
  have p: "snd (process_line p) =
      (if f = ascii ''data'' then p\<lparr>sp_has_data := True,
          sp_data_buf := sp_data_buf p @ (if sp_has_data p then [LF] else []) @ v\<rparr>
       else if f = ascii ''event'' then p\<lparr>sp_event_type := Some (from_utf8_lossy v)\<rparr> else p)"
    using False unfolding process_line_def Let_def line_def [symmetric] f_def [symmetric] a_def [symmetric] v_def [symmetric]
    by simp
  have "length (from_utf8_lossy v) \<le> 3 * length line" using from_utf8_lossy_length [of v] len by linarith
  with len show ?thesis unfolding p retained_def by (auto simp: line_def bom_prefix_len_def split: option.split)
qed

lemma end_line_retained:
  assumes "end_line el cf (fr, n, p) = Inr (fr', n', p')"
  shows "retained p' \<le> retained p \<and> sp_max_buffer_bytes p' = sp_max_buffer_bytes p"
proof -
  have "retained (q\<lparr>sp_scratch_bytes := k\<rparr>) = retained q" for q k by (simp add: retained_def bom_prefix_len_def)
  with assms process_line_retained [of p] process_line_ok(3) [of p] show ?thesis
    by (auto simp: end_line_def Let_def split: option.splits if_splits prod.splits)
qed

lemma bom_step_retained:
  assumes "sp_ok p" and "bom_step p b = Inl p1 \<or> bom_step p b = Inr p1"
  shows "retained p1 \<le> retained p + (if bom_step p b = Inl p1 then 3 else 0) \<and> sp_max_buffer_bytes p1 = sp_max_buffer_bytes p"
proof (cases "sp_stream_start p")
  case (CheckingBom m)
  with assms(1) have "m = 0 \<or> m = 1 \<or> m = 2" by (auto simp: sp_ok_def)
  with CheckingBom assms show ?thesis
    by (auto simp: bom_step_def retained_def bom_prefix_len_def UTF8_BOM_def Let_def sp_ok_def split: if_splits)
qed (use assms in \<open>auto simp: bom_step_def\<close>)

lemma sse_byte_retained:
  assumes ok: "sp_ok p" and b: "sse_byte el cf l b (fr, n, p) = Inr (fr', n', p')"
  shows "retained p' \<le> retained p + 3 \<and> sp_max_buffer_bytes p' = sp_max_buffer_bytes p"
proof (cases "bom_step p b")
  case (Inl p1)
  with bom_step_retained [OF ok, of b p1] b show ?thesis by (auto simp: sse_byte_def check_buffer_Inr)
next
  case (Inr p1)
  have p1: "retained p1 \<le> retained p" "sp_max_buffer_bytes p1 = sp_max_buffer_bytes p"
    using bom_step_retained [OF ok, of b p1] Inr by auto
  show ?thesis
  proof (cases "b = LF \<or> b = CR")
    case True
    with b Inr obtain p2 where "end_line el cf (fr, n, p1) = Inr (fr', n', p2)"
      "p' = (if b = CR \<and> l then p2\<lparr>sp_prev_cr := True\<rparr> else p2)"
      by (auto simp: sse_byte_def res_bind_Inr_iff check_buffer_Inr)
    with end_line_retained [OF this(1)] p1 show ?thesis
      by (auto simp: retained_def bom_prefix_len_def)
  next
    case False
    with b Inr p1 show ?thesis by (auto simp: sse_byte_def check_buffer_Inr retained_def bom_prefix_len_def)
  qed
qed

text \<open>With room for three times the input no turn overflows.\<close>

lemma end_line_unlimited: "\<exists>acc'. end_line None cf acc = Inr acc'"
  by (cases acc) (auto simp: end_line_def check_event_limit_def Let_def split: option.split prod.split)

lemma sse_byte_room:
  assumes ok: "sp_ok p" and room: "retained p + 3 \<le> sp_max_buffer_bytes p"
  shows "\<exists>acc'. sse_byte None cf l b (fr, n, p) = Inr acc'"
proof (rule ccontr)
  assume "\<nexists>acc'. sse_byte None cf l b (fr, n, p) = Inr acc'"
  then obtain e q where bad: "sse_byte None cf l b (fr, n, p) = Inl (e, q)"
    by (cases "sse_byte None cf l b (fr, n, p)") auto
  have no: "check_buffer_limit r = None" if "sp_ok r" "retained r \<le> retained p + 3" "sp_max_buffer_bytes r = sp_max_buffer_bytes p" for r
    using buffered_le_retained [of r] that room by (auto simp: check_buffer_limit_def sp_ok_def)
  show False
  proof (cases "bom_step p b")
    case (Inl p1)
    with bom_step_retained [OF ok, of b p1] bom_step_ok [OF ok, of b] have "check_buffer_limit p1 = None"
      by (intro no) auto
    with Inl bad show False by (simp add: sse_byte_def check_buffer_def)
  next
    case (Inr p1)
    have p1: "retained p1 \<le> retained p" "sp_max_buffer_bytes p1 = sp_max_buffer_bytes p" "sp_ok p1" "sp_stream_start p1 = Past"
      using bom_step_retained [OF ok, of b p1] bom_step_ok [OF ok, of b] Inr by auto
    show False
    proof (cases "b = LF \<or> b = CR")
      case True
      obtain fr' n' p2 where p2: "end_line None cf (fr, n, p1) = Inr (fr', n', p2)"
        using end_line_unlimited by (metis prod_cases3)
      have "check_buffer_limit p2 = None"
        using end_line_retained [OF p2] end_line_ok [OF p2 p1(4)] p1 by (intro no) auto
      with Inr True p2 bad show False by (simp add: sse_byte_def check_buffer_def split: if_splits)
    next
      case False
      have "check_buffer_limit (p1\<lparr>sp_line_buf := sp_line_buf p1 @ [b], sp_scratch_bytes := sat_add (sp_scratch_bytes p1) 1\<rparr>) = None"
        using push_ok [OF p1(3,4)] p1 by (intro no) (auto simp: retained_def bom_prefix_len_def)
      with Inr False bad show False by (simp add: sse_byte_def check_buffer_def)
    qed
  qed
qed

lemma sse_loop_room:
  assumes "sp_ok p" and "retained p + 3 * length xs \<le> sp_max_buffer_bytes p"
  shows "\<exists>acc'. sse_loop None cf (fr, n, p) xs = Inr acc'"
  using assms
proof (induction xs arbitrary: fr n p rule: length_induct)
  case (1 xs)
  show ?case
  proof (cases xs)
    case (Cons b rest)
    obtain fr1 n1 p1 where byte: "sse_byte None cf (rest = []) b (fr, n, p) = Inr (fr1, n1, p1)"
      using sse_byte_room [OF "1.prems"(1), of cf "rest = []" b fr n] "1.prems"(2) Cons by auto
    let ?zs = "if b = CR \<and> rest \<noteq> [] \<and> hd rest = LF then tl rest else rest"
    have len: "length ?zs \<le> length rest" by auto
    then have "length ?zs < length xs" by (simp only: Cons length_Cons less_Suc_eq_le)
    moreover have "retained p1 + 3 * length ?zs \<le> sp_max_buffer_bytes p1"
      using sse_byte_retained [OF "1.prems"(1) byte] "1.prems"(2) len Cons by simp
    ultimately have "\<exists>acc'. sse_loop None cf (fr1, n1, p1) ?zs = Inr acc'"
      using "1.IH" sse_byte_ok [OF "1.prems"(1) byte] by blast
    then show ?thesis unfolding Cons sse_loop_Cons [OF byte] .
  qed simp
qed

lemma sse_loop_max:
  assumes "sp_ok p" and "sse_loop el cf (fr, n, p) xs = Inr (fr', n', p')"
  shows "sp_max_buffer_bytes p' = sp_max_buffer_bytes p"
  using assms
proof (induction xs arbitrary: fr n p rule: length_induct)
  case (1 xs)
  show ?case
  proof (cases xs)
    case Nil
    with "1.prems" show ?thesis by simp
  next
    case (Cons b rest)
    then obtain a where "sse_byte el cf (rest = []) b (fr, n, p) = Inr a"
      using "1.prems"(2) by (cases "sse_byte el cf (rest = []) b (fr, n, p)") simp_all
    moreover obtain fr1 n1 p1 where a: "a = (fr1, n1, p1)" by (metis prod_cases3)
    ultimately have byte: "sse_byte el cf (rest = []) b (fr, n, p) = Inr (fr1, n1, p1)" by simp
    let ?zs = "if b = CR \<and> rest \<noteq> [] \<and> hd rest = LF then tl rest else rest"
    have "sse_loop el cf (fr1, n1, p1) ?zs = Inr (fr', n', p')"
      using "1.prems"(2) sse_loop_Cons [OF byte] by (simp add: Cons)
    moreover have "length ?zs < length xs" by (auto simp: Cons less_Suc_eq_le)
    ultimately have "sp_max_buffer_bytes p' = sp_max_buffer_bytes p1"
      using "1.IH" sse_byte_ok [OF "1.prems"(1) byte] by blast
    with sse_byte_retained [OF "1.prems"(1) byte] show ?thesis by simp
  qed
qed

section \<open>Event budgets\<close>

text \<open>What a turn adds to the frames stays within the budget, counted frames only.\<close>

definition in_budget :: "nat \<Rightarrow> nat \<Rightarrow> (sse_frame \<Rightarrow> bool) \<Rightarrow> sse_frame list \<Rightarrow> sse_frame list \<Rightarrow> bool" where
  "in_budget current max_events cf fr fr' \<longleftrightarrow>
     length (filter cf fr') = length (filter cf fr) \<or> current + length (filter cf fr') \<le> max_events"

definition counted_ok :: "(sse_frame \<Rightarrow> bool) \<Rightarrow> sse_frame list \<Rightarrow> nat \<Rightarrow> bool" where
  "counted_ok cf fr n \<longleftrightarrow> n = min u64_max (length (filter cf fr))"

lemma end_line_budget:
  assumes "counted_ok cf fr n" and "mx < u64_max"
  shows "end_line (Some (cur, mx)) cf (fr, n, p) = Inr (fr', n', p') \<longleftrightarrow>
    end_line None cf (fr, n, p) = Inr (fr', n', p') \<and> in_budget cur mx cf fr fr'"
proof (cases "fst (process_line p)")
  case None
  then show ?thesis by (auto simp: end_line_def in_budget_def Let_def split: prod.split)
next
  case (Some f)
  with assms show ?thesis
    by (auto simp: end_line_def in_budget_def check_event_limit_def counted_ok_def sat_add_def Let_def min_def
        split: prod.splits if_splits)
qed

lemma end_line_counted:
  assumes "counted_ok cf fr n" and "end_line el cf (fr, n, p) = Inr (fr', n', p')"
  shows "counted_ok cf fr' n' \<and> length (filter cf fr) \<le> length (filter cf fr')"
  using assms by (auto simp: end_line_def counted_ok_def sat_add_def Let_def min_def
      split: option.splits if_splits prod.splits)

lemma sse_byte_budget:
  assumes "counted_ok cf fr n" and "mx < u64_max"
  shows "sse_byte (Some (cur, mx)) cf l b (fr, n, p) = Inr (fr', n', p') \<longleftrightarrow>
    sse_byte None cf l b (fr, n, p) = Inr (fr', n', p') \<and> in_budget cur mx cf fr fr'"
proof (cases "bom_step p b")
  case (Inl p1)
  then show ?thesis by (auto simp: sse_byte_def check_buffer_Inr in_budget_def)
next
  case (Inr p1)
  with end_line_budget [OF assms, of cur p1] show ?thesis
    by (cases "b = LF \<or> b = CR") (auto simp: sse_byte_def check_buffer_Inr in_budget_def res_bind_Inr_iff)
qed

lemma sse_byte_counted:
  assumes "counted_ok cf fr n" and "sse_byte el cf l b (fr, n, p) = Inr (fr', n', p')"
  shows "counted_ok cf fr' n' \<and> length (filter cf fr) \<le> length (filter cf fr')"
proof (cases "bom_step p b")
  case (Inl p1)
  with assms show ?thesis by (auto simp: sse_byte_def check_buffer_Inr)
next
  case (Inr p1)
  with end_line_counted [OF assms(1), of el p1] assms show ?thesis
    by (cases "b = LF \<or> b = CR") (auto simp: sse_byte_def check_buffer_Inr res_bind_Inr_iff)
qed

lemma sse_loop_counted:
  assumes "counted_ok cf fr n" and "sse_loop el cf (fr, n, p) xs = Inr (fr', n', p')"
  shows "length (filter cf fr) \<le> length (filter cf fr')"
  using assms
proof (induction xs arbitrary: fr n p rule: length_induct)
  case (1 xs)
  show ?case
  proof (cases xs)
    case Nil
    with "1.prems" show ?thesis by simp
  next
    case (Cons b rest)
    then obtain fr1 n1 p1 where byte: "sse_byte el cf (rest = []) b (fr, n, p) = Inr (fr1, n1, p1)"
      using "1.prems"(2) by (cases "sse_byte el cf (rest = []) b (fr, n, p)") auto
    let ?zs = "if b = CR \<and> rest \<noteq> [] \<and> hd rest = LF then tl rest else rest"
    have "sse_loop el cf (fr1, n1, p1) ?zs = Inr (fr', n', p')"
      using "1.prems"(2) sse_loop_Cons [OF byte] by (simp add: Cons)
    moreover have "length ?zs < length xs" by (auto simp: Cons less_Suc_eq_le)
    ultimately have "length (filter cf fr1) \<le> length (filter cf fr')"
      using "1.IH" sse_byte_counted [OF "1.prems"(1) byte] by blast
    with sse_byte_counted [OF "1.prems"(1) byte] show ?thesis by simp
  qed
qed

lemma sse_loop_budget:
  assumes "counted_ok cf fr n" and mx: "mx < u64_max"
  shows "sse_loop (Some (cur, mx)) cf (fr, n, p) xs = Inr (fr', n', p') \<longleftrightarrow>
    sse_loop None cf (fr, n, p) xs = Inr (fr', n', p') \<and> in_budget cur mx cf fr fr'"
  using assms(1)
proof (induction xs arbitrary: fr n p rule: length_induct)
  case (1 xs)
  show ?case
  proof (cases xs)
    case Nil
    then show ?thesis by (auto simp: in_budget_def)
  next
    case (Cons b rest)
    let ?B = "\<lambda>el. sse_byte el cf (rest = []) b (fr, n, p)"
    let ?zs = "if b = CR \<and> rest \<noteq> [] \<and> hd rest = LF then tl rest else rest"
    have len: "length ?zs < length xs" by (auto simp: Cons less_Suc_eq_le)
    show ?thesis
    proof (cases "?B None")
      case (Inl e)
      then have "\<nexists>a. ?B (Some (cur, mx)) = Inr a" using sse_byte_budget [OF "1.prems" mx] by auto
      then obtain e' where "?B (Some (cur, mx)) = Inl e'" by (cases "?B (Some (cur, mx))") auto
      with Inl show ?thesis by (simp add: Cons)
    next
      case (Inr a)
      obtain fr1 n1 p1 where "a = (fr1, n1, p1)" by (metis prod_cases3)
      with Inr have none: "?B None = Inr (fr1, n1, p1)" by simp
      have c1: "counted_ok cf fr1 n1" "length (filter cf fr) \<le> length (filter cf fr1)"
        using sse_byte_counted [OF "1.prems" none] by auto
      note IH = "1.IH" [rule_format, OF len c1(1), of p1]
      show ?thesis
      proof (cases "in_budget cur mx cf fr fr1")
        case True
        then have some: "?B (Some (cur, mx)) = Inr (fr1, n1, p1)" using sse_byte_budget [OF "1.prems" mx] none by blast
        have "in_budget cur mx cf fr1 fr' = in_budget cur mx cf fr fr'" if "sse_loop None cf (fr1, n1, p1) ?zs = Inr (fr', n', p')"
          using sse_loop_counted [OF c1(1) that] c1(2) True by (auto simp: in_budget_def)
        with IH show ?thesis unfolding Cons sse_loop_Cons [OF some] sse_loop_Cons [OF none] by blast
      next
        case False
        then have "\<nexists>a. ?B (Some (cur, mx)) = Inr a" using sse_byte_budget [OF "1.prems" mx] none by auto
        then obtain e' where e': "?B (Some (cur, mx)) = Inl e'" by (cases "?B (Some (cur, mx))") auto
        have "\<not> in_budget cur mx cf fr fr'" if "sse_loop None cf (fr1, n1, p1) ?zs = Inr (fr', n', p')"
          using sse_loop_counted [OF c1(1) that] c1(2) False by (auto simp: in_budget_def)
        with e' show ?thesis unfolding Cons sse_loop_Cons [OF none] by (simp add: Cons)
      qed
    qed
  qed
qed


section \<open>Properties\<close>

text \<open>Feeding a stream chunk by chunk; the first error ends it.\<close>

definition sse_feed :: "sse_parser \<Rightarrow> bytes list \<Rightarrow> sse_result" where
  "sse_feed = feed parse_chunk"

lemma parse_chunk_Nil: "sp_ok p \<Longrightarrow> parse_chunk p [] = (Inr [], p)"
  unfolding parse_chunk_def parse_chunk_inner_def by (simp only: sp_ok_scratch if_True simp_thms)

interpretation sse: chunked_parser parse_chunk sp_ok
  by unfold_locales (rule parse_chunk_Nil, assumption, rule parse_chunk_append)

lemma parse_chunk_inner_Inr:
  "chunk \<noteq> [] \<Longrightarrow> parse_chunk_inner p chunk el cf = (Inr fs, p') \<longleftrightarrow>
     (\<exists>n q. sse_loop el cf ([], 0, p\<lparr>sp_prev_cr := False\<rparr>)
               (if sp_prev_cr p \<and> hd chunk = LF then tl chunk else chunk) = Inr (fs, n, q) \<and>
             p' = q\<lparr>sp_scratch_bytes := buffered_bytes q\<rparr>)"
  by (auto simp: parse_chunk_inner_def split: sum.split)

lemma sse_feed_keeps:
  assumes "sp_ok p" and "check_buffer_limit p = None" and "sse_feed p cs = (Inr fs, q)"
  shows "sp_ok q \<and> check_buffer_limit q = None \<and> sp_max_buffer_bytes q = sp_max_buffer_bytes p"
proof (cases "concat cs = []")
  case True
  from sse.feed_ok [OF assms(1)] assms(3) have "parse_chunk p [] = (Inr fs, q)" unfolding sse_feed_def True [symmetric] by blast
  with parse_chunk_Nil [OF assms(1)] assms show ?thesis by simp
next
  case False
  let ?xs = "if sp_prev_cr p \<and> hd (concat cs) = LF then tl (concat cs) else concat cs"
  have "parse_chunk p (concat cs) = (Inr fs, q)" using sse.feed_ok [OF assms(1)] assms(3) unfolding sse_feed_def by blast
  then obtain n r where r: "sse_loop None (\<lambda>_. True) ([], 0, p\<lparr>sp_prev_cr := False\<rparr>) ?xs = Inr (fs, n, r)"
    "q = r\<lparr>sp_scratch_bytes := buffered_bytes r\<rparr>"
    unfolding parse_chunk_def parse_chunk_inner_Inr [OF False] by blast
  have ok: "sp_ok (p\<lparr>sp_prev_cr := False\<rparr>)" using assms(1) by simp
  have "sp_ok r" "?xs \<noteq> [] \<Longrightarrow> check_buffer_limit r = None" using sse_loop_ok [OF ok r(1)] by blast+
  moreover have "sp_max_buffer_bytes r = sp_max_buffer_bytes p" using sse_loop_max [OF ok r(1)] by simp
  moreover have "check_buffer_limit r = None" if "?xs = []"
  proof -
    from r(1) [unfolded that] have "r = p\<lparr>sp_prev_cr := False\<rparr>" by simp
    with assms(2) show ?thesis by simp
  qed
  ultimately show ?thesis using r(2) sp_ok_scratch by metis
qed

lemma check_buffer_limit_new: "check_buffer_limit (sse_parser_new limit) = None"
  by (simp add: check_buffer_limit_def sse_parser_new_def)

text \<open>
  C15. How a stream is cut into chunks makes no difference: feeding any list of chunks to a new
  parser gives the frames, or the error, that parsing their concatenation in one call gives; a
  line terminator, a field or the byte order mark may be split anywhere.
\<close>

theorem sse_chunking_irrelevant:
  "fst (sse_feed (sse_parser_new limit) cs) = fst (parse_chunk (sse_parser_new limit) (concat cs))"
  unfolding sse_feed_def by (rule sse.feed_concat [OF sp_ok_new])

text \<open>
  C11. The parser reads the stream line by line: with a buffer limit of three times the length of
  the input it raises no error, and the frames are those of the reference reading, which drops a
  byte order mark, splits at LF, CR and CRLF, joins the data fields of a frame with line feeds,
  keeps the last event field, ignores comments and unknown fields and emits at blank lines.
\<close>

theorem sse_parser_reads_lines:
  assumes "3 * length (concat cs) \<le> limit"
  shows "fst (sse_feed (sse_parser_new limit) cs) = Inr (sse_frames_of (concat cs))"
proof -
  let ?p = "sse_parser_new limit" and ?bs = "concat cs" and ?cf = "\<lambda>_ :: sse_frame. True"
  have p: "?p\<lparr>sp_prev_cr := False\<rparr> = ?p" "retained ?p = 0" "sp_max_buffer_bytes ?p = limit" "\<not> sp_prev_cr ?p"
    by (simp_all add: sse_parser_new_def retained_def bom_prefix_len_def)
  obtain fs n q where loop: "sse_loop None ?cf ([], 0, ?p) ?bs = Inr (fs, n, q)"
    using sse_loop_room [OF sp_ok_new, of limit ?bs ?cf "[]" 0] p assms by auto
  have "fst (parse_chunk ?p ?bs) = Inr fs"
  proof (cases "?bs = []")
    case True
    show ?thesis using loop unfolding True parse_chunk_Nil [OF sp_ok_new] by simp
  next
    case False
    have "parse_chunk ?p ?bs = (Inr fs, q\<lparr>sp_scratch_bytes := buffered_bytes q\<rparr>)"
      unfolding parse_chunk_def parse_chunk_inner_Inr [OF False] p(1) using loop p(4) by auto
    then show ?thesis by simp
  qed
  with sse.feed_concat [OF sp_ok_new, of limit cs] sse_loop_from_start [OF loop] show ?thesis by (simp add: sse_feed_def)
qed

definition sse_sample :: "bytes list" where
  "sse_sample = [[0xEF, 0xBB], 0xBF # ascii ''event: a'' @ [CR], [LF] @ ascii ''data: x'' @ [LF] @ ascii ''data:y'',
                 [CR, CR], ascii '': note'' @ [LF, LF]]"

theorem sse_parser_reads_lines_witness:
  "3 * length (concat sse_sample) \<le> 1024 \<and>
   fst (sse_feed (sse_parser_new 1024) sse_sample) = Inr (sse_frames_of (concat sse_sample)) \<and>
   sse_frames_of (concat sse_sample) = [\<lparr>sf_event_type = Some (ascii ''a''), sf_data = ascii ''x'' @ [LF] @ ascii ''y''\<rparr>]"
proof -
  have len: "3 * length (concat sse_sample) \<le> 1024" by code_simp
  have "sse_frames_of (concat sse_sample) = [\<lparr>sf_event_type = Some (ascii ''a''), sf_data = ascii ''x'' @ [LF] @ ascii ''y''\<rparr>]"
    by code_simp
  with len sse_parser_reads_lines [OF len] show ?thesis by blast
qed

text \<open>
  The parser never retains more than its limit: after every chunk it accepts, the pending
  byte order mark, the partial line, the data and the event type of the open frame together are
  at most the configured number of bytes.
\<close>

theorem sse_buffer_bounded:
  assumes "sse_feed (sse_parser_new limit) cs = (Inr fs, p)" and "limit < u64_max"
  shows "bom_prefix_len p + length (sp_line_buf p) + length (sp_data_buf p) +
      (case sp_event_type p of None \<Rightarrow> 0 | Some e \<Rightarrow> length e) \<le> limit"
proof -
  have "sp_ok p" "check_buffer_limit p = None" "sp_max_buffer_bytes p = limit"
    using sse_feed_keeps [OF sp_ok_new check_buffer_limit_new assms(1)] by (simp_all add: sse_parser_new_def)
  then have "buffered_bytes p \<le> limit" by (auto simp: check_buffer_limit_def sp_ok_def split: if_splits)
  with assms(2) show ?thesis by (simp add: buffered_bytes_eq min_def split: if_splits)
qed

theorem sse_buffer_bounded_witness:
  "length (sp_data_buf (snd (sse_feed (sse_parser_new 8) [ascii ''data:ab'' @ [LF]]))) = 2 \<and>
   length (sp_line_buf (snd (sse_feed (sse_parser_new 8) [ascii ''data:ab'' @ [LF]]))) +
     length (sp_data_buf (snd (sse_feed (sse_parser_new 8) [ascii ''data:ab'' @ [LF]]))) \<le> 8 \<and>
   fst (sse_feed (sse_parser_new 8) [ascii ''data:abcd'']) = Inl (BufferOverflow 9 8)"
proof -
  let ?r = "sse_feed (sse_parser_new 8) [ascii ''data:ab'' @ [LF]]"
  have "fst ?r = Inr []" "(8 :: nat) < u64_max" "length (sp_data_buf (snd ?r)) = 2"
    "fst (sse_feed (sse_parser_new 8) [ascii ''data:abcd'']) = Inl (BufferOverflow 9 8)" by code_simp+
  with sse_buffer_bounded [of 8 "[ascii ''data:ab'' @ [LF]]" "[]" "snd ?r"] show ?thesis
    by (simp add: prod_eq_iff)
qed

text \<open>
  C37. Event budgets are exact: a chunk is accepted under a budget if and only if it is accepted
  without one and the frames it completes that count fit in what the earlier events left; frames
  that do not count never use the budget, and the frames and the parser state are the same.
\<close>

theorem sse_event_budget_exact:
  assumes "max_events < u64_max"
  shows "parse_chunk_with_counted_event_limit p chunk current max_events cf = (Inr fs, p') \<longleftrightarrow>
    parse_chunk p chunk = (Inr fs, p') \<and>
    (filter cf fs = [] \<or> current + length (filter cf fs) \<le> max_events)"
proof (cases "chunk = []")
  case True
  then show ?thesis
    by (auto simp: parse_chunk_with_counted_event_limit_def parse_chunk_def parse_chunk_inner_def)
next
  case False
  let ?L = "\<lambda>el c. sse_loop el c ([], 0, p\<lparr>sp_prev_cr := False\<rparr>) (if sp_prev_cr p \<and> hd chunk = LF then tl chunk else chunk)"
  have count: "(\<exists>n q. ?L (Some (current, max_events)) cf = Inr (fs, n, q) \<and> p' = q\<lparr>sp_scratch_bytes := buffered_bytes q\<rparr>) \<longleftrightarrow>
      (\<exists>n q. ?L None cf = Inr (fs, n, q) \<and> p' = q\<lparr>sp_scratch_bytes := buffered_bytes q\<rparr>) \<and> in_budget current max_events cf [] fs"
    using sse_loop_budget [OF _ assms, of cf "[]" 0 current] by (simp add: counted_ok_def) blast
  have "no_count (?L None cf) = no_count (?L None (\<lambda>_. True))"
    using sse_loop_prepend [of cf "[]" "[]" 0 _ _ "\<lambda>_. True" 0] by (simp add: prepend_def sum.map_id0 case_prod_eta)
  then have same: "(\<exists>n. ?L None cf = Inr (fs, n, q)) \<longleftrightarrow> (\<exists>n. ?L None (\<lambda>_. True) = Inr (fs, n, q))" for q
    by (cases "?L None cf"; cases "?L None (\<lambda>_. True)") (auto simp: no_count_def)
  show ?thesis
    unfolding parse_chunk_with_counted_event_limit_def parse_chunk_def parse_chunk_inner_Inr [OF False] count
    unfolding in_budget_def using same by (simp only: list.size filter.simps length_0_conv add_0_right) blast
qed

theorem sse_event_budget_exact_witness:
  "fst (parse_chunk_with_counted_event_limit (sse_parser_new 99) (ascii ''data:1'' @ [LF, LF] @ ascii ''data:2'' @ [LF, LF]) 3 5 (\<lambda>_. True)) =
     Inr [\<lparr>sf_event_type = None, sf_data = ascii ''1''\<rparr>, \<lparr>sf_event_type = None, sf_data = ascii ''2''\<rparr>] \<and>
   fst (parse_chunk_with_counted_event_limit (sse_parser_new 99) (ascii ''data:1'' @ [LF, LF] @ ascii ''data:2'' @ [LF, LF]) 4 5 (\<lambda>_. True)) =
     Inl (EventLimitExceeded 6 5)"
proof -
  let ?c = "ascii ''data:1'' @ [LF, LF] @ ascii ''data:2'' @ [LF, LF]"
  let ?fs = "[\<lparr>sf_event_type = None, sf_data = ascii ''1''\<rparr>, \<lparr>sf_event_type = None, sf_data = ascii ''2''\<rparr>]"
  have lt: "(5 :: nat) < u64_max" by code_simp
  have "fst (parse_chunk (sse_parser_new 99) ?c) = Inr ?fs" by code_simp
  then have "parse_chunk (sse_parser_new 99) ?c = (Inr ?fs, snd (parse_chunk (sse_parser_new 99) ?c))" by (simp add: prod_eq_iff)
  then have "parse_chunk_with_counted_event_limit (sse_parser_new 99) ?c 3 5 (\<lambda>_. True) = (Inr ?fs, snd (parse_chunk (sse_parser_new 99) ?c))"
    by (subst sse_event_budget_exact [OF lt]) simp_all
  moreover have "fst (parse_chunk_with_counted_event_limit (sse_parser_new 99) ?c 4 5 (\<lambda>_. True)) = Inl (EventLimitExceeded 6 5)"
    by code_simp
  ultimately show ?thesis by simp
qed

end
