(* ===== verification/Event_Stream.thy ===== *)
theory Event_Stream
  imports Utf8 Chunked
begin

text \<open>
  The decoder of AWS event-stream frames of \<^verbatim>\<open>apis/src/bedrock/eventstream.rs\<close>: an accumulation
  buffer, a bounded frame length, two CRC-32 checks and the typed header block. The checksum
  \<^verbatim>\<open>crc32fast::hash\<close> is the parameter \<open>crc\<close>; nothing is assumed of it. \<open>build_frame\<close> is the encoder the
  source keeps beside the decoder. Shown: a built frame decodes to what was encoded and consumes
  exactly its bytes, the cut of a stream into chunks makes no difference, only frames whose
  checksums match are delivered, errors consume input, and the bytes held are bounded.
\<close>

section \<open>Data\<close>

definition PRELUDE_LEN :: nat where "PRELUDE_LEN = 12"
definition MESSAGE_CRC_LEN :: nat where "MESSAGE_CRC_LEN = 4"
definition MIN_FRAME_LEN :: nat where "MIN_FRAME_LEN = PRELUDE_LEN + MESSAGE_CRC_LEN"

definition HEADER_TYPE_STRING :: byte where "HEADER_TYPE_STRING = 7"
definition HEADER_TYPE_BYTES :: byte where "HEADER_TYPE_BYTES = 6"
definition HEADER_TYPE_BOOL_TRUE :: byte where "HEADER_TYPE_BOOL_TRUE = 0"
definition HEADER_TYPE_BOOL_FALSE :: byte where "HEADER_TYPE_BOOL_FALSE = 1"
definition HEADER_TYPE_BYTE :: byte where "HEADER_TYPE_BYTE = 2"
definition HEADER_TYPE_SHORT :: byte where "HEADER_TYPE_SHORT = 3"
definition HEADER_TYPE_INT :: byte where "HEADER_TYPE_INT = 4"
definition HEADER_TYPE_LONG :: byte where "HEADER_TYPE_LONG = 5"
definition HEADER_TYPE_TIMESTAMP :: byte where "HEADER_TYPE_TIMESTAMP = 8"
definition HEADER_TYPE_UUID :: byte where "HEADER_TYPE_UUID = 9"

lemmas header_types = HEADER_TYPE_STRING_def HEADER_TYPE_BYTES_def HEADER_TYPE_BOOL_TRUE_def
  HEADER_TYPE_BOOL_FALSE_def HEADER_TYPE_BYTE_def HEADER_TYPE_SHORT_def HEADER_TYPE_INT_def
  HEADER_TYPE_LONG_def HEADER_TYPE_TIMESTAMP_def HEADER_TYPE_UUID_def

lemmas frame_lens = PRELUDE_LEN_def MESSAGE_CRC_LEN_def MIN_FRAME_LEN_def

datatype header_value = HString bytes | HOther

record event_stream_header =
  eh_name :: bytes
  eh_value :: header_value

record event_stream_message =
  em_headers :: "event_stream_header list"
  em_payload :: bytes

datatype decode_error =
    FrameTooShort nat
  | FrameTooLarge nat nat
  | PreludeCrcMismatch "32 word" "32 word"
  | MessageCrcMismatch "32 word" "32 word"
  | HeadersExceedFrame nat nat
  | TruncatedHeader
  | InvalidUtf8InHeader
  | UnknownHeaderType byte

record event_stream_decoder =
  ed_buf :: bytes
  ed_max_frame_len :: nat

section \<open>Big-endian fields\<close>

text \<open>\<^verbatim>\<open>from_be_bytes\<close> and \<^verbatim>\<open>to_be_bytes\<close>.\<close>

definition be_val :: "bytes \<Rightarrow> nat" where
  "be_val bs = foldl (\<lambda>a b. a * 256 + unat b) 0 bs"

primrec be_bytes :: "nat \<Rightarrow> nat \<Rightarrow> bytes" where
  "be_bytes 0 n = []"
| "be_bytes (Suc k) n = be_bytes k (n div 256) @ [word_of_nat (n mod 256)]"

definition be_u32 :: "bytes \<Rightarrow> 32 word" where
  "be_u32 bs = word_of_nat (be_val bs)"

section \<open>Messages\<close>

fun header_find :: "bytes \<Rightarrow> event_stream_header list \<Rightarrow> bytes option" where
  "header_find name [] = None"
| "header_find name (h # hs) =
     (if eh_name h = name then
        (case eh_value h of HString s \<Rightarrow> Some s | HOther \<Rightarrow> header_find name hs)
      else header_find name hs)"

definition header_str :: "event_stream_message \<Rightarrow> bytes \<Rightarrow> bytes option" where
  "header_str m name = header_find name (em_headers m)"

definition event_type :: "event_stream_message \<Rightarrow> bytes option" where
  "event_type m = header_str m (ascii '':event-type'')"

definition message_type :: "event_stream_message \<Rightarrow> bytes option" where
  "message_type m = header_str m (ascii '':message-type'')"

definition is_exception :: "event_stream_message \<Rightarrow> bool" where
  "is_exception m \<longleftrightarrow> message_type m = Some (ascii ''exception'')"

section \<open>Header block\<close>

definition read_u16_prefix_len :: "bytes \<Rightarrow> decode_error + nat \<times> bytes" where
  "read_u16_prefix_len data =
     (if length data < 2 then Inl TruncatedHeader else Inr (be_val (take 2 data), drop 2 data))"

definition read_length_prefixed_string :: "bytes \<Rightarrow> decode_error + bytes \<times> bytes" where
  "read_length_prefixed_string data =
     res_bind (read_u16_prefix_len data) (\<lambda>(len, rest).
       if length rest < len then Inl TruncatedHeader
       else res_bind (ok_or (from_utf8 (take len rest)) InvalidUtf8InHeader) (\<lambda>s. Inr (s, drop len rest)))"

definition skip :: "bytes \<Rightarrow> nat \<Rightarrow> decode_error + bytes" where
  "skip data n = (if length data < n then Inl TruncatedHeader else Inr (drop n data))"

definition decode_value :: "byte \<Rightarrow> bytes \<Rightarrow> decode_error + header_value \<times> bytes" where
  "decode_value t data =
     (if t = HEADER_TYPE_STRING then
        res_bind (read_length_prefixed_string data) (\<lambda>(s, rest). Inr (HString s, rest))
      else if t = HEADER_TYPE_BYTES then
        res_bind (read_u16_prefix_len data) (\<lambda>(len, rest).
          if length rest < len then Inl TruncatedHeader else Inr (HOther, drop len rest))
      else if t = HEADER_TYPE_BOOL_TRUE \<or> t = HEADER_TYPE_BOOL_FALSE then Inr (HOther, data)
      else if t = HEADER_TYPE_BYTE then res_bind (skip data 1) (\<lambda>rest. Inr (HOther, rest))
      else if t = HEADER_TYPE_SHORT then res_bind (skip data 2) (\<lambda>rest. Inr (HOther, rest))
      else if t = HEADER_TYPE_INT then res_bind (skip data 4) (\<lambda>rest. Inr (HOther, rest))
      else if t = HEADER_TYPE_LONG \<or> t = HEADER_TYPE_TIMESTAMP then
        res_bind (skip data 8) (\<lambda>rest. Inr (HOther, rest))
      else if t = HEADER_TYPE_UUID then res_bind (skip data 16) (\<lambda>rest. Inr (HOther, rest))
      else Inl (UnknownHeaderType t))"

definition decode_header :: "byte \<Rightarrow> bytes \<Rightarrow> decode_error + event_stream_header \<times> bytes" where
  "decode_header n data =
     (let name_len = unat n
      in if length data < name_len then Inl TruncatedHeader
         else res_bind (ok_or (from_utf8 (take name_len data)) InvalidUtf8InHeader) (\<lambda>name.
           case drop name_len data of
             [] \<Rightarrow> Inl TruncatedHeader
           | t # rest \<Rightarrow>
               res_bind (decode_value t rest) (\<lambda>(v, rest'). Inr (\<lparr>eh_name = name, eh_value = v\<rparr>, rest'))))"

lemma decode_value_shrinks: "decode_value t data = Inr (v, rest) \<Longrightarrow> length rest \<le> length data"
  by (auto simp: decode_value_def skip_def read_length_prefixed_string_def read_u16_prefix_len_def
      res_bind_Inr_iff split: if_splits)

lemma decode_header_shrinks: "decode_header n data = Inr (h, rest) \<Longrightarrow> length rest \<le> length data"
proof -
  assume "decode_header n data = Inr (h, rest)"
  then obtain t rest0 v where d: "drop (unat n) data = t # rest0" "decode_value t rest0 = Inr (v, rest)"
    by (cases "drop (unat n) data") (auto simp: decode_header_def Let_def res_bind_Inr_iff split: if_splits)
  have "length (drop (unat n) data) = Suc (length rest0)" by (simp only: d(1) list.size)
  with decode_value_shrinks [OF d(2)] show ?thesis by simp
qed

function decode_headers :: "bytes \<Rightarrow> decode_error + event_stream_header list" where
  "decode_headers [] = Inr []"
| "decode_headers (n # data) =
     (case decode_header n data of
        Inl e \<Rightarrow> Inl e
      | Inr (h, rest) \<Rightarrow> res_bind (decode_headers rest) (\<lambda>hs. Inr (h # hs)))"
  by pat_completeness auto
termination
  by (relation "measure length") (auto dest: decode_header_shrinks)

section \<open>Decoder\<close>

definition with_max_frame_len :: "nat \<Rightarrow> event_stream_decoder" where
  "with_max_frame_len n = \<lparr>ed_buf = [], ed_max_frame_len = n\<rparr>"

definition decoder_is_empty :: "event_stream_decoder \<Rightarrow> bool" where
  "decoder_is_empty d \<longleftrightarrow> ed_buf d = []"

definition push :: "event_stream_decoder \<Rightarrow> bytes \<Rightarrow> event_stream_decoder" where
  "push d data = d\<lparr>ed_buf := ed_buf d @ data\<rparr>"

text \<open>The checks on a complete frame of \<open>total_len\<close> bytes.\<close>

definition decode_frame :: "(bytes \<Rightarrow> 32 word) \<Rightarrow> nat \<Rightarrow> nat \<Rightarrow> bytes \<Rightarrow> decode_error + event_stream_message" where
  "decode_frame crc total_len headers_len frame =
     (let prelude_crc_stored = be_u32 (take 4 (drop 8 frame));
          prelude_crc_computed = crc (take 8 frame);
          msg_crc_stored = be_u32 (take 4 (drop (total_len - 4) frame));
          msg_crc_computed = crc (take (total_len - MESSAGE_CRC_LEN) frame);
          headers_start = PRELUDE_LEN;
          headers_end = headers_start + headers_len
      in if prelude_crc_computed \<noteq> prelude_crc_stored then
           Inl (PreludeCrcMismatch prelude_crc_stored prelude_crc_computed)
         else if msg_crc_computed \<noteq> msg_crc_stored then
           Inl (MessageCrcMismatch msg_crc_stored msg_crc_computed)
         else if total_len - MESSAGE_CRC_LEN < headers_end then
           Inl (HeadersExceedFrame headers_len total_len)
         else res_bind (decode_headers (take headers_len (drop headers_start frame))) (\<lambda>headers.
           Inr \<lparr>em_headers = headers,
                em_payload = take (total_len - MESSAGE_CRC_LEN - headers_end) (drop headers_end frame)\<rparr>))"

definition decode :: "(bytes \<Rightarrow> 32 word) \<Rightarrow> event_stream_decoder \<Rightarrow>
    (decode_error + event_stream_message option) \<times> event_stream_decoder" where
  "decode crc d =
     (if length (ed_buf d) < PRELUDE_LEN then (Inr None, d)
      else
        (let total_len = be_val (take 4 (ed_buf d));
             headers_len = be_val (take 4 (drop 4 (ed_buf d)))
         in if total_len < MIN_FRAME_LEN then
              (Inl (FrameTooShort total_len), d\<lparr>ed_buf := drop PRELUDE_LEN (ed_buf d)\<rparr>)
            else if ed_max_frame_len d < total_len then
              (Inl (FrameTooLarge total_len (ed_max_frame_len d)), d\<lparr>ed_buf := []\<rparr>)
            else if length (ed_buf d) < total_len then (Inr None, d)
            else (res_bind (decode_frame crc total_len headers_len (take total_len (ed_buf d))) (\<lambda>m. Inr (Some m)),
                  d\<lparr>ed_buf := drop total_len (ed_buf d)\<rparr>)))"

lemma decode_shrinks:
  "decode crc d = (Inr (Some m), d') \<Longrightarrow> length (ed_buf d') < length (ed_buf d)"
  by (auto simp: decode_def Let_def frame_lens split: if_splits)

function decode_all :: "(bytes \<Rightarrow> 32 word) \<Rightarrow> event_stream_decoder \<Rightarrow>
    (decode_error + event_stream_message list) \<times> event_stream_decoder" where
  "decode_all crc d =
     (case decode crc d of
        (Inl e, d') \<Rightarrow> (Inl e, d')
      | (Inr None, d') \<Rightarrow> (Inr [], d')
      | (Inr (Some m), d') \<Rightarrow>
          (case decode_all crc d' of
             (Inl e, d'') \<Rightarrow> (Inl e, d'')
           | (Inr ms, d'') \<Rightarrow> (Inr (m # ms), d'')))"
  by pat_completeness auto
termination
  by (relation "measure (\<lambda>(_, d). length (ed_buf d))") (auto dest: sym decode_shrinks)

declare decode_all.simps [simp del]

section \<open>Encoder\<close>

text \<open>\<open>None\<close> is a panic: a length that does not fit its prefix.\<close>

definition build_header :: "bytes \<times> bytes \<Rightarrow> bytes option" where
  "build_header nv =
     (case nv of (name, v) \<Rightarrow>
       if 255 < length name \<or> 65535 < length v then None
       else Some ([word_of_nat (length name)] @ name @ [HEADER_TYPE_STRING] @ be_bytes 2 (length v) @ v))"

fun build_headers :: "(bytes \<times> bytes) list \<Rightarrow> bytes option" where
  "build_headers [] = Some []"
| "build_headers (nv # nvs) =
     (case build_header nv of
        None \<Rightarrow> None
      | Some b \<Rightarrow> (case build_headers nvs of None \<Rightarrow> None | Some bs \<Rightarrow> Some (b @ bs)))"

definition build_frame :: "(bytes \<Rightarrow> 32 word) \<Rightarrow> (bytes \<times> bytes) list \<Rightarrow> bytes \<Rightarrow> bytes option" where
  "build_frame crc headers payload =
     (case build_headers headers of
        None \<Rightarrow> None
      | Some header_bytes \<Rightarrow>
          (let total_len = MIN_FRAME_LEN + length header_bytes + length payload
           in if 2 ^ 32 \<le> total_len then None
              else
                (let prelude = be_bytes 4 total_len @ be_bytes 4 (length header_bytes);
                     frame = prelude @ be_bytes 4 (unat (crc prelude)) @ header_bytes @ payload
                 in Some (frame @ be_bytes 4 (unat (crc frame))))))"

section \<open>Round trip\<close>

lemma be_bytes_length [simp]: "length (be_bytes k n) = k"
  by (induction k arbitrary: n) auto

lemma be_val_snoc: "be_val (bs @ [b]) = be_val bs * 256 + unat b"
  by (simp add: be_val_def)

lemma be_val_be_bytes: "n < 256 ^ k \<Longrightarrow> be_val (be_bytes k n) = n"
proof (induction k arbitrary: n)
  case 0
  then show ?case by (simp add: be_val_def)
next
  case (Suc k)
  have "n div 256 < 256 ^ k" using Suc.prems by (simp add: less_mult_imp_div_less mult.commute)
  moreover have "unat (word_of_nat (n mod 256) :: byte) = n mod 256"
    by (simp add: unat_of_nat take_bit_eq_mod)
  ultimately show ?case using Suc.IH by (simp add: be_val_snoc)
qed

lemma be_u32_be_bytes: "be_u32 (be_bytes 4 (unat (w :: 32 word))) = w"
proof -
  have "unat w < 256 ^ 4" using unsigned_less [of w] by simp
  then show ?thesis by (simp add: be_u32_def be_val_be_bytes)
qed

definition string_headers :: "(bytes \<times> bytes) list \<Rightarrow> event_stream_header list" where
  "string_headers nvs = map (\<lambda>(n, v). \<lparr>eh_name = n, eh_value = HString v\<rparr>) nvs"

definition headers_utf8 :: "(bytes \<times> bytes) list \<Rightarrow> bool" where
  "headers_utf8 nvs \<longleftrightarrow> list_all (\<lambda>(n, v). utf8_valid n \<and> utf8_valid v) nvs"

lemma decode_value_string:
  assumes "length v \<le> 65535" and "utf8_valid v"
  shows "decode_value HEADER_TYPE_STRING (be_bytes 2 (length v) @ v @ rest) = Inr (HString v, rest)"
  using assms be_val_be_bytes [of "length v" 2]
  by (simp add: decode_value_def read_length_prefixed_string_def read_u16_prefix_len_def from_utf8_def)

lemma decode_header_built:
  assumes "build_header (name, v) = Some b" and "utf8_valid name" and "utf8_valid v"
  shows "\<exists>t. b = word_of_nat (length name) # t \<and>
    decode_header (word_of_nat (length name)) (t @ rest) = Inr (\<lparr>eh_name = name, eh_value = HString v\<rparr>, rest)"
proof -
  have len: "length name \<le> 255" "length v \<le> 65535" and
    b: "b = word_of_nat (length name) # (name @ HEADER_TYPE_STRING # be_bytes 2 (length v) @ v)"
    using assms(1) by (auto simp: build_header_def split: if_splits)
  have "unat (word_of_nat (length name) :: byte) = length name"
    using len(1) by (simp add: unat_of_nat take_bit_eq_mod)
  then have "decode_header (word_of_nat (length name)) ((name @ HEADER_TYPE_STRING # be_bytes 2 (length v) @ v) @ rest) =
      Inr (\<lparr>eh_name = name, eh_value = HString v\<rparr>, rest)"
    using assms(2) decode_value_string [OF len(2) assms(3)] by (simp add: decode_header_def from_utf8_def)
  with b show ?thesis by blast
qed

lemma decode_headers_built:
  "build_headers nvs = Some bs \<Longrightarrow> headers_utf8 nvs \<Longrightarrow> decode_headers bs = Inr (string_headers nvs)"
proof (induction nvs arbitrary: bs)
  case Nil
  then show ?case by (simp add: string_headers_def)
next
  case (Cons nv nvs)
  obtain name v where nv: "nv = (name, v)" by force
  from Cons.prems(1) obtain b bs' where b: "build_header (name, v) = Some b" "build_headers nvs = Some bs'" "bs = b @ bs'"
    by (auto simp: nv split: option.splits)
  from Cons.prems(2) have utf: "utf8_valid name" "utf8_valid v" "headers_utf8 nvs"
    by (simp_all add: nv headers_utf8_def)
  obtain t where "b = word_of_nat (length name) # t"
    "decode_header (word_of_nat (length name)) (t @ bs') = Inr (\<lparr>eh_name = name, eh_value = HString v\<rparr>, bs')"
    using decode_header_built [OF b(1) utf(1,2), of bs'] by blast
  with b(3) Cons.IH [OF b(2) utf(3)] show ?case by (simp add: nv string_headers_def)
qed

lemma decode_built_frame:
  assumes "build_frame crc hs payload = Some frame" and "headers_utf8 hs"
    and "length frame \<le> ed_max_frame_len d" and buf: "ed_buf d = frame @ rest"
  shows "decode crc d = (Inr (Some \<lparr>em_headers = string_headers hs, em_payload = payload\<rparr>), d\<lparr>ed_buf := rest\<rparr>)"
proof -
  obtain hb where hb: "build_headers hs = Some hb" using assms(1) by (auto simp: build_frame_def split: option.splits)
  define total_len where "total_len = 16 + length hb + length payload"
  define prelude where "prelude = be_bytes 4 total_len @ be_bytes 4 (length hb)"
  define body where "body = prelude @ be_bytes 4 (unat (crc prelude)) @ hb @ payload"
  have frame: "frame = body @ be_bytes 4 (unat (crc body))" and small: "total_len < 2 ^ 32"
    using assms(1) hb by (auto simp: build_frame_def Let_def frame_lens body_def prelude_def total_len_def split: if_splits)
  have len: "length prelude = 8" "length body = total_len - 4" "length frame = total_len" "16 \<le> total_len"
    by (simp_all add: prelude_def body_def frame total_len_def)
  have lens: "be_val (be_bytes 4 total_len) = total_len" "be_val (be_bytes 4 (length hb)) = length hb"
    using small by (simp_all add: be_val_be_bytes total_len_def)
  have dec: "decode_frame crc total_len (length hb) frame = Inr \<lparr>em_headers = string_headers hs, em_payload = payload\<rparr>"
  proof -
    have "take 8 frame = prelude" "take 4 (drop 8 frame) = be_bytes 4 (unat (crc prelude))"
      using len(1) by (simp_all add: frame body_def)
    moreover have "take (total_len - 4) frame = body" "take 4 (drop (total_len - 4) frame) = be_bytes 4 (unat (crc body))"
      using len(2) by (simp_all add: frame)
    moreover have "take (length hb) (drop 12 frame) = hb" using len(1) by (simp add: frame body_def)
    moreover have "take (total_len - 4 - (12 + length hb)) (drop (12 + length hb) frame) = payload"
      using len(1) by (simp add: frame body_def total_len_def)
    moreover have "\<not> total_len - 4 < 12 + length hb" by (simp add: total_len_def)
    ultimately show ?thesis
      by (simp add: decode_frame_def Let_def frame_lens be_u32_be_bytes decode_headers_built [OF hb assms(2)])
  qed
  have "take 4 (ed_buf d) = be_bytes 4 total_len" "take 4 (drop 4 (ed_buf d)) = be_bytes 4 (length hb)"
    "take total_len (ed_buf d) = frame" "drop total_len (ed_buf d) = rest"
    using len by (simp_all add: buf) (simp_all add: frame body_def prelude_def)
  then show ?thesis using len assms(3) dec lens by (simp add: decode_def Let_def frame_lens buf)
qed

section \<open>Chunks\<close>

lemma push_simps [simp]:
  "ed_buf (push d x) = ed_buf d @ x" "ed_max_frame_len (push d x) = ed_max_frame_len d" "push d [] = d"
  "push (push d x) y = push d (x @ y)"
  by (simp_all add: push_def)

text \<open>More input does not change what is decoded.\<close>

lemma decode_push:
  "decode crc d = (Inr (Some m), d') \<Longrightarrow> decode crc (push d x) = (Inr (Some m), push d' x)"
  by (auto simp: decode_def Let_def frame_lens push_def res_bind_Inr_iff split: if_splits)

lemma decode_push_error:
  "decode crc d = (Inl e, d') \<Longrightarrow> fst (decode crc (push d x)) = Inl e"
  by (auto simp: decode_def Let_def frame_lens split: if_splits)

lemma decode_none: "decode crc d = (Inr None, d') \<Longrightarrow> d' = d"
  by (auto simp: decode_def Let_def res_bind_Inr_iff split: if_splits)

lemma decode_all_push:
  "case decode_all crc d of
     (Inl e, _) \<Rightarrow> fst (decode_all crc (push d x)) = Inl e
   | (Inr ms, d1) \<Rightarrow> decode crc d1 = (Inr None, d1) \<and>
       decode_all crc (push d x) =
         (case decode_all crc (push d1 x) of (Inl e, d2) \<Rightarrow> (Inl e, d2) | (Inr ms', d2) \<Rightarrow> (Inr (ms @ ms'), d2))"
proof (induction crc d rule: decode_all.induct)
  case (1 crc d)
  obtain r d1 where r: "decode crc d = (r, d1)" by force
  show ?case
  proof (cases r)
    case (Inl e)
    with r have "fst (decode crc (push d x)) = Inl e" using decode_push_error by blast
    then obtain d2 where "decode crc (push d x) = (Inl e, d2)" by (cases "decode crc (push d x)") simp
    with r Inl show ?thesis
      by (simp add: decode_all.simps [of crc d] decode_all.simps [of crc "push d x"])
  next
    case (Inr o1)
    show ?thesis
    proof (cases o1)
      case None
      with r Inr decode_none [of crc d d1] show ?thesis
        by (simp add: decode_all.simps [of crc d] split: prod.split sum.split)
    next
      case (Some m)
      with r Inr have d: "decode crc d = (Inr (Some m), d1)" by simp
      have all: "decode_all crc d = (case decode_all crc d1 of (Inl e, d'') \<Rightarrow> (Inl e, d'') | (Inr ms, d'') \<Rightarrow> (Inr (m # ms), d''))"
        by (simp add: decode_all.simps [of crc d] d)
      have allx: "decode_all crc (push d x) = (case decode_all crc (push d1 x) of (Inl e, d'') \<Rightarrow> (Inl e, d'') | (Inr ms, d'') \<Rightarrow> (Inr (m # ms), d''))"
        by (simp add: decode_all.simps [of crc "push d x"] decode_push [OF d])
      note IH = "1.IH" [OF d [symmetric] refl refl]
      obtain r2 d2 where r2: "decode_all crc d1 = (r2, d2)" by force
      show ?thesis
      proof (cases r2)
        case (Inl e)
        with IH r2 show ?thesis unfolding all allx by (cases "decode_all crc (push d1 x)") simp
      next
        case (Inr ms)
        with IH r2 have "decode crc d2 = (Inr None, d2)" and
          "decode_all crc (push d1 x) = (case decode_all crc (push d2 x) of (Inl e, d2) \<Rightarrow> (Inl e, d2) | (Inr ms', d2) \<Rightarrow> (Inr (ms @ ms'), d2))" by auto
        with Inr r2 show ?thesis unfolding all allx by (simp split: prod.split sum.split)
      qed
    qed
  qed
qed

text \<open>Delivering a response body: push each chunk and drain; the first error ends it.\<close>

definition push_decode_all :: "(bytes \<Rightarrow> 32 word) \<Rightarrow> event_stream_decoder \<Rightarrow> bytes \<Rightarrow>
    (decode_error + event_stream_message list) \<times> event_stream_decoder" where
  "push_decode_all crc d data = decode_all crc (push d data)"

definition es_feed :: "(bytes \<Rightarrow> 32 word) \<Rightarrow> event_stream_decoder \<Rightarrow> bytes list \<Rightarrow>
    (decode_error + event_stream_message list) \<times> event_stream_decoder" where
  "es_feed crc = feed (push_decode_all crc)"

text \<open>A decoder between chunks holds no complete frame.\<close>

definition drained :: "(bytes \<Rightarrow> 32 word) \<Rightarrow> event_stream_decoder \<Rightarrow> bool" where
  "drained crc d \<longleftrightarrow> decode crc d = (Inr None, d)"

interpretation es: chunked_parser "push_decode_all crc" "drained crc" for crc
proof unfold_locales
  show "push_decode_all crc d [] = (Inr [], d)" if "drained crc d" for d
    using that by (simp add: push_decode_all_def drained_def decode_all.simps [of crc d])
  show "case push_decode_all crc d xs of
      (Inl e, _) \<Rightarrow> fst (push_decode_all crc d (xs @ ys)) = Inl e
    | (Inr f1, s1) \<Rightarrow> drained crc s1 \<and> push_decode_all crc d (xs @ ys) =
        (case push_decode_all crc s1 ys of (Inl e, s2) \<Rightarrow> (Inl e, s2) | (Inr f2, s2) \<Rightarrow> (Inr (f1 @ f2), s2))" for d xs ys
    using decode_all_push [of crc "push d xs" ys] unfolding push_decode_all_def drained_def push_simps .
qed

lemma drained_new: "drained crc (with_max_frame_len n)"
  by (simp add: drained_def decode_def with_max_frame_len_def frame_lens)

lemma decode_all_built:
  assumes "list_all2 (\<lambda>(hs, payload) f. build_frame crc hs payload = Some f \<and> headers_utf8 hs \<and> length f \<le> n) specs fs"
  shows "decode_all crc \<lparr>ed_buf = concat fs, ed_max_frame_len = n\<rparr> =
    (Inr (map (\<lambda>(hs, payload). \<lparr>em_headers = string_headers hs, em_payload = payload\<rparr>) specs), with_max_frame_len n)"
  using assms
proof (induction specs fs rule: list_all2_induct)
  case Nil
  then show ?case using drained_new [of crc n] by (subst decode_all.simps) (simp add: drained_def with_max_frame_len_def)
next
  case (Cons s specs f fs)
  obtain hs payload where s: "s = (hs, payload)" by force
  have "decode crc \<lparr>ed_buf = f @ concat fs, ed_max_frame_len = n\<rparr> =
      (Inr (Some \<lparr>em_headers = string_headers hs, em_payload = payload\<rparr>), \<lparr>ed_buf = concat fs, ed_max_frame_len = n\<rparr>)"
    using decode_built_frame [of crc hs payload f "\<lparr>ed_buf = f @ concat fs, ed_max_frame_len = n\<rparr>" "concat fs"] Cons.hyps(1)
    by (simp add: s)
  with Cons.IH show ?case by (simp add: s decode_all.simps [of crc "\<lparr>ed_buf = f @ concat fs, ed_max_frame_len = n\<rparr>"])
qed

lemma es_feed_built:
  assumes "list_all2 (\<lambda>(hs, payload) f. build_frame crc hs payload = Some f \<and> headers_utf8 hs \<and> length f \<le> n) specs fs"
    and "concat cs = concat fs"
  shows "es_feed crc (with_max_frame_len n) cs =
    (Inr (map (\<lambda>(hs, payload). \<lparr>em_headers = string_headers hs, em_payload = payload\<rparr>) specs), with_max_frame_len n)"
proof -
  have "push (with_max_frame_len n) (concat cs) = \<lparr>ed_buf = concat fs, ed_max_frame_len = n\<rparr>"
    by (simp add: push_def with_max_frame_len_def assms(2))
  with decode_all_built [OF assms(1)] show ?thesis
    unfolding es_feed_def by (intro es.feed_of_run drained_new) (simp add: push_decode_all_def)
qed

section \<open>Properties\<close>

text \<open>
  C5. Round trip over a chunked transport: encode any list of header lists and payloads as frames,
  cut the concatenation into chunks in any way, and feed the chunks to a decoder whose limit admits
  the frames; it delivers exactly the encoded messages, in order and once each, and ends with an
  empty buffer. This holds for every checksum function.
\<close>

theorem event_stream_roundtrip:
  assumes "list_all2 (\<lambda>(hs, payload) f. build_frame crc hs payload = Some f \<and> headers_utf8 hs \<and> length f \<le> n) specs frames"
    and "concat chunks = concat frames"
  shows "es_feed crc (with_max_frame_len n) chunks =
    (Inr (map (\<lambda>(hs, payload). \<lparr>em_headers = string_headers hs, em_payload = payload\<rparr>) specs), with_max_frame_len n)"
  using assms by (rule es_feed_built)

text \<open>A concrete checksum and two frames cut inside the prelude and inside a header.\<close>

definition sum_crc :: "bytes \<Rightarrow> 32 word" where
  "sum_crc bs = word_of_nat (sum_list (map unat bs))"

definition es_specs :: "((bytes \<times> bytes) list \<times> bytes) list" where
  "es_specs = [([(ascii '':event-type'', ascii ''messageStart'')], ascii ''{}''), ([], [])]"

definition es_frames :: "bytes list" where
  "es_frames = map (\<lambda>(hs, payload). the (build_frame sum_crc hs payload)) es_specs"

theorem event_stream_roundtrip_witness:
  "es_feed sum_crc (with_max_frame_len 64) [take 5 (concat es_frames), take 20 (drop 5 (concat es_frames)), drop 25 (concat es_frames)] =
     (Inr (map (\<lambda>(hs, payload). \<lparr>em_headers = string_headers hs, em_payload = payload\<rparr>) es_specs), with_max_frame_len 64) \<and>
   length (concat es_frames) = 61"
proof -
  have built: "list_all2 (\<lambda>(hs, payload) f. build_frame sum_crc hs payload = Some f \<and> headers_utf8 hs \<and> length f \<le> 64) es_specs es_frames"
    by code_simp
  have cut: "concat [take 5 bs, take 20 (drop 5 bs), drop 25 bs] = bs" for bs :: bytes
    using append_take_drop_id [of 20 "drop 5 bs"] by simp
  have "concat [take 5 (concat es_frames), take 20 (drop 5 (concat es_frames)), drop 25 (concat es_frames)] = concat es_frames"
    by (rule cut)
  from event_stream_roundtrip [OF built this] show ?thesis by (rule conjI) code_simp
qed

text \<open>
  C27. Only checked frames are delivered: a decoded message comes from the first bytes of the buffer,
  which form a frame of the length it declares, within the limits, whose prelude and message
  checksums both match; its headers and payload are the parts of that frame between the prelude and
  the message checksum, and exactly that frame is consumed.
\<close>

theorem decoded_message_is_checked:
  assumes "decode crc d = (Inr (Some m), d')"
  shows "\<exists>frame h. ed_buf d = frame @ ed_buf d' \<and> ed_max_frame_len d' = ed_max_frame_len d \<and>
    be_val (take 4 frame) = length frame \<and> be_val (take 4 (drop 4 frame)) = h \<and>
    16 + h \<le> length frame \<and> length frame \<le> ed_max_frame_len d \<and>
    crc (take 8 frame) = be_u32 (take 4 (drop 8 frame)) \<and>
    crc (take (length frame - 4) frame) = be_u32 (drop (length frame - 4) frame) \<and>
    decode_headers (take h (drop 12 frame)) = Inr (em_headers m) \<and>
    em_payload m = drop (12 + h) (take (length frame - 4) frame)"
proof -
  define total where "total = be_val (take 4 (ed_buf d))"
  define h where "h = be_val (take 4 (drop 4 (ed_buf d)))"
  define frame where "frame = take total (ed_buf d)"
  have a: "16 \<le> total" "total \<le> ed_max_frame_len d" "total \<le> length (ed_buf d)"
    and fr: "decode_frame crc total h frame = Inr m" and d': "d' = d\<lparr>ed_buf := drop total (ed_buf d)\<rparr>"
    using assms by (auto simp: decode_def Let_def frame_lens total_def h_def frame_def res_bind_Inr_iff split: if_splits)
  have len: "length frame = total" using a(3) by (simp add: frame_def)
  have pre: "take 4 frame = take 4 (ed_buf d)" "take 4 (drop 4 frame) = take 4 (drop 4 (ed_buf d))"
    using a(1) by (simp_all add: frame_def drop_take)
  have crcs: "crc (take 8 frame) = be_u32 (take 4 (drop 8 frame))"
      "crc (take (total - 4) frame) = be_u32 (take 4 (drop (total - 4) frame))"
    and fits: "12 + h \<le> total - 4"
    and hs: "decode_headers (take h (drop 12 frame)) = Inr (em_headers m)"
    and pl: "em_payload m = take (total - 4 - (12 + h)) (drop (12 + h) frame)"
    using fr by (auto simp: decode_frame_def Let_def frame_lens res_bind_Inr_iff split: if_splits)
  have "take 4 (drop (total - 4) frame) = drop (total - 4) frame" using a(1) len by simp
  moreover have "take (total - 4 - (12 + h)) (drop (12 + h) frame) = drop (12 + h) (take (total - 4) frame)"
    using fits by (simp add: take_drop)
  moreover have "ed_buf d = frame @ ed_buf d'" "ed_max_frame_len d' = ed_max_frame_len d" by (simp_all add: d' frame_def)
  moreover have "be_val (take 4 frame) = total" "be_val (take 4 (drop 4 frame)) = h" "16 + h \<le> total"
    using pre fits a(1) by (simp_all add: total_def h_def)
  ultimately show ?thesis using crcs hs pl a(2) len
    by (intro exI [of _ frame] exI [of _ h]) simp
qed

theorem decoded_message_is_checked_witness:
  "em_payload \<lparr>em_headers = string_headers (fst (hd es_specs)), em_payload = ascii ''{}''\<rparr> = ascii ''{}'' \<and>
   sum_crc (take 8 (hd es_frames)) = be_u32 (take 4 (drop 8 (hd es_frames)))"
proof -
  let ?d = "\<lparr>ed_buf = concat es_frames, ed_max_frame_len = 64\<rparr>"
  have dec: "decode sum_crc ?d = (Inr (Some \<lparr>em_headers = string_headers (fst (hd es_specs)), em_payload = ascii ''{}''\<rparr>),
      \<lparr>ed_buf = concat (tl es_frames), ed_max_frame_len = 64\<rparr>)" by code_simp
  from decoded_message_is_checked [OF dec] obtain frame where
    fr: "concat es_frames = frame @ concat (tl es_frames)" "sum_crc (take 8 frame) = be_u32 (take 4 (drop 8 frame))" by auto
  moreover have "concat es_frames = hd es_frames @ concat (tl es_frames)" by code_simp
  ultimately show ?thesis by simp
qed



text \<open>
  The bytes held between chunks are bounded: after any chunks that raise no error the buffer is
  shorter than the larger of a prelude and the frame limit, however long the stream.
\<close>

theorem event_stream_buffer_bounded:
  assumes "es_feed crc (with_max_frame_len n) chunks = (Inr ms, d)"
  shows "length (ed_buf d) < max 12 n"
proof -
  have max: "ed_max_frame_len (snd (decode_all crc d0)) = ed_max_frame_len d0" for d0
  proof (induction crc d0 rule: decode_all.induct)
    case (1 crc d0)
    have keep: "ed_max_frame_len (snd (decode crc d0)) = ed_max_frame_len d0" by (simp add: decode_def Let_def)
    obtain r d1 where r: "decode crc d0 = (r, d1)" by force
    show ?case
    proof (cases "\<exists>m. r = Inr (Some m)")
      case True
      then obtain m where m: "decode crc d0 = (Inr (Some m), d1)" using r by auto
      from "1.IH" [OF m [symmetric] refl refl] keep m show ?thesis
        by (subst decode_all.simps) (simp split: prod.split sum.split, metis snd_conv)
    next
      case False
      with r keep show ?thesis by (subst decode_all.simps) (auto split: sum.split option.split)
    qed
  qed
  have "push_decode_all crc (with_max_frame_len n) (concat chunks) = (Inr ms, d)" and dr: "drained crc d"
    using es.feed_ok [OF drained_new] assms unfolding es_feed_def by blast+
  then have "ed_max_frame_len d = n"
    using max [of "push (with_max_frame_len n) (concat chunks)"] by (simp add: push_decode_all_def with_max_frame_len_def)
  with dr show ?thesis by (auto simp: drained_def decode_def Let_def frame_lens res_bind_Inr_iff split: if_splits)
qed

theorem event_stream_buffer_bounded_witness:
  "length (ed_buf (snd (es_feed sum_crc (with_max_frame_len 64) [concat es_frames @ [0, 0, 0]]))) = 3 \<and>
   length (ed_buf (snd (es_feed sum_crc (with_max_frame_len 64) [concat es_frames @ [0, 0, 0]]))) < max 12 64"
proof -
  let ?r = "es_feed sum_crc (with_max_frame_len 64) [concat es_frames @ [0, 0, 0]]"
  have e: "isl (fst ?r) = False" "length (ed_buf (snd ?r)) = 3" by code_simp+
  then have "?r = (Inr (projr (fst ?r)), snd ?r)" by (simp add: prod_eq_iff)
  from event_stream_buffer_bounded [OF this] e show ?thesis by blast
qed

end
