(* ===== verification/Json.thy ===== *)
theory Json
  imports F64
begin

text \<open>
  JSON values as \<^verbatim>\<open>serde_json::Value\<close> holds them, and the accessors the components use. A number is an
  unsigned integer, a negative integer or a binary64 value. With the feature \<^verbatim>\<open>preserve_order\<close>, which
  the workspace enables, an object keeps its fields in insertion order, so it is a list of pairs
  with distinct keys; equality of objects does not look at the order.
\<close>

datatype json =
    JNull
  | JBool bool
  | JPosInt nat
  | JNegInt int
  | JFloat f64
  | JString string
  | JArray "json list"
  | JObject "(string \<times> json) list"

definition json_get :: "json \<Rightarrow> string \<Rightarrow> json option" where
  "json_get v k = (case v of JObject fs \<Rightarrow> map_of fs k | _ \<Rightarrow> None)"

definition json_as_array :: "json \<Rightarrow> json list option" where
  "json_as_array v = (case v of JArray xs \<Rightarrow> Some xs | _ \<Rightarrow> None)"

definition json_as_object :: "json \<Rightarrow> (string \<times> json) list option" where
  "json_as_object v = (case v of JObject fs \<Rightarrow> Some fs | _ \<Rightarrow> None)"

definition json_as_str :: "json \<Rightarrow> string option" where
  "json_as_str v = (case v of JString s \<Rightarrow> Some s | _ \<Rightarrow> None)"

definition json_as_bool :: "json \<Rightarrow> bool option" where
  "json_as_bool v = (case v of JBool b \<Rightarrow> Some b | _ \<Rightarrow> None)"

definition json_as_u64 :: "json \<Rightarrow> nat option" where
  "json_as_u64 v = (case v of JPosInt n \<Rightarrow> Some n | _ \<Rightarrow> None)"

definition json_is_array :: "json \<Rightarrow> bool" where
  "json_is_array v \<longleftrightarrow> json_as_array v \<noteq> None"

definition json_is_null :: "json \<Rightarrow> bool" where
  "json_is_null v \<longleftrightarrow> v = JNull"

text \<open>\<^verbatim>\<open>PartialEq for Value\<close>: an object equals another with the same fields in any order.\<close>

lemma json_field_size: "(k, v) \<in> set fs \<Longrightarrow> size v < Suc (size_list (size_prod (\<lambda>_. 0) size) fs)"
  by (induction fs) auto

function json_eq :: "json \<Rightarrow> json \<Rightarrow> bool" where
  "json_eq v w =
     (case v of
        JArray xs \<Rightarrow>
          (case w of
             JArray ys \<Rightarrow> length xs = length ys \<and> (\<forall>p \<in> set (zip xs ys). json_eq (fst p) (snd p))
           | _ \<Rightarrow> False)
      | JObject fs \<Rightarrow>
          (case w of
             JObject gs \<Rightarrow> length fs = length gs \<and>
               (\<forall>p \<in> set fs. case map_of gs (fst p) of None \<Rightarrow> False | Some y \<Rightarrow> json_eq (snd p) y)
           | _ \<Rightarrow> False)
      | _ \<Rightarrow> v = w)"
  by pat_completeness auto
termination
proof (relation "measure (\<lambda>(v, _). size v)", goal_cases)
  case (2 v w xs ys p)
  then have "fst p \<in> set xs" by (metis prod.collapse set_zip_leftD)
  with 2 show ?case by (cases p) (simp add: less_Suc_eq_le size_list_estimation')
next
  case (3 v w fs gs p y)
  then show ?case using json_field_size [of "fst p" "snd p" fs] by simp
qed simp

declare json_eq.simps [simp del]

end
