(* ===== verification/Memory_Store.thy ===== *)
theory Memory_Store
  imports Json
begin

text \<open>
  The in-memory persistence backend of \<^verbatim>\<open>store/src/memory.rs\<close> with the records of \<^verbatim>\<open>store/src/types.rs\<close> and
  the owner identity of \<^verbatim>\<open>store/src/owner.rs\<close>. One mutex guards all state, so each method is one
  function on the state \<open>inner\<close>; its result is a \<^verbatim>\<open>Result\<close>. The hash maps are HOL maps. Release builds
  check overflow and abort on panic: the one addition that can overflow makes its method partial,
  with \<open>None\<close> for the abort. A poisoned mutex cannot be observed, since a panic ends the process.
\<close>

section \<open>Owners\<close>

definition MAX_COMPONENT_BYTES :: nat where
  "MAX_COMPONENT_BYTES = 1024"

record state_owner =
  so_tenant_id :: string
  so_issuer :: string
  so_subject :: string

datatype state_owner_error = StateOwnerError string

text \<open>
  \<^verbatim>\<open>chars().any(char::is_control)\<close> on UTF-8 bytes: the control characters are U+0000 to U+001F, and U+007F
  to U+009F, which above ASCII are encoded as C2 80 to C2 9F.
\<close>

fun has_control :: "string \<Rightarrow> bool" where
  "has_control [] = False"
| "has_control (c # cs) =
     (let b = (of_char c :: nat)
      in b < 0x20 \<or> b = 0x7F \<or>
         (b = 0xC2 \<and> (case cs of [] \<Rightarrow> False | d # _ \<Rightarrow> (of_char d :: nat) < 0xA0)) \<or>
         has_control cs)"

definition validate_component :: "string \<Rightarrow> string \<Rightarrow> state_owner_error + unit" where
  "validate_component component v =
     (if v = [] \<or> MAX_COMPONENT_BYTES < length v \<or> has_control v then Inl (StateOwnerError component) else Inr ())"

definition from_trusted_parts :: "string \<Rightarrow> string \<Rightarrow> string \<Rightarrow> state_owner_error + state_owner" where
  "from_trusted_parts tenant_id issuer subject =
     (let owner = \<lparr>so_tenant_id = tenant_id, so_issuer = issuer, so_subject = subject\<rparr>
      in res_bind (validate_component ''tenant'' (so_tenant_id owner)) (\<lambda>_.
         res_bind (validate_component ''issuer'' (so_issuer owner)) (\<lambda>_.
         res_bind (validate_component ''subject'' (so_subject owner)) (\<lambda>_. Inr owner))))"

section \<open>Records\<close>

record response_record =
  rr_id :: string
  rr_owner :: state_owner
  rr_created_at :: int
  rr_model :: string
  rr_response_object :: json
  rr_input :: json
  rr_messages :: json

record conversation_record =
  cr_conversation_id :: string
  cr_owner :: state_owner
  cr_created_at :: int
  cr_metadata :: json
  cr_messages :: json

record conversation_item_record =
  ci_item_id :: string
  ci_owner :: state_owner
  ci_conversation_id :: string
  ci_item_data :: json
  ci_created_at :: int
  ci_position :: int

record pending_approval_record =
  pa_approval_id :: string
  pa_server_label :: string
  pa_tool_name :: string
  pa_arguments :: string
  pa_target_fingerprint :: string

record response_event_record =
  re_response_id :: string
  re_owner :: state_owner
  re_sequence_number :: nat
  re_event_type :: string
  re_payload :: string
  re_terminal :: bool
  re_created_at :: int

datatype event_log_state = Absent | Incomplete nat | Replayable nat

datatype store_error =
    NotFound
  | Database string
  | InvalidInput string
  | Serialization string
  | Unavailable string

section \<open>State\<close>

type_synonym owner_key = "state_owner \<times> string"

record stored_approval =
  sa_record :: pending_approval_record
  sa_consumed_at :: "int option"

record inner =
  in_responses :: "string \<rightharpoonup> response_record"
  in_conversations :: "owner_key \<rightharpoonup> conversation_record"
  in_conversation_ids :: "string \<rightharpoonup> state_owner"
  in_items :: "owner_key \<rightharpoonup> conversation_item_record list"
  in_item_ids :: "owner_key set"
  in_approvals :: "state_owner \<times> string \<times> string \<rightharpoonup> stored_approval"
  in_events :: "owner_key \<rightharpoonup> response_event_record list"

definition store_new :: inner where
  "store_new = \<lparr>in_responses = Map.empty, in_conversations = Map.empty, in_conversation_ids = Map.empty,
     in_items = Map.empty, in_item_ids = {}, in_approvals = Map.empty, in_events = Map.empty\<rparr>"

section \<open>Helpers\<close>

text \<open>\<^verbatim>\<open>sort_by\<close> with a comparison: stable, first elements first among equals.\<close>

fun insert_by :: "('a \<Rightarrow> 'a \<Rightarrow> bool) \<Rightarrow> 'a \<Rightarrow> 'a list \<Rightarrow> 'a list" where
  "insert_by le x [] = [x]"
| "insert_by le x (y # ys) = (if le x y then x # y # ys else y # insert_by le x ys)"

definition sort_by :: "('a \<Rightarrow> 'a \<Rightarrow> bool) \<Rightarrow> 'a list \<Rightarrow> 'a list" where
  "sort_by le xs = foldr (insert_by le) xs []"

text \<open>The order of strings, byte by byte.\<close>

fun str_le :: "string \<Rightarrow> string \<Rightarrow> bool" where
  "str_le [] _ = True"
| "str_le (_ # _) [] = False"
| "str_le (c # cs) (d # ds) =
     ((of_char c :: nat) < of_char d \<or> (c = d \<and> str_le cs ds))"

definition item_le :: "conversation_item_record \<Rightarrow> conversation_item_record \<Rightarrow> bool" where
  "item_le a b \<longleftrightarrow> ci_position a < ci_position b \<or>
     (ci_position a = ci_position b \<and> str_le (ci_item_id a) (ci_item_id b))"

definition ordered_messages :: "conversation_item_record list \<Rightarrow> json list" where
  "ordered_messages items = map ci_item_data (sort_by item_le items)"

definition has_legacy :: "json \<Rightarrow> bool" where
  "has_legacy messages \<longleftrightarrow> (case json_get messages ''legacy_messages'' of None \<Rightarrow> False | Some v \<Rightarrow> json_is_array v)"

definition get_items :: "inner \<Rightarrow> owner_key \<Rightarrow> conversation_item_record list" where
  "get_items s key = (case in_items s key of None \<Rightarrow> [] | Some items \<Rightarrow> items)"

definition preserve_legacy_history :: "inner \<Rightarrow> owner_key \<Rightarrow> store_error + inner" where
  "preserve_legacy_history s key =
     (let has_items = get_items s key \<noteq> []
      in case in_conversations s key of
           None \<Rightarrow> Inr s
         | Some record \<Rightarrow>
             (if has_legacy (cr_messages record) then Inr s
              else if \<not> has_items \<and> \<not> json_is_null (cr_messages record) \<and> \<not> json_is_array (cr_messages record) then
                Inl (Serialization ''invalid legacy conversation history'')
              else
                (let messages =
                       (if \<not> has_items \<and> (case json_as_array (cr_messages record) of None \<Rightarrow> False | Some ms \<Rightarrow> ms \<noteq> [])
                        then JObject [(''legacy_messages'', cr_messages record)] else JArray [])
                 in Inr (s\<lparr>in_conversations := (in_conversations s)(key \<mapsto> record\<lparr>cr_messages := messages\<rparr>)\<rparr>))))"

definition replaces_legacy_history :: "json \<Rightarrow> json \<Rightarrow> bool" where
  "replaces_legacy_history current replacement \<longleftrightarrow> has_legacy current \<and> \<not> json_eq current replacement"

definition upsert_response_into :: "inner \<Rightarrow> response_record \<Rightarrow> store_error + inner" where
  "upsert_response_into s record =
     (case in_responses s (rr_id record) of
        Some existing \<Rightarrow>
          (if rr_owner existing \<noteq> rr_owner record then Inl (Database ''response id collision'')
           else Inr (s\<lparr>in_responses := (in_responses s)(rr_id record \<mapsto> record)\<rparr>))
      | None \<Rightarrow> Inr (s\<lparr>in_responses := (in_responses s)(rr_id record \<mapsto> record)\<rparr>))"

definition quoted :: "string \<Rightarrow> string" where
  "quoted v = [CHR 0x27] @ v @ [CHR 0x27]"

fun reject_ids_from :: "inner \<Rightarrow> owner_key set \<Rightarrow> conversation_item_record list \<Rightarrow> store_error + unit" where
  "reject_ids_from s seen [] = Inr ()"
| "reject_ids_from s seen (item # items) =
     (let key = (ci_owner item, ci_item_id item)
      in if key \<in> seen \<or> key \<in> in_item_ids s
         then Inl (InvalidInput (''conversation item '' @ quoted (ci_item_id item) @ '' already exists''))
         else reject_ids_from s (insert key seen) items)"

definition reject_duplicate_item_ids :: "inner \<Rightarrow> conversation_item_record list \<Rightarrow> store_error + unit" where
  "reject_duplicate_item_ids s items = reject_ids_from s {} items"

text \<open>Decimal digits of an \<^verbatim>\<open>i64\<close> in an error text.\<close>

fun nat_digits :: "nat \<Rightarrow> string" where
  "nat_digits n = (if n < 10 then [char_of (48 + n)] else nat_digits (n div 10) @ [char_of (48 + n mod 10)])"

declare nat_digits.simps [simp del]

definition show_i64 :: "int \<Rightarrow> string" where
  "show_i64 i = (if i < 0 then ''-'' @ nat_digits (nat (- i)) else nat_digits (nat i))"

fun reject_positions_from :: "inner \<Rightarrow> (state_owner \<times> string \<times> int) set \<Rightarrow> conversation_item_record list \<Rightarrow>
    store_error + unit" where
  "reject_positions_from s seen [] = Inr ()"
| "reject_positions_from s seen (item # items) =
     (let key = (ci_owner item, ci_conversation_id item, ci_position item);
          stored_collision = (case in_items s (ci_owner item, ci_conversation_id item) of
             None \<Rightarrow> False
           | Some stored \<Rightarrow> list_ex (\<lambda>existing. ci_position existing = ci_position item) stored)
      in if key \<in> seen \<or> stored_collision
         then Inl (InvalidInput (''conversation position '' @ quoted (show_i64 (ci_position item)) @ '' already exists''))
         else reject_positions_from s (insert key seen) items)"

definition reject_duplicate_item_positions :: "inner \<Rightarrow> conversation_item_record list \<Rightarrow> store_error + unit" where
  "reject_duplicate_item_positions s items = reject_positions_from s {} items"

definition require_conversation_scope ::
  "inner \<Rightarrow> state_owner \<Rightarrow> string \<Rightarrow> conversation_item_record list \<Rightarrow> store_error + unit" where
  "require_conversation_scope s owner conversation_id items =
     (if \<not> list_all (\<lambda>item. ci_owner item = owner \<and> ci_conversation_id item = conversation_id) items
      then Inl (InvalidInput ''conversation item scope does not match its parent'')
      else if in_conversations s (owner, conversation_id) = None
      then Inl (Database (''conversation disappeared during message sync: '' @ conversation_id))
      else Inr ())"

definition owns_response :: "inner \<Rightarrow> state_owner \<Rightarrow> string \<Rightarrow> bool" where
  "owns_response s owner response_id \<longleftrightarrow>
     (case in_responses s response_id of None \<Rightarrow> False | Some response \<Rightarrow> rr_owner response = owner)"

fun insert_approvals :: "state_owner \<Rightarrow> string \<Rightarrow> pending_approval_record list \<Rightarrow>
    (state_owner \<times> string \<times> string \<rightharpoonup> stored_approval) \<Rightarrow> (state_owner \<times> string \<times> string \<rightharpoonup> stored_approval)" where
  "insert_approvals owner response_id [] m = m"
| "insert_approvals owner response_id (r # rs) m =
     (let key = (owner, response_id, pa_approval_id r)
      in insert_approvals owner response_id rs
           (case m key of
              Some _ \<Rightarrow> m
            | None \<Rightarrow> m(key \<mapsto> \<lparr>sa_record = r, sa_consumed_at = None\<rparr>)))"

definition record_approvals_into :: "inner \<Rightarrow> state_owner \<Rightarrow> string \<Rightarrow> pending_approval_record list \<Rightarrow> inner" where
  "record_approvals_into s owner response_id records =
     (if \<not> owns_response s owner response_id then s
      else s\<lparr>in_approvals := insert_approvals owner response_id records (in_approvals s)\<rparr>)"

fun push_events :: "response_event_record list \<Rightarrow> response_event_record list \<Rightarrow> response_event_record list" where
  "push_events elog [] = elog"
| "push_events elog (event # events) =
     push_events (if list_ex (\<lambda>stored. re_sequence_number stored = re_sequence_number event) elog then elog else elog @ [event]) events"

definition append_events_into :: "inner \<Rightarrow> state_owner \<Rightarrow> string \<Rightarrow> response_event_record list \<Rightarrow> inner" where
  "append_events_into s owner response_id events =
     (if \<not> owns_response s owner response_id then s
      else (let key = (owner, response_id);
                elog = (case in_events s key of None \<Rightarrow> [] | Some elog \<Rightarrow> elog)
            in s\<lparr>in_events := (in_events s)(key \<mapsto> push_events elog events)\<rparr>))"

section \<open>Response store\<close>

definition upsert_response :: "inner \<Rightarrow> response_record \<Rightarrow> (store_error + unit) \<times> inner" where
  "upsert_response s record =
     (case upsert_response_into s record of Inl e \<Rightarrow> (Inl e, s) | Inr s' \<Rightarrow> (Inr (), s'))"

definition get_response :: "inner \<Rightarrow> state_owner \<Rightarrow> string \<Rightarrow> store_error + response_record option" where
  "get_response s owner rid =
     Inr (case in_responses s rid of
            None \<Rightarrow> None | Some record \<Rightarrow> if rr_owner record = owner then Some record else None)"

definition delete_response :: "inner \<Rightarrow> state_owner \<Rightarrow> string \<Rightarrow> (store_error + bool) \<times> inner" where
  "delete_response s owner rid =
     (let removed = owns_response s owner rid
      in (Inr removed,
          s\<lparr>in_responses := (if removed then (in_responses s)(rid := None) else in_responses s),
            in_approvals := (\<lambda>k. case k of (row_owner, response_id, a) \<Rightarrow>
               if row_owner = owner \<and> response_id = rid then None else in_approvals s k),
            in_events := (in_events s)((owner, rid) := None)\<rparr>))"

definition get_conversation :: "inner \<Rightarrow> state_owner \<Rightarrow> string \<Rightarrow> store_error + conversation_record option" where
  "get_conversation s owner conversation_id = Inr (in_conversations s (owner, conversation_id))"

definition record_pending_approvals ::
  "inner \<Rightarrow> state_owner \<Rightarrow> string \<Rightarrow> pending_approval_record list \<Rightarrow> int \<Rightarrow> (store_error + unit) \<times> inner" where
  "record_pending_approvals s owner response_id records created_at =
     (Inr (), record_approvals_into s owner response_id records)"

definition persist_response_with_pending_approvals ::
  "inner \<Rightarrow> response_record \<Rightarrow> pending_approval_record list \<Rightarrow> (store_error + unit) \<times> inner" where
  "persist_response_with_pending_approvals s record pending_approvals =
     (case upsert_response_into s record of
        Inl e \<Rightarrow> (Inl e, s)
      | Inr s' \<Rightarrow> (Inr (), record_approvals_into s' (rr_owner record) (rr_id record) pending_approvals))"

definition get_pending_approvals ::
  "inner \<Rightarrow> state_owner \<Rightarrow> string \<Rightarrow> string list \<Rightarrow> store_error + pending_approval_record list" where
  "get_pending_approvals s owner response_id approval_ids =
     Inr (List.map_filter (\<lambda>a. map_option sa_record (in_approvals s (owner, response_id, a))) approval_ids)"

text \<open>The validation pass: the index of the first id that is a duplicate, absent or consumed.\<close>

fun first_unclaimable :: "inner \<Rightarrow> state_owner \<Rightarrow> string \<Rightarrow> string set \<Rightarrow> nat \<Rightarrow> string list \<Rightarrow> nat option" where
  "first_unclaimable s owner response_id seen index [] = None"
| "first_unclaimable s owner response_id seen index (a # as) =
     (if a \<in> seen then Some index
      else case in_approvals s (owner, response_id, a) of
             None \<Rightarrow> Some index
           | Some stored \<Rightarrow>
               (if sa_consumed_at stored = None
                then first_unclaimable s owner response_id (insert a seen) (Suc index) as
                else Some index))"

fun stamp_approvals :: "state_owner \<Rightarrow> string \<Rightarrow> int \<Rightarrow> string list \<Rightarrow>
    (state_owner \<times> string \<times> string \<rightharpoonup> stored_approval) \<Rightarrow> (state_owner \<times> string \<times> string \<rightharpoonup> stored_approval)" where
  "stamp_approvals owner response_id consumed_at [] m = m"
| "stamp_approvals owner response_id consumed_at (a # as) m =
     (let key = (owner, response_id, a)
      in stamp_approvals owner response_id consumed_at as
           (case m key of
              None \<Rightarrow> m
            | Some stored \<Rightarrow> m(key \<mapsto> stored\<lparr>sa_consumed_at := Some consumed_at\<rparr>)))"

definition consume_approvals ::
  "inner \<Rightarrow> state_owner \<Rightarrow> string \<Rightarrow> string list \<Rightarrow> int \<Rightarrow> (store_error + nat option) \<times> inner" where
  "consume_approvals s owner response_id approval_ids consumed_at =
     (case first_unclaimable s owner response_id {} 0 approval_ids of
        Some index \<Rightarrow> (Inr (Some index), s)
      | None \<Rightarrow> (Inr None, s\<lparr>in_approvals := stamp_approvals owner response_id consumed_at approval_ids (in_approvals s)\<rparr>))"

definition append_events ::
  "inner \<Rightarrow> state_owner \<Rightarrow> string \<Rightarrow> response_event_record list \<Rightarrow> (store_error + unit) \<times> inner" where
  "append_events s owner response_id events = (Inr (), append_events_into s owner response_id events)"

definition list_events_after ::
  "inner \<Rightarrow> state_owner \<Rightarrow> string \<Rightarrow> nat option \<Rightarrow> nat \<Rightarrow> store_error + response_event_record list" where
  "list_events_after s owner response_id after limit =
     (case in_events s (owner, response_id) of
        None \<Rightarrow> Inr []
      | Some elog \<Rightarrow>
          Inr (take limit (sort_by (\<lambda>a b. re_sequence_number a \<le> re_sequence_number b)
            (filter (\<lambda>event. case after of None \<Rightarrow> True | Some cursor \<Rightarrow> cursor < re_sequence_number event) elog))))"

definition event_log_status :: "inner \<Rightarrow> state_owner \<Rightarrow> string \<Rightarrow> store_error + event_log_state" where
  "event_log_status s owner response_id =
     (case in_events s (owner, response_id) of
        None \<Rightarrow> Inr Absent
      | Some elog \<Rightarrow>
          (if elog = [] then Inr Absent
           else (let max_sequence = Max (set (map re_sequence_number elog))
                 in if list_ex re_terminal elog then Inr (Replayable max_sequence) else Inr (Incomplete max_sequence))))"

section \<open>Conversation item store\<close>

definition upsert_conversation :: "inner \<Rightarrow> conversation_record \<Rightarrow> (store_error + unit) \<times> inner" where
  "upsert_conversation s record =
     (let key = (cr_owner record, cr_conversation_id record);
          collides = (case in_conversation_ids s (cr_conversation_id record) of
             None \<Rightarrow> False | Some existing_owner \<Rightarrow> existing_owner \<noteq> cr_owner record);
          existing = in_conversations s key
      in if collides then (Inl (Database ''conversation id collision''), s)
         else if (case existing of None \<Rightarrow> False | Some e \<Rightarrow> replaces_legacy_history (cr_messages e) (cr_messages record))
         then (Inl (Database ''conversation upsert would replace legacy history''), s)
         else
           (let created_at = (case existing of None \<Rightarrow> cr_created_at record | Some e \<Rightarrow> cr_created_at e);
                stored = record\<lparr>cr_created_at := created_at\<rparr>
            in (Inr (), s\<lparr>in_conversation_ids := (in_conversation_ids s)(cr_conversation_id record \<mapsto> cr_owner record),
                          in_conversations := (in_conversations s)(key \<mapsto> stored)\<rparr>)))"

definition update_conversation_messages :: "inner \<Rightarrow> state_owner \<Rightarrow> string \<Rightarrow> json \<Rightarrow> (store_error + bool) \<times> inner" where
  "update_conversation_messages s owner conversation_id messages =
     (case in_conversations s (owner, conversation_id) of
        None \<Rightarrow> (Inr False, s)
      | Some record \<Rightarrow>
          (if replaces_legacy_history (cr_messages record) messages then (Inr False, s)
           else (Inr True, s\<lparr>in_conversations := (in_conversations s)((owner, conversation_id) \<mapsto> record\<lparr>cr_messages := messages\<rparr>)\<rparr>)))"

definition update_conversation_metadata :: "inner \<Rightarrow> state_owner \<Rightarrow> string \<Rightarrow> json \<Rightarrow> (store_error + bool) \<times> inner" where
  "update_conversation_metadata s owner conversation_id metadata =
     (case in_conversations s (owner, conversation_id) of
        None \<Rightarrow> (Inr False, s)
      | Some record \<Rightarrow>
          (Inr True, s\<lparr>in_conversations := (in_conversations s)((owner, conversation_id) \<mapsto> record\<lparr>cr_metadata := metadata\<rparr>)\<rparr>))"

definition compare_and_swap_conversation_messages ::
  "inner \<Rightarrow> state_owner \<Rightarrow> string \<Rightarrow> json \<Rightarrow> json \<Rightarrow> (store_error + bool) \<times> inner" where
  "compare_and_swap_conversation_messages s owner conversation_id expected_messages messages =
     (case in_conversations s (owner, conversation_id) of
        None \<Rightarrow> (Inr False, s)
      | Some record \<Rightarrow>
          (if json_eq (cr_messages record) expected_messages \<and> \<not> replaces_legacy_history (cr_messages record) messages
           then (Inr True, s\<lparr>in_conversations := (in_conversations s)((owner, conversation_id) \<mapsto> record\<lparr>cr_messages := messages\<rparr>)\<rparr>)
           else (Inr False, s)))"

definition delete_conversation :: "inner \<Rightarrow> state_owner \<Rightarrow> string \<Rightarrow> (store_error + bool) \<times> inner" where
  "delete_conversation s owner conversation_id =
     (if in_conversations s (owner, conversation_id) \<noteq> None
      then (Inr True, s\<lparr>in_conversations := (in_conversations s)((owner, conversation_id) := None),
                        in_conversation_ids := (in_conversation_ids s)(conversation_id := None)\<rparr>)
      else (Inr False, s))"

text \<open>One validated item: its id is registered and the item is pushed to its conversation.\<close>

definition push_item :: "conversation_item_record \<Rightarrow> inner \<Rightarrow> inner" where
  "push_item item s =
     (let key = (ci_owner item, ci_conversation_id item)
      in s\<lparr>in_item_ids := insert (ci_owner item, ci_item_id item) (in_item_ids s),
           in_items := (in_items s)(key \<mapsto> get_items s key @ [item])\<rparr>)"

definition create_conversation_items :: "inner \<Rightarrow> conversation_item_record list \<Rightarrow> (store_error + unit) \<times> inner" where
  "create_conversation_items s items =
     (if \<not> list_all (\<lambda>item. in_conversations s (ci_owner item, ci_conversation_id item) \<noteq> None) items
      then (Inl (InvalidInput ''conversation item scope does not match its parent''), s)
      else case reject_duplicate_item_ids s items of
             Inl e \<Rightarrow> (Inl e, s)
           | Inr _ \<Rightarrow>
               (case reject_duplicate_item_positions s items of
                  Inl e \<Rightarrow> (Inl e, s)
                | Inr _ \<Rightarrow> (Inr (), fold push_item items s)))"

fun position_of :: "('a \<Rightarrow> bool) \<Rightarrow> 'a list \<Rightarrow> nat option" where
  "position_of P [] = None"
| "position_of P (x # xs) = (if P x then Some 0 else map_option Suc (position_of P xs))"

definition list_conversation_items ::
  "inner \<Rightarrow> state_owner \<Rightarrow> string \<Rightarrow> string option \<Rightarrow> nat \<Rightarrow> bool \<Rightarrow> store_error + conversation_item_record list" where
  "list_conversation_items s owner conversation_id after_item_id limit ascending =
     (let sorted = sort_by item_le (get_items s (owner, conversation_id));
          ordered = (if ascending then sorted else rev sorted)
      in case after_item_id of
           None \<Rightarrow> Inr (take limit ordered)
         | Some cursor \<Rightarrow>
             (case position_of (\<lambda>item. ci_item_id item = cursor) ordered of
                None \<Rightarrow> Inr []
              | Some index \<Rightarrow> Inr (take limit (drop (index + 1) ordered))))"

definition get_existing_conversation_item_ids ::
  "inner \<Rightarrow> state_owner \<Rightarrow> string \<Rightarrow> string list \<Rightarrow> store_error + string list" where
  "get_existing_conversation_item_ids s owner conversation_id item_ids =
     (case in_items s (owner, conversation_id) of
        None \<Rightarrow> Inr []
      | Some items \<Rightarrow> Inr (filter (\<lambda>i. i \<in> set (map ci_item_id items)) item_ids))"

definition get_conversation_item ::
  "inner \<Rightarrow> state_owner \<Rightarrow> string \<Rightarrow> string \<Rightarrow> store_error + conversation_item_record option" where
  "get_conversation_item s owner conversation_id item_id =
     Inr (find (\<lambda>item. ci_item_id item = item_id) (get_items s (owner, conversation_id)))"

definition remove_nth :: "nat \<Rightarrow> 'a list \<Rightarrow> 'a list" where
  "remove_nth i xs = take i xs @ drop (Suc i) xs"

definition remove_item :: "inner \<Rightarrow> state_owner \<Rightarrow> string \<Rightarrow> string \<Rightarrow> nat \<Rightarrow> inner" where
  "remove_item s owner conversation_id item_id index =
     s\<lparr>in_items := (in_items s)((owner, conversation_id) \<mapsto> remove_nth index (get_items s (owner, conversation_id))),
       in_item_ids := in_item_ids s - {(owner, item_id)}\<rparr>"

definition delete_conversation_item ::
  "inner \<Rightarrow> state_owner \<Rightarrow> string \<Rightarrow> string \<Rightarrow> (store_error + bool) \<times> inner" where
  "delete_conversation_item s owner conversation_id item_id =
     (case position_of (\<lambda>item. ci_item_id item = item_id) (get_items s (owner, conversation_id)) of
        None \<Rightarrow> (Inr False, s)
      | Some index \<Rightarrow> (Inr True, remove_item s owner conversation_id item_id index))"

definition conversation_item_position ::
  "inner \<Rightarrow> state_owner \<Rightarrow> string \<Rightarrow> string \<Rightarrow> store_error + int option" where
  "conversation_item_position s owner conversation_id item_id =
     Inr (map_option ci_position (find (\<lambda>item. ci_item_id item = item_id) (get_items s (owner, conversation_id))))"

definition max_position :: "conversation_item_record list \<Rightarrow> int" where
  "max_position items = (if items = [] then 0 else Max (set (map ci_position items)))"

definition max_item_position :: "inner \<Rightarrow> state_owner \<Rightarrow> string \<Rightarrow> store_error + int" where
  "max_item_position s owner conversation_id = Inr (max_position (get_items s (owner, conversation_id)))"

definition history_of :: "conversation_record \<Rightarrow> conversation_item_record list \<Rightarrow> json list" where
  "history_of record items =
     (let legacy = (case json_get (cr_messages record) ''legacy_messages'' of
            None \<Rightarrow> [] | Some v \<Rightarrow> (case json_as_array v of None \<Rightarrow> [] | Some ms \<Rightarrow> ms));
          history = (if items = [] \<and> legacy = []
            then (case json_as_array (cr_messages record) of None \<Rightarrow> [] | Some ms \<Rightarrow> ms) else legacy)
      in history @ ordered_messages items)"

definition conversation_history :: "inner \<Rightarrow> state_owner \<Rightarrow> string \<Rightarrow> store_error + json list option" where
  "conversation_history s owner conversation_id =
     (case in_conversations s (owner, conversation_id) of
        None \<Rightarrow> Inr None
      | Some record \<Rightarrow> Inr (Some (history_of record (get_items s (owner, conversation_id)))))"

definition i64_max :: int where
  "i64_max = 2 ^ 63 - 1"

text \<open>The append loop: positions count up from the highest stored one; overflow aborts.\<close>

fun append_items :: "int \<Rightarrow> owner_key \<Rightarrow> conversation_item_record list \<Rightarrow> inner \<Rightarrow> inner option" where
  "append_items next key [] s = Some s"
| "append_items next key (item # items) s =
     (if next = i64_max then None
      else
        (let stored = item\<lparr>ci_position := next + 1\<rparr>
         in append_items (next + 1) key items
              (s\<lparr>in_item_ids := insert (ci_owner stored, ci_item_id stored) (in_item_ids s),
                 in_items := (in_items s)(key \<mapsto> get_items s key @ [stored])\<rparr>)))"

definition create_items_and_sync_messages ::
  "inner \<Rightarrow> state_owner \<Rightarrow> string \<Rightarrow> conversation_item_record list \<Rightarrow> ((store_error + unit) \<times> inner) option" where
  "create_items_and_sync_messages s owner conversation_id items =
     (if items = [] then Some (Inr (), s)
      else
        (let key = (owner, conversation_id)
         in case require_conversation_scope s owner conversation_id items of
              Inl e \<Rightarrow> Some (Inl e, s)
            | Inr _ \<Rightarrow>
                (case reject_duplicate_item_ids s items of
                   Inl e \<Rightarrow> Some (Inl e, s)
                 | Inr _ \<Rightarrow>
                     (case preserve_legacy_history s key of
                        Inl e \<Rightarrow> Some (Inl e, s)
                      | Inr s1 \<Rightarrow>
                          map_option (\<lambda>s2. (Inr (), s2)) (append_items (max_position (get_items s1 key)) key items s1)))))"

definition delete_item_and_sync_messages ::
  "inner \<Rightarrow> state_owner \<Rightarrow> string \<Rightarrow> string \<Rightarrow> (store_error + bool) \<times> inner" where
  "delete_item_and_sync_messages s owner conversation_id item_id =
     (let key = (owner, conversation_id)
      in case position_of (\<lambda>item. ci_item_id item = item_id) (get_items s key) of
           None \<Rightarrow> (Inr False, s)
         | Some index \<Rightarrow>
             (if in_conversations s key = None
              then (Inl (Database (''conversation disappeared during message sync: '' @ conversation_id)), s)
              else case preserve_legacy_history s key of
                     Inl e \<Rightarrow> (Inl e, s)
                   | Inr s1 \<Rightarrow>
                       (case in_items s1 key of
                          None \<Rightarrow> (Inl (Database ''conversation items disappeared during message sync''), s1)
                        | Some _ \<Rightarrow> (Inr True, remove_item s1 owner conversation_id item_id index))))"

end
