(* ===== verification/Store_Inv.thy ===== *)
theory Store_Inv
  imports Memory_Store
begin

text \<open>
  The store over its lifetime: every sequence of the mutating methods of \<^verbatim>\<open>Memory_Store\<close>, the
  invariant that ties its maps to each other, and that the methods on responses, approvals, events
  and conversations keep it.
\<close>

section \<open>Runs\<close>

datatype store_op =
    UpsertResponse response_record
  | DeleteResponse state_owner string
  | RecordPendingApprovals state_owner string "pending_approval_record list" int
  | PersistResponse response_record "pending_approval_record list"
  | ConsumeApprovals state_owner string "string list" int
  | AppendEvents state_owner string "response_event_record list"
  | UpsertConversation conversation_record
  | UpdateMessages state_owner string json
  | UpdateMetadata state_owner string json
  | CompareAndSwap state_owner string json json
  | DeleteConversation state_owner string
  | CreateItems "conversation_item_record list"
  | DeleteItem state_owner string string
  | CreateItemsAndSync state_owner string "conversation_item_record list"
  | DeleteItemAndSync state_owner string string

text \<open>The state after an operation; \<open>None\<close> when it aborts the process.\<close>

fun store_step :: "inner \<Rightarrow> store_op \<Rightarrow> inner option" where
  "store_step s (UpsertResponse r) = Some (snd (upsert_response s r))"
| "store_step s (DeleteResponse o' i) = Some (snd (delete_response s o' i))"
| "store_step s (RecordPendingApprovals o' i rs t) = Some (snd (record_pending_approvals s o' i rs t))"
| "store_step s (PersistResponse r rs) = Some (snd (persist_response_with_pending_approvals s r rs))"
| "store_step s (ConsumeApprovals o' i as t) = Some (snd (consume_approvals s o' i as t))"
| "store_step s (AppendEvents o' i es) = Some (snd (append_events s o' i es))"
| "store_step s (UpsertConversation r) = Some (snd (upsert_conversation s r))"
| "store_step s (UpdateMessages o' c m) = Some (snd (update_conversation_messages s o' c m))"
| "store_step s (UpdateMetadata o' c m) = Some (snd (update_conversation_metadata s o' c m))"
| "store_step s (CompareAndSwap o' c x m) = Some (snd (compare_and_swap_conversation_messages s o' c x m))"
| "store_step s (DeleteConversation o' c) = Some (snd (delete_conversation s o' c))"
| "store_step s (CreateItems is) = Some (snd (create_conversation_items s is))"
| "store_step s (DeleteItem o' c i) = Some (snd (delete_conversation_item s o' c i))"
| "store_step s (CreateItemsAndSync o' c is) = map_option snd (create_items_and_sync_messages s o' c is)"
| "store_step s (DeleteItemAndSync o' c i) = Some (snd (delete_item_and_sync_messages s o' c i))"

fun store_run :: "inner \<Rightarrow> store_op list \<Rightarrow> inner option" where
  "store_run s [] = Some s"
| "store_run s (op # ops) = (case store_step s op of None \<Rightarrow> None | Some s' \<Rightarrow> store_run s' ops)"

section \<open>Invariant\<close>

definition conv_inv :: "inner \<Rightarrow> bool" where
  "conv_inv s \<longleftrightarrow>
     (\<forall>c ow. in_conversation_ids s c = Some ow \<longrightarrow> in_conversations s (ow, c) \<noteq> None) \<and>
     (\<forall>c ow r. in_conversations s (ow, c) = Some r \<longrightarrow>
        in_conversation_ids s c = Some ow \<and> cr_owner r = ow \<and> cr_conversation_id r = c)"

definition resp_inv :: "inner \<Rightarrow> bool" where
  "resp_inv s \<longleftrightarrow> (\<forall>i r. in_responses s i = Some r \<longrightarrow> rr_id r = i)"

definition item_key :: "conversation_item_record \<Rightarrow> owner_key" where
  "item_key it = (ci_owner it, ci_conversation_id it)"

definition id_key :: "conversation_item_record \<Rightarrow> owner_key" where
  "id_key it = (ci_owner it, ci_item_id it)"

definition item_inv :: "inner \<Rightarrow> bool" where
  "item_inv s \<longleftrightarrow>
     (\<forall>k it. it \<in> set (get_items s k) \<longrightarrow> item_key it = k) \<and>
     (\<forall>x. x \<in> in_item_ids s \<longleftrightarrow> (\<exists>k it. it \<in> set (get_items s k) \<and> id_key it = x)) \<and>
     (\<forall>k k' it it'. it \<in> set (get_items s k) \<longrightarrow> it' \<in> set (get_items s k') \<longrightarrow> id_key it = id_key it' \<longrightarrow> k = k') \<and>
     (\<forall>k. distinct (map ci_item_id (get_items s k)) \<and> distinct (map ci_position (get_items s k)))"

definition approval_inv :: "inner \<Rightarrow> bool" where
  "approval_inv s \<longleftrightarrow>
     (\<forall>ow r a st. in_approvals s (ow, r, a) = Some st \<longrightarrow> owns_response s ow r \<and> pa_approval_id (sa_record st) = a)"

definition event_inv :: "inner \<Rightarrow> bool" where
  "event_inv s \<longleftrightarrow>
     (\<forall>ow r es. in_events s (ow, r) = Some es \<longrightarrow> owns_response s ow r \<and> distinct (map re_sequence_number es))"

definition store_inv :: "inner \<Rightarrow> bool" where
  "store_inv s \<longleftrightarrow> conv_inv s \<and> resp_inv s \<and> item_inv s \<and> approval_inv s \<and> event_inv s"

lemma store_inv_new: "store_inv store_new"
  by (simp add: store_inv_def conv_inv_def resp_inv_def item_inv_def approval_inv_def event_inv_def store_new_def get_items_def)

text \<open>What each group of operations leaves alone.\<close>

lemma get_items_upd [simp]:
  "get_items (s\<lparr>in_responses := a\<rparr>) = get_items s" "get_items (s\<lparr>in_conversations := b\<rparr>) = get_items s"
  "get_items (s\<lparr>in_conversation_ids := c\<rparr>) = get_items s" "get_items (s\<lparr>in_item_ids := d\<rparr>) = get_items s"
  "get_items (s\<lparr>in_approvals := e\<rparr>) = get_items s" "get_items (s\<lparr>in_events := f\<rparr>) = get_items s"
  "get_items (s\<lparr>in_items := g\<rparr>) k = (case g k of None \<Rightarrow> [] | Some x \<Rightarrow> x)"
  by (simp_all add: get_items_def fun_eq_iff)

lemma owns_response_upd [simp]:
  "owns_response (s\<lparr>in_conversations := b\<rparr>) = owns_response s" "owns_response (s\<lparr>in_conversation_ids := c\<rparr>) = owns_response s"
  "owns_response (s\<lparr>in_items := g\<rparr>) = owns_response s" "owns_response (s\<lparr>in_item_ids := d\<rparr>) = owns_response s"
  "owns_response (s\<lparr>in_approvals := e\<rparr>) = owns_response s" "owns_response (s\<lparr>in_events := f\<rparr>) = owns_response s"
  by (simp_all add: owns_response_def fun_eq_iff)

lemma conv_inv_upd [simp]:
  "conv_inv (s\<lparr>in_responses := xr\<rparr>) = conv_inv s"
  "conv_inv (s\<lparr>in_items := xi\<rparr>) = conv_inv s"
  "conv_inv (s\<lparr>in_item_ids := xd\<rparr>) = conv_inv s"
  "conv_inv (s\<lparr>in_approvals := xa\<rparr>) = conv_inv s"
  "conv_inv (s\<lparr>in_events := xe\<rparr>) = conv_inv s"
  by (simp_all add: conv_inv_def)

lemma resp_inv_upd [simp]:
  "resp_inv (s\<lparr>in_conversations := xc\<rparr>) = resp_inv s"
  "resp_inv (s\<lparr>in_conversation_ids := xn\<rparr>) = resp_inv s"
  "resp_inv (s\<lparr>in_items := xi\<rparr>) = resp_inv s"
  "resp_inv (s\<lparr>in_item_ids := xd\<rparr>) = resp_inv s"
  "resp_inv (s\<lparr>in_approvals := xa\<rparr>) = resp_inv s"
  "resp_inv (s\<lparr>in_events := xe\<rparr>) = resp_inv s"
  by (simp_all add: resp_inv_def)

lemma item_inv_upd [simp]:
  "item_inv (s\<lparr>in_responses := xr\<rparr>) = item_inv s"
  "item_inv (s\<lparr>in_conversations := xc\<rparr>) = item_inv s"
  "item_inv (s\<lparr>in_conversation_ids := xn\<rparr>) = item_inv s"
  "item_inv (s\<lparr>in_approvals := xa\<rparr>) = item_inv s"
  "item_inv (s\<lparr>in_events := xe\<rparr>) = item_inv s"
  by (simp_all add: item_inv_def)

lemma approval_inv_upd [simp]:
  "approval_inv (s\<lparr>in_conversations := xc\<rparr>) = approval_inv s"
  "approval_inv (s\<lparr>in_conversation_ids := xn\<rparr>) = approval_inv s"
  "approval_inv (s\<lparr>in_items := xi\<rparr>) = approval_inv s"
  "approval_inv (s\<lparr>in_item_ids := xd\<rparr>) = approval_inv s"
  "approval_inv (s\<lparr>in_events := xe\<rparr>) = approval_inv s"
  by (simp_all add: approval_inv_def)

lemma event_inv_upd [simp]:
  "event_inv (s\<lparr>in_conversations := xc\<rparr>) = event_inv s"
  "event_inv (s\<lparr>in_conversation_ids := xn\<rparr>) = event_inv s"
  "event_inv (s\<lparr>in_items := xi\<rparr>) = event_inv s"
  "event_inv (s\<lparr>in_item_ids := xd\<rparr>) = event_inv s"
  "event_inv (s\<lparr>in_approvals := xa\<rparr>) = event_inv s"
  by (simp_all add: event_inv_def)

subsection \<open>Responses, approvals, events\<close>

lemma upsert_response_into_owns:
  "upsert_response_into s r = Inr s' \<Longrightarrow> owns_response s ow i \<Longrightarrow> owns_response s' ow i"
  by (auto simp: upsert_response_into_def owns_response_def split: option.splits if_splits)

lemma upsert_response_into_inv:
  assumes "store_inv s" and "upsert_response_into s r = Inr s'"
  shows "store_inv s'"
proof -
  have s': "s' = s\<lparr>in_responses := (in_responses s)(rr_id r \<mapsto> r)\<rparr>"
    using assms(2) by (auto simp: upsert_response_into_def split: option.splits if_splits)
  have own: "owns_response s ow i \<Longrightarrow> owns_response s' ow i" for ow i
    using upsert_response_into_owns [OF assms(2)] .
  have "conv_inv s' = conv_inv s" "item_inv s' = item_inv s" by (simp_all add: s')
  moreover have "resp_inv s'" using assms(1) by (simp add: store_inv_def resp_inv_def s')
  moreover have "approval_inv s'" "event_inv s'"
    using assms(1) own unfolding store_inv_def approval_inv_def event_inv_def by (simp_all add: s')
  ultimately show ?thesis using assms(1) by (simp add: store_inv_def)
qed

lemma insert_approvals_keep: "m k = Some st \<Longrightarrow> insert_approvals ow i rs m k = Some st"
proof (induction rs arbitrary: m)
  case (Cons r rs)
  let ?k = "(ow, i, pa_approval_id r)"
  let ?m = "case m ?k of Some _ \<Rightarrow> m | None \<Rightarrow> m(?k \<mapsto> \<lparr>sa_record = r, sa_consumed_at = None\<rparr>)"
  have "?m k = Some st" using Cons.prems by (cases "m ?k") (auto split: if_splits)
  then have "insert_approvals ow i rs ?m k = Some st" by (rule Cons.IH)
  then show ?case by (simp only: insert_approvals.simps Let_def)
qed simp

lemma insert_approvals_Some:
  "insert_approvals ow i rs m k = Some st \<Longrightarrow>
     m k = Some st \<or> (m k = None \<and> sa_consumed_at st = None \<and> k = (ow, i, pa_approval_id (sa_record st)))"
proof (induction rs arbitrary: m)
  case (Cons r rs)
  let ?k = "(ow, i, pa_approval_id r)"
  let ?m = "case m ?k of Some _ \<Rightarrow> m | None \<Rightarrow> m(?k \<mapsto> \<lparr>sa_record = r, sa_consumed_at = None\<rparr>)"
  have "insert_approvals ow i rs ?m k = Some st" using Cons.prems by (simp only: insert_approvals.simps Let_def)
  from Cons.IH [OF this] show ?case by (cases "m ?k"; cases "k = ?k") auto
qed simp

lemma record_approvals_into_inv:
  assumes "store_inv s"
  shows "store_inv (record_approvals_into s ow i rs)"
proof (cases "owns_response s ow i")
  case True
  let ?s = "s\<lparr>in_approvals := insert_approvals ow i rs (in_approvals s)\<rparr>"
  have "approval_inv ?s"
    unfolding approval_inv_def
  proof (intro allI impI)
    fix ow' r a st assume "in_approvals ?s (ow', r, a) = Some st"
    then have "insert_approvals ow i rs (in_approvals s) (ow', r, a) = Some st" by simp
    from insert_approvals_Some [OF this] assms True
    show "owns_response ?s ow' r \<and> pa_approval_id (sa_record st) = a"
      by (auto simp: store_inv_def approval_inv_def)
  qed
  moreover have "conv_inv ?s = conv_inv s" "item_inv ?s = item_inv s" "resp_inv ?s = resp_inv s" "event_inv ?s = event_inv s"
    by simp_all
  ultimately show ?thesis using assms True by (simp add: store_inv_def record_approvals_into_def)
qed (use assms in \<open>simp add: record_approvals_into_def\<close>)

lemma stamp_approvals_eq:
  "stamp_approvals ow i t as m k =
     (case m k of
        None \<Rightarrow> None
      | Some st \<Rightarrow> if \<exists>a\<in>set as. k = (ow, i, a) then Some (st\<lparr>sa_consumed_at := Some t\<rparr>) else Some st)"
proof (induction as arbitrary: m)
  case (Cons a as)
  let ?m = "case m (ow, i, a) of None \<Rightarrow> m | Some stored \<Rightarrow> m((ow, i, a) \<mapsto> stored\<lparr>sa_consumed_at := Some t\<rparr>)"
  have "stamp_approvals ow i t (a # as) m k = stamp_approvals ow i t as ?m k" by (simp only: stamp_approvals.simps Let_def)
  also have "\<dots> = (case ?m k of None \<Rightarrow> None
      | Some st \<Rightarrow> if \<exists>a\<in>set as. k = (ow, i, a) then Some (st\<lparr>sa_consumed_at := Some t\<rparr>) else Some st)" by (rule Cons.IH)
  finally show ?case by (cases "m (ow, i, a)"; cases "k = (ow, i, a)") (auto split: option.split)
qed (simp split: option.split)

lemma consume_approvals_inv: "store_inv s \<Longrightarrow> store_inv (snd (consume_approvals s ow i as t))"
proof -
  assume inv: "store_inv s"
  let ?s = "s\<lparr>in_approvals := stamp_approvals ow i t as (in_approvals s)\<rparr>"
  have "approval_inv ?s"
    using inv unfolding approval_inv_def store_inv_def
    by (auto simp: stamp_approvals_eq split: option.splits if_splits)
  moreover have "conv_inv ?s = conv_inv s" "item_inv ?s = item_inv s" "resp_inv ?s = resp_inv s" "event_inv ?s = event_inv s"
    by simp_all
  ultimately show ?thesis using inv by (simp add: store_inv_def consume_approvals_def split: option.split)
qed

lemma push_events_distinct:
  "distinct (map re_sequence_number es) \<Longrightarrow> distinct (map re_sequence_number (push_events es xs))"
proof (induction xs arbitrary: es)
  case (Cons x xs)
  have "distinct (map re_sequence_number (if list_ex (\<lambda>y. re_sequence_number y = re_sequence_number x) es then es else es @ [x]))"
    using Cons.prems by (auto simp: list_ex_iff)
  from Cons.IH [OF this] show ?case by (simp only: push_events.simps)
qed simp

lemma append_events_into_inv:
  assumes "store_inv s"
  shows "store_inv (append_events_into s ow i es)"
proof (cases "owns_response s ow i")
  case True
  let ?log = "case in_events s (ow, i) of None \<Rightarrow> [] | Some l \<Rightarrow> l"
  let ?s = "s\<lparr>in_events := (in_events s)((ow, i) \<mapsto> push_events ?log es)\<rparr>"
  have "distinct (map re_sequence_number ?log)"
    using assms by (auto simp: store_inv_def event_inv_def split: option.splits)
  then have "event_inv ?s"
    using assms True push_events_distinct [of ?log es] unfolding event_inv_def store_inv_def
    by auto
  moreover have "conv_inv ?s = conv_inv s" "item_inv ?s = item_inv s" "resp_inv ?s = resp_inv s" "approval_inv ?s = approval_inv s"
    by simp_all
  ultimately show ?thesis using assms True by (simp add: store_inv_def append_events_into_def Let_def)
qed (use assms in \<open>simp add: append_events_into_def\<close>)

lemma delete_response_inv: "store_inv s \<Longrightarrow> store_inv (snd (delete_response s ow i))"
proof -
  assume inv: "store_inv s"
  let ?s = "snd (delete_response s ow i)"
  have own: "owns_response ?s ow' j" if "owns_response s ow' j" "\<not> (ow' = ow \<and> j = i)" for ow' j
    using that by (auto simp: delete_response_def Let_def owns_response_def split: option.splits if_splits)
  have "approval_inv ?s"
    unfolding approval_inv_def
  proof (intro allI impI)
    fix ow' r a st assume "in_approvals ?s (ow', r, a) = Some st"
    then have "\<not> (ow' = ow \<and> r = i)" "in_approvals s (ow', r, a) = Some st"
      by (auto simp: delete_response_def Let_def split: if_splits)
    with own inv show "owns_response ?s ow' r \<and> pa_approval_id (sa_record st) = a"
      by (simp add: store_inv_def approval_inv_def)
  qed
  moreover have "event_inv ?s"
    unfolding event_inv_def
  proof (intro allI impI)
    fix ow' r es assume "in_events ?s (ow', r) = Some es"
    then have "\<not> (ow' = ow \<and> r = i)" "in_events s (ow', r) = Some es"
      by (auto simp: delete_response_def Let_def split: if_splits)
    with own inv show "owns_response ?s ow' r \<and> distinct (map re_sequence_number es)"
      by (simp add: store_inv_def event_inv_def)
  qed
  moreover have "resp_inv ?s" using inv by (simp add: store_inv_def resp_inv_def delete_response_def Let_def)
  moreover have "conv_inv ?s = conv_inv s" "item_inv ?s = item_inv s" by (simp_all add: delete_response_def Let_def)
  ultimately show ?thesis using inv by (simp add: store_inv_def)
qed

subsection \<open>Conversations\<close>

lemma conv_invD:
  "conv_inv s \<Longrightarrow> in_conversations s (ow, c) = Some r \<Longrightarrow>
     in_conversation_ids s c = Some ow \<and> cr_owner r = ow \<and> cr_conversation_id r = c"
  by (simp add: conv_inv_def)

lemma conv_invI:
  assumes "\<And>c ow. in_conversation_ids s c = Some ow \<Longrightarrow> in_conversations s (ow, c) \<noteq> None"
    and "\<And>c ow r. in_conversations s (ow, c) = Some r \<Longrightarrow>
      in_conversation_ids s c = Some ow \<and> cr_owner r = ow \<and> cr_conversation_id r = c"
  shows "conv_inv s"
  unfolding conv_inv_def by (intro conjI allI impI assms)

lemma conv_inv_ids: "conv_inv s \<Longrightarrow> in_conversation_ids s c = Some ow \<Longrightarrow> in_conversations s (ow, c) \<noteq> None"
  by (simp add: conv_inv_def)

text \<open>Storing a conversation whose id is free or held by the same owner.\<close>

lemma conv_inv_put:
  assumes inv: "conv_inv s" and free: "in_conversation_ids s c = None \<or> in_conversation_ids s c = Some ow"
    and r: "cr_owner r = ow" "cr_conversation_id r = c"
    and s': "in_conversation_ids s' = (in_conversation_ids s)(c \<mapsto> ow)" "in_conversations s' = (in_conversations s)((ow, c) \<mapsto> r)"
  shows "conv_inv s'"
proof (rule conv_invI)
  fix d ow' assume "in_conversation_ids s' d = Some ow'"
  then show "in_conversations s' (ow', d) \<noteq> None"
    using conv_inv_ids [OF inv, of d ow'] by (auto simp: s' split: if_splits)
next
  fix d ow' r' assume g: "in_conversations s' (ow', d) = Some r'"
  show "in_conversation_ids s' d = Some ow' \<and> cr_owner r' = ow' \<and> cr_conversation_id r' = d"
  proof (cases "(ow', d) = (ow, c)")
    case False
    with g have "in_conversations s (ow', d) = Some r'" by (simp add: s' split: if_splits)
    note old = conv_invD [OF inv this]
    with free False have "d \<noteq> c" by auto
    with old show ?thesis by (simp add: s')
  qed (use g r in \<open>simp add: s'\<close>)
qed

lemma store_inv_conv_upd:
  assumes "store_inv s" and "in_conversations s (ow, c) = Some r"
    and "cr_owner r' = cr_owner r" and "cr_conversation_id r' = cr_conversation_id r"
  shows "store_inv (s\<lparr>in_conversations := (in_conversations s)((ow, c) \<mapsto> r')\<rparr>)"
proof -
  have c: "conv_inv s" using assms(1) by (simp add: store_inv_def)
  note old = conv_invD [OF c assms(2)]
  have "conv_inv (s\<lparr>in_conversations := (in_conversations s)((ow, c) \<mapsto> r')\<rparr>)"
    by (rule conv_inv_put [OF c, of c ow r']) (use old assms in \<open>auto simp: fun_upd_idem\<close>)
  with assms(1) show ?thesis by (simp add: store_inv_def)
qed

lemma upsert_conversation_inv: "store_inv s \<Longrightarrow> store_inv (snd (upsert_conversation s r))"
proof -
  assume inv: "store_inv s"
  let ?c = "cr_conversation_id r" and ?ow = "cr_owner r"
  show ?thesis
  proof (cases "snd (upsert_conversation s r) = s")
    case False
    define r' where "r' = r\<lparr>cr_created_at := (case in_conversations s (?ow, ?c) of None \<Rightarrow> cr_created_at r | Some e \<Rightarrow> cr_created_at e)\<rparr>"
    have r': "cr_owner r' = ?ow" "cr_conversation_id r' = ?c" by (simp_all add: r'_def)
    have free: "in_conversation_ids s ?c = None \<or> in_conversation_ids s ?c = Some ?ow"
      and s': "snd (upsert_conversation s r) =
        s\<lparr>in_conversation_ids := (in_conversation_ids s)(?c \<mapsto> ?ow), in_conversations := (in_conversations s)((?ow, ?c) \<mapsto> r')\<rparr>"
      using False by (auto simp: upsert_conversation_def Let_def r'_def split: if_splits option.splits)
    have "conv_inv (snd (upsert_conversation s r))"
      by (rule conv_inv_put [of s ?c ?ow r']) (use inv free r' in \<open>simp_all add: s' store_inv_def\<close>)
    with inv show ?thesis by (simp add: s' store_inv_def)
  qed (use inv in simp)
qed

lemma update_conversation_messages_inv: "store_inv s \<Longrightarrow> store_inv (snd (update_conversation_messages s ow c m))"
  by (cases "in_conversations s (ow, c)") (simp_all add: update_conversation_messages_def store_inv_conv_upd)

lemma update_conversation_metadata_inv: "store_inv s \<Longrightarrow> store_inv (snd (update_conversation_metadata s ow c m))"
  by (cases "in_conversations s (ow, c)") (simp_all add: update_conversation_metadata_def store_inv_conv_upd)

lemma compare_and_swap_inv: "store_inv s \<Longrightarrow> store_inv (snd (compare_and_swap_conversation_messages s ow c x m))"
  by (cases "in_conversations s (ow, c)") (simp_all add: compare_and_swap_conversation_messages_def store_inv_conv_upd)

lemma delete_conversation_inv: "store_inv s \<Longrightarrow> store_inv (snd (delete_conversation s ow c))"
proof -
  assume inv: "store_inv s"
  then have conv: "conv_inv s" by (simp add: store_inv_def)
  show ?thesis
  proof (cases "in_conversations s (ow, c)")
    case (Some r)
    note own = conv_invD [OF conv Some]
    have "conv_inv (snd (delete_conversation s ow c))"
    proof (rule conv_invI)
      fix d ow' assume "in_conversation_ids (snd (delete_conversation s ow c)) d = Some ow'"
      with conv_inv_ids [OF conv, of d ow'] Some show "in_conversations (snd (delete_conversation s ow c)) (ow', d) \<noteq> None"
        by (auto simp: delete_conversation_def split: if_splits)
    next
      fix d ow' r' assume g: "in_conversations (snd (delete_conversation s ow c)) (ow', d) = Some r'"
      with Some have "in_conversations s (ow', d) = Some r'" "(ow', d) \<noteq> (ow, c)"
        by (auto simp: delete_conversation_def split: if_splits)
      with conv_invD [OF conv this(1)] own Some
      show "in_conversation_ids (snd (delete_conversation s ow c)) d = Some ow' \<and> cr_owner r' = ow' \<and> cr_conversation_id r' = d"
        by (auto simp: delete_conversation_def)
    qed
    with inv Some show ?thesis by (simp add: store_inv_def delete_conversation_def)
  qed (use inv in \<open>simp add: delete_conversation_def\<close>)
qed

lemma preserve_legacy_history_inv:
  "store_inv s \<Longrightarrow> preserve_legacy_history s (ow, c) = Inr s' \<Longrightarrow> store_inv s'"
  by (cases "in_conversations s (ow, c)")
    (auto simp: preserve_legacy_history_def Let_def store_inv_conv_upd split: if_splits)

lemma preserve_legacy_history_items:
  "preserve_legacy_history s k = Inr s' \<Longrightarrow> get_items s' = get_items s \<and> in_item_ids s' = in_item_ids s \<and> in_items s' = in_items s"
  by (auto simp: preserve_legacy_history_def Let_def split: option.splits if_splits)

subsection \<open>Items\<close>

lemma reject_ids_from_Inr:
  "reject_ids_from s seen items = Inr () \<longleftrightarrow>
     distinct (map id_key items) \<and> set (map id_key items) \<inter> (seen \<union> in_item_ids s) = {}"
  by (induction items arbitrary: seen) (auto simp: id_key_def Let_def)

lemma stored_collision_eq:
  "(case in_items s (ci_owner it, ci_conversation_id it) of None \<Rightarrow> False
      | Some stored \<Rightarrow> list_ex (\<lambda>x. ci_position x = ci_position it) stored) =
   (ci_position it \<in> ci_position ` set (get_items s (item_key it)))"
proof (cases "in_items s (item_key it)")
  case None
  then show ?thesis by (simp add: get_items_def item_key_def)
next
  case (Some xs)
  then have "get_items s (item_key it) = xs" by (simp add: get_items_def)
  moreover have "list_ex (\<lambda>x. ci_position x = ci_position it) xs = (ci_position it \<in> ci_position ` set xs)"
    by (induction xs) auto
  ultimately show ?thesis using Some by (simp add: item_key_def)
qed

lemma reject_positions_from_Inr:
  "reject_positions_from s seen items = Inr () \<longleftrightarrow>
     distinct (map (\<lambda>it. (item_key it, ci_position it)) items) \<and>
     (\<forall>it \<in> set items. (ci_owner it, ci_conversation_id it, ci_position it) \<notin> seen \<and>
        ci_position it \<notin> ci_position ` set (get_items s (item_key it)))"
proof (induction items arbitrary: seen)
  case (Cons it items)
  have "(item_key it, ci_position it) \<in> set (map (\<lambda>it. (item_key it, ci_position it)) items) \<longleftrightarrow>
      (\<exists>x \<in> set items. (ci_owner x, ci_conversation_id x, ci_position x) = (ci_owner it, ci_conversation_id it, ci_position it))"
    by (induction items) (auto simp: item_key_def)
  then show ?case unfolding reject_positions_from.simps Let_def stored_collision_eq
    by (simp only: Cons.IH split: if_split) (simp, blast)
qed simp

lemma fold_push_item:
  "get_items (fold push_item items s) k = get_items s k @ filter (\<lambda>it. item_key it = k) items \<and>
   in_item_ids (fold push_item items s) = in_item_ids s \<union> set (map id_key items) \<and>
   in_responses (fold push_item items s) = in_responses s \<and> in_conversations (fold push_item items s) = in_conversations s \<and>
   in_conversation_ids (fold push_item items s) = in_conversation_ids s \<and>
   in_approvals (fold push_item items s) = in_approvals s \<and> in_events (fold push_item items s) = in_events s"
proof (induction items arbitrary: s)
  case (Cons it items)
  have "get_items (push_item it s) k = get_items s k @ (if item_key it = k then [it] else [])"
    by (auto simp: push_item_def Let_def item_key_def get_items_def)
  then show ?case using Cons.IH [of "push_item it s"] by (auto simp: push_item_def Let_def id_key_def)
qed simp

end
