(* ===== verification/Store_Runs.thy ===== *)
theory Store_Runs
  imports Store_Inv
begin

text \<open>
  The store over its lifetime, continued: the methods on conversation items keep the invariant, so
  every run does.
\<close>

lemma image_disjointI: "(\<And>y. y \<in> B \<Longrightarrow> f y \<notin> f ` A) \<Longrightarrow> f ` A \<inter> f ` B = {}"
  by (rule equals0I) (auto, metis image_eqI)

lemma item_invI:
  assumes "\<And>k it. it \<in> set (get_items s k) \<Longrightarrow> item_key it = k"
    and "\<And>x. x \<in> in_item_ids s \<longleftrightarrow> (\<exists>k it. it \<in> set (get_items s k) \<and> id_key it = x)"
    and "\<And>k k' it it'. it \<in> set (get_items s k) \<Longrightarrow> it' \<in> set (get_items s k') \<Longrightarrow> id_key it = id_key it' \<Longrightarrow> k = k'"
    and "\<And>k. distinct (map ci_item_id (get_items s k))" and "\<And>k. distinct (map ci_position (get_items s k))"
  shows "item_inv s"
  unfolding item_inv_def
proof (intro conjI allI impI)
  fix k k' it it'
  assume "it \<in> set (get_items s k)" "it' \<in> set (get_items s k')" "id_key it = id_key it'"
  then show "k = k'" by (rule assms(3))
qed (use assms(1,2,4,5) in simp_all)

lemma item_invD:
  assumes "item_inv s"
  shows "it \<in> set (get_items s k) \<Longrightarrow> item_key it = k"
    and "it \<in> set (get_items s k) \<Longrightarrow> id_key it \<in> in_item_ids s"
    and "x \<in> in_item_ids s \<Longrightarrow> \<exists>k it. it \<in> set (get_items s k) \<and> id_key it = x"
    and "it \<in> set (get_items s k) \<Longrightarrow> it' \<in> set (get_items s k') \<Longrightarrow> id_key it = id_key it' \<Longrightarrow> k = k'"
    and "distinct (map ci_item_id (get_items s k))" and "distinct (map ci_position (get_items s k))"
  using assms unfolding item_inv_def by blast+

text \<open>Adding a batch with fresh ids and positions.\<close>

lemma item_inv_extend:
  assumes inv: "item_inv s"
    and items: "\<And>k. get_items s' k = get_items s k @ filter (\<lambda>it. item_key it = k) L"
    and ids: "in_item_ids s' = in_item_ids s \<union> set (map id_key L)"
    and fresh: "distinct (map id_key L)" "set (map id_key L) \<inter> in_item_ids s = {}"
    and pos: "\<And>k. distinct (map ci_position (get_items s' k))"
  shows "item_inv s'"
proof (rule item_invI)
  have mem: "it \<in> set (get_items s' k) \<longleftrightarrow> it \<in> set (get_items s k) \<or> (it \<in> set L \<and> item_key it = k)" for it k
    by (auto simp: items)
  have inL: "it \<in> set L" "item_key it = k" if "it \<in> set (get_items s' k)" "it \<notin> set (get_items s k)" for it k
    using that mem by blast+
  show "item_key it = k" if "it \<in> set (get_items s' k)" for it k
    using that item_invD(1) [OF inv] mem by blast
  show "x \<in> in_item_ids s' \<longleftrightarrow> (\<exists>k it. it \<in> set (get_items s' k) \<and> id_key it = x)" for x
  proof -
    have "x \<in> in_item_ids s' \<longleftrightarrow> (\<exists>k it. it \<in> set (get_items s k) \<and> id_key it = x) \<or> (\<exists>it \<in> set L. id_key it = x)"
      using item_invD(2,3) [OF inv] by (simp add: ids image_iff) blast
    then show ?thesis unfolding mem by blast
  qed
  show "k = k'" if a: "it \<in> set (get_items s' k)" "it' \<in> set (get_items s' k')" "id_key it = id_key it'" for k k' it it'
  proof (cases "it \<in> set (get_items s k)"; cases "it' \<in> set (get_items s k')")
    assume "it \<in> set (get_items s k)" "it' \<in> set (get_items s k')"
    with item_invD(4) [OF inv] a(3) show ?thesis by blast
  next
    assume "it \<in> set (get_items s k)" "it' \<notin> set (get_items s k')"
    with item_invD(2) [OF inv] inL [OF a(2)] have "id_key it \<in> in_item_ids s" "id_key it' \<in> set (map id_key L)" by simp_all
    with fresh(2) a(3) have False by auto
    then show ?thesis ..
  next
    assume "it \<notin> set (get_items s k)" "it' \<in> set (get_items s k')"
    with item_invD(2) [OF inv] inL [OF a(1)] have "id_key it' \<in> in_item_ids s" "id_key it \<in> set (map id_key L)" by simp_all
    with fresh(2) a(3) have False by auto
    then show ?thesis ..
  next
    assume n: "it \<notin> set (get_items s k)" "it' \<notin> set (get_items s k')"
    with inL [OF a(1)] inL [OF a(2)] fresh(1) a(3) have "it = it'" by (auto simp: distinct_map inj_on_def)
    with inL [OF a(1)] inL [OF a(2)] n show ?thesis by simp
  qed
  show "distinct (map ci_item_id (get_items s' k))" for k
  proof -
    let ?F = "filter (\<lambda>it. item_key it = k) L"
    have "distinct (map id_key ?F)" using fresh(1) by (simp add: distinct_map_filter)
    moreover have key: "id_key it = (fst k, ci_item_id it)" if "it \<in> set (get_items s' k)" for it
    proof -
      have "item_key it = k" using that item_invD(1) [OF inv] mem by blast
      then show ?thesis by (auto simp: id_key_def item_key_def)
    qed
    then have "id_key it = (fst k, ci_item_id it)" if "it \<in> set ?F" for it using that by (simp add: items)
    ultimately have "distinct (map ci_item_id ?F)" by (simp add: distinct_map inj_on_def)
    moreover have "ci_item_id it \<noteq> ci_item_id it'" if "it \<in> set (get_items s k)" "it' \<in> set ?F" for it it'
    proof -
      have "id_key it \<in> in_item_ids s" "id_key it' \<notin> in_item_ids s"
        using that item_invD(2) [OF inv] fresh(2) by auto
      with key [of it] key [of it'] that show ?thesis by (auto simp: items)
    qed
    then have "ci_item_id ` set (get_items s k) \<inter> ci_item_id ` set ?F = {}" by blast
    ultimately show ?thesis using item_invD(5) [OF inv, of k] by (simp add: items)
  qed
qed (rule pos)

lemma create_conversation_items_inv: "store_inv s \<Longrightarrow> store_inv (snd (create_conversation_items s items))"
proof -
  assume inv: "store_inv s"
  show ?thesis
  proof (cases "snd (create_conversation_items s items) = s")
    case False
    let ?s = "fold push_item items s"
    have ok: "reject_ids_from s {} items = Inr ()" "reject_positions_from s {} items = Inr ()"
      and s': "snd (create_conversation_items s items) = ?s"
      using False by (auto simp: create_conversation_items_def reject_duplicate_item_ids_def
          reject_duplicate_item_positions_def split: if_splits sum.splits)
    have item: "item_inv s" using inv by (simp add: store_inv_def)
    have "item_inv ?s"
    proof (rule item_inv_extend [OF item])
      show "get_items ?s k = get_items s k @ filter (\<lambda>it. item_key it = k) items" for k by (simp add: fold_push_item)
      show "in_item_ids ?s = in_item_ids s \<union> set (map id_key items)" by (simp add: fold_push_item)
      show "distinct (map id_key items)" "set (map id_key items) \<inter> in_item_ids s = {}"
        using ok(1) unfolding reject_ids_from_Inr by auto
      show "distinct (map ci_position (get_items ?s k))" for k
      proof -
        let ?F = "filter (\<lambda>it. item_key it = k) items"
        have "distinct (map (\<lambda>it. (item_key it, ci_position it)) ?F)"
          using ok(2) unfolding reject_positions_from_Inr by (simp add: distinct_map_filter)
        then have "distinct (map ci_position ?F)" by (simp add: distinct_map inj_on_def)
        moreover have "ci_position ` set (get_items s k) \<inter> ci_position ` set ?F = {}"
        proof (rule image_disjointI)
          fix it assume that: "it \<in> set ?F"
          from that have it: "it \<in> set items" "item_key it = k" by simp_all
          from ok(2) it(1) have "ci_position it \<notin> ci_position ` set (get_items s (item_key it))"
            unfolding reject_positions_from_Inr by blast
          with it(2) show "ci_position it \<notin> ci_position ` set (get_items s k)" by simp
        qed
        ultimately show ?thesis using item_invD(6) [OF item, of k] by (simp add: fold_push_item)
      qed
    qed
    moreover have "conv_inv ?s" "resp_inv ?s" "approval_inv ?s" "event_inv ?s"
      using inv unfolding store_inv_def conv_inv_def resp_inv_def approval_inv_def event_inv_def owns_response_def
      by (simp_all add: fold_push_item)
    ultimately show ?thesis unfolding s' by (simp add: store_inv_def)
  qed (use inv in simp)
qed

text \<open>The append loop stamps positions counting up and pushes the stamped items.\<close>

fun stamp_items :: "int \<Rightarrow> conversation_item_record list \<Rightarrow> conversation_item_record list" where
  "stamp_items next [] = []"
| "stamp_items next (it # items) = it\<lparr>ci_position := next + 1\<rparr> # stamp_items (next + 1) items"

lemma stamp_items_simps [simp]:
  "map id_key (stamp_items n items) = map id_key items"
  "map item_key (stamp_items n items) = map item_key items"
  "map ci_item_data (stamp_items n items) = map ci_item_data items"
  by (induction items arbitrary: n) (simp_all add: id_key_def item_key_def)

lemma stamp_items_positions: "it \<in> set (stamp_items n items) \<Longrightarrow> n < ci_position it"
  by (induction items arbitrary: n) (auto, force)

lemma stamp_items_distinct: "distinct (map ci_position (stamp_items n items))"
proof (induction items arbitrary: n)
  case (Cons it items)
  have "n + 1 \<notin> ci_position ` set (stamp_items (n + 1) items)"
    by (metis imageE less_irrefl stamp_items_positions)
  with Cons show ?case by simp
qed simp

lemma append_items_eq:
  assumes "append_items n k items s = Some s'" and "\<forall>it \<in> set items. item_key it = k"
  shows "s' = s\<lparr>in_items := in_items s', in_item_ids := in_item_ids s \<union> set (map id_key items)\<rparr> \<and>
    (\<forall>k'. get_items s' k' = get_items s k' @ (if k' = k then stamp_items n items else []))"
  using assms
proof (induction items arbitrary: n s)
  case Nil
  then show ?case by simp
next
  case (Cons it items)
  let ?it = "it\<lparr>ci_position := n + 1\<rparr>"
  let ?s = "s\<lparr>in_item_ids := insert (ci_owner ?it, ci_item_id ?it) (in_item_ids s),
      in_items := (in_items s)(k \<mapsto> get_items s k @ [?it])\<rparr>"
  have run: "append_items (n + 1) k items ?s = Some s'" using Cons.prems(1) by (simp add: Let_def split: if_splits)
  have keys: "\<forall>it \<in> set items. item_key it = k" using Cons.prems(2) by simp
  note IH = Cons.IH [OF run keys, THEN conjunct1] Cons.IH [OF run keys, THEN conjunct2, THEN spec]
  have "get_items ?s k' = get_items s k' @ (if k' = k then [?it] else [])" for k' by (simp add: get_items_def)
  then have "get_items s' k' = get_items s k' @ (if k' = k then stamp_items n (it # items) else [])" for k'
    unfolding IH(2) by simp
  moreover have "s' = s\<lparr>in_items := in_items s', in_item_ids := in_item_ids s \<union> set (map id_key (it # items))\<rparr>"
    by (subst IH(1)) (simp add: id_key_def insert_commute)
  ultimately show ?case by blast
qed

lemma max_position_ge: "it \<in> set items \<Longrightarrow> ci_position it \<le> max_position items"
  by (auto simp: max_position_def)

text \<open>What a successful append changes.\<close>

lemma create_items_and_sync_cases:
  assumes "create_items_and_sync_messages s ow c items = Some (Inr (), s')" and "items \<noteq> []"
  obtains s1 where "preserve_legacy_history s (ow, c) = Inr s1" "\<forall>it \<in> set items. item_key it = (ow, c)"
    "in_conversations s (ow, c) \<noteq> None" "reject_ids_from s {} items = Inr ()"
    "append_items (max_position (get_items s1 (ow, c))) (ow, c) items s1 = Some s'"
  using assms
  by (auto simp: create_items_and_sync_messages_def require_conversation_scope_def reject_duplicate_item_ids_def
      list_all_iff item_key_def Let_def split: if_splits sum.splits)

lemma create_items_and_sync_inv:
  assumes inv: "store_inv s" and run: "create_items_and_sync_messages s ow c items = Some (r, s')"
  shows "store_inv s'"
proof (cases "items = [] \<or> r \<noteq> Inr ()")
  case True
  then have "s' = s" using run
    by (auto simp: create_items_and_sync_messages_def Let_def split: if_splits sum.splits)
  with inv show ?thesis by simp
next
  case False
  then have "create_items_and_sync_messages s ow c items = Some (Inr (), s')" "items \<noteq> []" using run by auto
  then obtain s1 where s1: "preserve_legacy_history s (ow, c) = Inr s1" "\<forall>it \<in> set items. item_key it = (ow, c)"
    "reject_ids_from s {} items = Inr ()"
    "append_items (max_position (get_items s1 (ow, c))) (ow, c) items s1 = Some s'"
    by (rule create_items_and_sync_cases)
  have inv1: "store_inv s1" using preserve_legacy_history_inv [OF inv s1(1)] .
  then have item1: "item_inv s1" by (simp add: store_inv_def)
  note same = preserve_legacy_history_items [OF s1(1)]
  let ?n = "max_position (get_items s1 (ow, c))"
  note s' = append_items_eq [OF s1(4,2), THEN conjunct1] and get = append_items_eq [OF s1(4,2), THEN conjunct2, THEN spec]
  have "item_inv s'"
  proof (rule item_inv_extend [OF item1, of s' "stamp_items ?n items"])
    fix k
    have all: "item_key it = (ow, c)" if "it \<in> set (stamp_items ?n items)" for it
    proof -
      have "item_key it \<in> set (map item_key (stamp_items ?n items))" using that by (simp del: stamp_items_simps)
      with s1(2) show ?thesis by auto
    qed
    have "filter (\<lambda>it. item_key it = k) (stamp_items ?n items) = (if k = (ow, c) then stamp_items ?n items else [])"
      using all by (auto simp: filter_empty_conv intro: filter_True)
    then show "get_items s' k = get_items s1 k @ filter (\<lambda>it. item_key it = k) (stamp_items ?n items)" using get [of k] by simp
    show "distinct (map ci_position (get_items s' k))"
    proof (cases "k = (ow, c)")
      case True
      have "ci_position ` set (get_items s1 k) \<inter> ci_position ` set (stamp_items ?n items) = {}"
        using max_position_ge [of _ "get_items s1 k"] stamp_items_positions [of _ ?n items] True by fastforce
      then show ?thesis using get [of k] item_invD(6) [OF item1, of k] True by (simp add: stamp_items_distinct)
    qed (use get [of k] item_invD(6) [OF item1, of k] in simp)
  next
    show "in_item_ids s' = in_item_ids s1 \<union> set (map id_key (stamp_items ?n items))"
      unfolding stamp_items_simps by (subst s') simp
    show "distinct (map id_key (stamp_items ?n items))" "set (map id_key (stamp_items ?n items)) \<inter> in_item_ids s1 = {}"
      using s1(3) same unfolding stamp_items_simps reject_ids_from_Inr by auto
  qed
  moreover have "conv_inv s'" "resp_inv s'" "approval_inv s'" "event_inv s'"
    using inv1 by (subst s', simp add: store_inv_def)+
  ultimately show ?thesis by (simp add: store_inv_def)
qed

text \<open>Removing the item with a given id.\<close>

lemma position_of_nth:
  "position_of P xs = Some i \<Longrightarrow> i < length xs \<and> P (xs ! i)"
  by (induction xs arbitrary: i) (auto split: if_splits)

lemma remove_nth_split:
  assumes "i < length xs"
  shows "xs = take i xs @ xs ! i # drop (Suc i) xs" "remove_nth i xs = take i xs @ drop (Suc i) xs"
  using id_take_nth_drop [OF assms] by (simp_all add: remove_nth_def)

lemma remove_by_id:
  assumes "position_of (\<lambda>it. ci_item_id it = d) xs = Some i" and "distinct (map ci_item_id xs)"
  shows "remove_nth i xs = filter (\<lambda>it. ci_item_id it \<noteq> d) xs" and "\<exists>it \<in> set xs. ci_item_id it = d"
proof -
  have i: "i < length xs" "ci_item_id (xs ! i) = d" using position_of_nth [OF assms(1)] by auto
  note xs = remove_nth_split(1) [OF i(1)]
  have dist: "distinct (map ci_item_id (take i xs @ xs ! i # drop (Suc i) xs))" using assms(2) xs by simp
  have "\<forall>it \<in> set (take i xs) \<union> set (drop (Suc i) xs). ci_item_id it \<noteq> d"
    using dist i(2) by auto (metis imageI)+
  then have "filter (\<lambda>it. ci_item_id it \<noteq> d) (take i xs @ xs ! i # drop (Suc i) xs) = take i xs @ drop (Suc i) xs"
    using i(2) by simp
  then show "remove_nth i xs = filter (\<lambda>it. ci_item_id it \<noteq> d) xs" using xs remove_nth_split(2) [OF i(1)] by simp
  show "\<exists>it \<in> set xs. ci_item_id it = d" using i by (metis nth_mem)
qed

lemma remove_item_inv:
  assumes inv: "store_inv s" and pos: "position_of (\<lambda>it. ci_item_id it = d) (get_items s (ow, c)) = Some i"
  shows "store_inv (remove_item s ow c d i)"
proof -
  have item: "item_inv s" using inv by (simp add: store_inv_def)
  let ?s = "remove_item s ow c d i"
  note rem = remove_by_id [OF pos item_invD(5) [OF item]]
  have get: "get_items ?s k = filter (\<lambda>it. \<not> (k = (ow, c) \<and> ci_item_id it = d)) (get_items s k)" for k
  proof (cases "k = (ow, c)")
    case False
    then show ?thesis by (auto simp: remove_item_def get_items_def)
  qed (simp add: remove_item_def rem(1))
  have sub: "set (get_items ?s k) \<subseteq> set (get_items s k)" for k by (auto simp: get)
  obtain old where old: "old \<in> set (get_items s (ow, c))" "ci_item_id old = d" using rem(2) by blast
  have "item_inv ?s"
  proof (rule item_invI)
    show "item_key it = k" if "it \<in> set (get_items ?s k)" for k it using that sub item_invD(1) [OF item] by blast
    show "k = k'" if "it \<in> set (get_items ?s k)" "it' \<in> set (get_items ?s k')" "id_key it = id_key it'" for k k' it it'
      using that sub item_invD(4) [OF item] by blast
    show "distinct (map ci_item_id (get_items ?s k))" "distinct (map ci_position (get_items ?s k))" for k
      unfolding get using item_invD(5,6) [OF item, of k] by (simp_all add: distinct_map_filter)
    show "x \<in> in_item_ids ?s \<longleftrightarrow> (\<exists>k it. it \<in> set (get_items ?s k) \<and> id_key it = x)" for x
    proof
      assume "x \<in> in_item_ids ?s"
      then have x: "x \<in> in_item_ids s" "x \<noteq> (ow, d)" by (simp_all add: remove_item_def)
      then obtain k it where it: "it \<in> set (get_items s k)" "id_key it = x" using item_invD(3) [OF item] by blast
      with x(2) item_invD(1) [OF item it(1)] have "it \<in> set (get_items ?s k)" by (auto simp: get id_key_def item_key_def)
      with it show "\<exists>k it. it \<in> set (get_items ?s k) \<and> id_key it = x" by blast
    next
      assume "\<exists>k it. it \<in> set (get_items ?s k) \<and> id_key it = x"
      then obtain k it where it: "it \<in> set (get_items ?s k)" "id_key it = x" by blast
      then have it': "it \<in> set (get_items s k)" using sub by blast
      have "x \<noteq> (ow, d)"
      proof
        assume x: "x = (ow, d)"
        have "item_key old = (ow, c)" using item_invD(1) [OF item old(1)] .
        with old(2) x it(2) have "id_key it = id_key old" by (simp add: id_key_def item_key_def)
        with item_invD(4) [OF item it' old(1)] have "k = (ow, c)" by simp
        moreover have "ci_item_id it = d" using x it(2) by (simp add: id_key_def)
        ultimately show False using it(1) unfolding get by simp
      qed
      with it it' item_invD(2) [OF item it'] show "x \<in> in_item_ids ?s" by (simp add: remove_item_def)
    qed
  qed
  with inv show ?thesis by (simp add: store_inv_def remove_item_def)
qed

lemma delete_conversation_item_inv: "store_inv s \<Longrightarrow> store_inv (snd (delete_conversation_item s ow c d))"
  by (auto simp: delete_conversation_item_def intro: remove_item_inv split: option.split)

lemma delete_item_and_sync_cases:
  assumes "snd (delete_item_and_sync_messages s ow c d) \<noteq> s"
  obtains i s1 where "position_of (\<lambda>it. ci_item_id it = d) (get_items s (ow, c)) = Some i"
    "preserve_legacy_history s (ow, c) = Inr s1"
    "snd (delete_item_and_sync_messages s ow c d) = remove_item s1 ow c d i \<or> snd (delete_item_and_sync_messages s ow c d) = s1"
  using assms by (auto simp: delete_item_and_sync_messages_def Let_def split: option.splits if_splits sum.splits)

lemma delete_item_and_sync_inv: "store_inv s \<Longrightarrow> store_inv (snd (delete_item_and_sync_messages s ow c d))"
proof -
  assume inv: "store_inv s"
  show ?thesis
  proof (cases "snd (delete_item_and_sync_messages s ow c d) = s")
    case False
    then obtain i s1 where s1: "position_of (\<lambda>it. ci_item_id it = d) (get_items s (ow, c)) = Some i"
      "preserve_legacy_history s (ow, c) = Inr s1"
      "snd (delete_item_and_sync_messages s ow c d) = remove_item s1 ow c d i \<or> snd (delete_item_and_sync_messages s ow c d) = s1"
      by (rule delete_item_and_sync_cases)
    have inv1: "store_inv s1" using preserve_legacy_history_inv [OF inv s1(2)] .
    have "position_of (\<lambda>it. ci_item_id it = d) (get_items s1 (ow, c)) = Some i"
      using s1(1) preserve_legacy_history_items [OF s1(2)] by simp
    from remove_item_inv [OF inv1 this] inv1 s1(3) show ?thesis by auto
  qed (use inv in simp)
qed

lemma store_step_inv: "store_inv s \<Longrightarrow> store_step s op = Some s' \<Longrightarrow> store_inv s'"
proof (cases op)
  case (CreateItemsAndSync ow c items)
  assume "store_inv s" "store_step s op = Some s'"
  with CreateItemsAndSync create_items_and_sync_inv [of s ow c items] show ?thesis by auto
next
  case (UpsertResponse r)
  assume "store_inv s" "store_step s op = Some s'"
  with UpsertResponse upsert_response_into_inv [of s r] show ?thesis
    by (auto simp: upsert_response_def split: sum.splits)
next
  case (PersistResponse r rs)
  assume inv: "store_inv s" and st: "store_step s op = Some s'"
  show ?thesis
  proof (cases "upsert_response_into s r")
    case (Inr s1)
    then have "store_inv s1" using upsert_response_into_inv [OF inv] by blast
    then have "store_inv (record_approvals_into s1 (rr_owner r) (rr_id r) rs)" by (rule record_approvals_into_inv)
    with st PersistResponse Inr show ?thesis by (simp add: persist_response_with_pending_approvals_def)
  qed (use inv st PersistResponse in \<open>simp add: persist_response_with_pending_approvals_def\<close>)
qed (auto simp: record_pending_approvals_def append_events_def record_approvals_into_inv append_events_into_inv
    delete_response_inv consume_approvals_inv upsert_conversation_inv update_conversation_messages_inv
    update_conversation_metadata_inv compare_and_swap_inv delete_conversation_inv create_conversation_items_inv
    delete_conversation_item_inv delete_item_and_sync_inv)

lemma store_run_inv: "store_inv s \<Longrightarrow> store_run s ops = Some s' \<Longrightarrow> store_inv s'"
proof (induction ops arbitrary: s)
  case (Cons op ops)
  then obtain s1 where "store_step s op = Some s1" "store_run s1 ops = Some s'" by (auto split: option.splits)
  with Cons.IH store_step_inv [OF Cons.prems(1)] show ?case by blast
qed simp

end
