(* ===== verification/Store_Props.thy ===== *)
theory Store_Props
  imports Store_Runs
begin

text \<open>
  What the store promises its callers: consistency of every run, isolation of owners, approvals
  claimed all or nothing and at most once, appends and deletions that change the replayed history
  by exactly the items concerned, and event pages that join without gaps.
\<close>

section \<open>Owners\<close>

text \<open>The owners an operation acts for.\<close>

fun op_owners :: "store_op \<Rightarrow> state_owner set" where
  "op_owners (UpsertResponse r) = {rr_owner r}"
| "op_owners (DeleteResponse ow _) = {ow}"
| "op_owners (RecordPendingApprovals ow _ _ _) = {ow}"
| "op_owners (PersistResponse r _) = {rr_owner r}"
| "op_owners (ConsumeApprovals ow _ _ _) = {ow}"
| "op_owners (AppendEvents ow _ _) = {ow}"
| "op_owners (UpsertConversation r) = {cr_owner r}"
| "op_owners (UpdateMessages ow _ _) = {ow}"
| "op_owners (UpdateMetadata ow _ _) = {ow}"
| "op_owners (CompareAndSwap ow _ _ _) = {ow}"
| "op_owners (DeleteConversation ow _) = {ow}"
| "op_owners (CreateItems items) = ci_owner ` set items"
| "op_owners (DeleteItem ow _ _) = {ow}"
| "op_owners (CreateItemsAndSync ow _ _) = {ow}"
| "op_owners (DeleteItemAndSync ow _ _) = {ow}"

text \<open>The part of the state that belongs to an owner.\<close>

record owner_view =
  ov_responses :: "string \<Rightarrow> response_record option"
  ov_conversations :: "string \<Rightarrow> conversation_record option"
  ov_items :: "string \<Rightarrow> conversation_item_record list option"
  ov_approvals :: "string \<Rightarrow> string \<Rightarrow> stored_approval option"
  ov_events :: "string \<Rightarrow> response_event_record list option"

definition view :: "inner \<Rightarrow> state_owner \<Rightarrow> owner_view" where
  "view s ow =
     \<lparr>ov_responses = (\<lambda>i. case in_responses s i of None \<Rightarrow> None | Some r \<Rightarrow> if rr_owner r = ow then Some r else None),
      ov_conversations = (\<lambda>c. in_conversations s (ow, c)),
      ov_items = (\<lambda>c. in_items s (ow, c)),
      ov_approvals = (\<lambda>r a. in_approvals s (ow, r, a)),
      ov_events = (\<lambda>r. in_events s (ow, r))\<rparr>"

lemma view_eqI:
  assumes "\<And>i. (case in_responses s' i of None \<Rightarrow> None | Some r \<Rightarrow> if rr_owner r = ow then Some r else None) =
      (case in_responses s i of None \<Rightarrow> None | Some r \<Rightarrow> if rr_owner r = ow then Some r else None)"
    and "\<And>c. in_conversations s' (ow, c) = in_conversations s (ow, c)" and "\<And>c. in_items s' (ow, c) = in_items s (ow, c)"
    and "\<And>r a. in_approvals s' (ow, r, a) = in_approvals s (ow, r, a)" and "\<And>r. in_events s' (ow, r) = in_events s (ow, r)"
  shows "view s' ow = view s ow"
  using assms by (simp add: view_def fun_eq_iff)

lemma view_insert_approvals:
  "ow \<noteq> ow' \<Longrightarrow> insert_approvals ow' i rs m (ow, r, a) = m (ow, r, a)"
proof (induction rs arbitrary: m)
  case (Cons x rs)
  have "insert_approvals ow' i (x # rs) m (ow, r, a) =
      insert_approvals ow' i rs (case m (ow', i, pa_approval_id x) of Some _ \<Rightarrow> m
        | None \<Rightarrow> m((ow', i, pa_approval_id x) \<mapsto> \<lparr>sa_record = x, sa_consumed_at = None\<rparr>)) (ow, r, a)"
    by (simp only: insert_approvals.simps Let_def)
  with Cons show ?case by (simp split: option.split)
qed simp

lemma view_record_approvals: "ow \<noteq> ow' \<Longrightarrow> view (record_approvals_into s ow' i rs) ow = view s ow"
  by (rule view_eqI) (simp_all add: record_approvals_into_def view_insert_approvals)

lemma view_upsert_response:
  assumes "ow \<noteq> rr_owner r" and "upsert_response_into s r = Inr s'"
  shows "view s' ow = view s ow"
proof -
  have s': "s' = s\<lparr>in_responses := (in_responses s)(rr_id r \<mapsto> r)\<rparr>"
    using assms(2) by (simp add: upsert_response_into_def split: option.splits if_splits)
  have ex: "rr_owner e = rr_owner r" if "in_responses s (rr_id r) = Some e" for e
    using assms(2) that by (simp add: upsert_response_into_def split: if_splits)
  show ?thesis
  proof (rule view_eqI)
    fix i
    show "(case in_responses s' i of None \<Rightarrow> None | Some r \<Rightarrow> if rr_owner r = ow then Some r else None) =
      (case in_responses s i of None \<Rightarrow> None | Some r \<Rightarrow> if rr_owner r = ow then Some r else None)"
      using ex assms(1) by (cases "in_responses s i"; cases "i = rr_id r") (simp_all add: s')
  qed (simp_all add: s')
qed

lemma view_preserve: "ow \<noteq> fst k \<Longrightarrow> preserve_legacy_history s k = Inr s' \<Longrightarrow> view s' ow = view s ow"
  by (cases k, rule view_eqI) (auto simp: preserve_legacy_history_def Let_def split: option.splits if_splits)

lemma view_push: "ow \<notin> ci_owner ` set items \<Longrightarrow> view (fold push_item items s) ow = view s ow"
proof (induction items arbitrary: s)
  case (Cons it items)
  have "view (push_item it s) ow = view s ow"
    using Cons.prems by (intro view_eqI) (auto simp: push_item_def Let_def)
  with Cons show ?case by simp
qed simp

lemma view_append: "ow \<noteq> fst k \<Longrightarrow> append_items n k items s = Some s' \<Longrightarrow> view s' ow = view s ow"
proof (induction items arbitrary: n s)
  case (Cons it items)
  let ?s = "s\<lparr>in_item_ids := insert (ci_owner it, ci_item_id it) (in_item_ids s),
      in_items := (in_items s)(k \<mapsto> get_items s k @ [it\<lparr>ci_position := n + 1\<rparr>])\<rparr>"
  have "append_items (n + 1) k items ?s = Some s'" using Cons.prems(2) by (simp add: Let_def split: if_splits)
  then have "view s' ow = view ?s ow" by (rule Cons.IH [OF Cons.prems(1)])
  also have "\<dots> = view s ow" using Cons.prems(1) by (intro view_eqI) (cases k, auto)+
  finally show ?case .
qed simp

lemma view_remove: "ow \<noteq> ow' \<Longrightarrow> view (remove_item s ow' c d i) ow = view s ow"
  by (rule view_eqI) (simp_all add: remove_item_def)

lemma view_create_and_sync:
  assumes "ow \<noteq> ow'" and "create_items_and_sync_messages s ow' c items = Some (r, s')"
  shows "view s' ow = view s ow"
proof (cases "items = [] \<or> r \<noteq> Inr ()")
  case True
  then have "s' = s" using assms(2)
    by (auto simp: create_items_and_sync_messages_def Let_def split: if_splits sum.splits)
  then show ?thesis by simp
next
  case False
  then obtain s1 where "preserve_legacy_history s (ow', c) = Inr s1"
    "append_items (max_position (get_items s1 (ow', c))) (ow', c) items s1 = Some s'"
    using create_items_and_sync_cases [of s ow' c items s'] assms(2) by blast
  with assms(1) view_preserve [of ow "(ow', c)" s s1] view_append [of ow "(ow', c)" _ items s1 s'] show ?thesis by simp
qed

lemma view_delete_and_sync:
  assumes "ow \<noteq> ow'"
  shows "view (snd (delete_item_and_sync_messages s ow' c d)) ow = view s ow"
proof (cases "snd (delete_item_and_sync_messages s ow' c d) = s")
  case False
  then obtain i s1 where s1: "preserve_legacy_history s (ow', c) = Inr s1"
    "snd (delete_item_and_sync_messages s ow' c d) = remove_item s1 ow' c d i \<or> snd (delete_item_and_sync_messages s ow' c d) = s1"
    by (rule delete_item_and_sync_cases)
  have "view s1 ow = view s ow" using view_preserve [of ow "(ow', c)"] s1(1) assms by simp
  with s1(2) view_remove [OF assms, of s1 c d i] show ?thesis by auto
qed simp

text \<open>A step that does not act for an owner leaves that owner's view alone.\<close>

lemma store_step_view:
  assumes "ow \<notin> op_owners op" and "store_step s op = Some s'"
  shows "view s' ow = view s ow"
proof (cases op)
  case (CreateItemsAndSync ow' c items)
  with assms view_create_and_sync [of ow ow' s c items] show ?thesis by auto
next
  case (UpsertResponse r)
  with assms view_upsert_response [of ow r s] show ?thesis by (auto simp: upsert_response_def split: sum.splits)
next
  case (PersistResponse r rs)
  with assms view_upsert_response [of ow r s] view_record_approvals [of ow "rr_owner r"] show ?thesis
    by (auto simp: persist_response_with_pending_approvals_def split: sum.splits)
next
  case (CreateItems items)
  with assms view_push [of ow items s] show ?thesis
    by (auto simp: create_conversation_items_def split: if_splits sum.splits)
next
  case (DeleteItemAndSync ow' c d)
  with assms view_delete_and_sync [of ow ow' s c d] show ?thesis by auto
next
  case (DeleteItem ow' c d)
  with assms view_remove [of ow ow'] show ?thesis by (auto simp: delete_conversation_item_def split: option.splits)
next
  case (RecordPendingApprovals ow' i rs t)
  with assms view_record_approvals [of ow ow'] show ?thesis by (auto simp: record_pending_approvals_def)
next
  case (DeleteResponse ow' i)
  with assms show ?thesis
    by (auto intro!: view_eqI simp: delete_response_def owns_response_def Let_def split: option.splits)
next
  case (ConsumeApprovals ow' i as t)
  with assms show ?thesis
    by (auto intro!: view_eqI simp: consume_approvals_def stamp_approvals_eq split: option.splits)
next
  case (AppendEvents ow' i es)
  with assms show ?thesis by (auto intro!: view_eqI simp: append_events_def append_events_into_def Let_def)
qed (use assms in \<open>auto intro!: view_eqI simp: upsert_conversation_def update_conversation_messages_def
      update_conversation_metadata_def compare_and_swap_conversation_messages_def delete_conversation_def Let_def
      split: option.splits if_splits\<close>)

lemma store_run_view:
  "\<forall>op \<in> set ops. ow \<notin> op_owners op \<Longrightarrow> store_run s ops = Some s' \<Longrightarrow> view s' ow = view s ow"
proof (induction ops arbitrary: s)
  case (Cons op ops)
  then obtain s1 where s1: "store_step s op = Some s1" "store_run s1 ops = Some s'" by (auto split: option.splits)
  with Cons have "view s' ow = view s1 ow" by simp
  also have "\<dots> = view s ow" using store_step_view [OF _ s1(1)] Cons.prems(1) by simp
  finally show ?case .
qed simp

section \<open>Approvals\<close>

text \<open>The reasons to refuse the id at index \<open>i\<close> of a batch: repeated, unknown or consumed.\<close>

definition unclaimable :: "inner \<Rightarrow> state_owner \<Rightarrow> string \<Rightarrow> string list \<Rightarrow> nat \<Rightarrow> bool" where
  "unclaimable s ow r as i \<longleftrightarrow> i < length as \<and>
     (as ! i \<in> set (take i as) \<or>
      (case in_approvals s (ow, r, as ! i) of None \<Rightarrow> True | Some st \<Rightarrow> sa_consumed_at st \<noteq> None))"

lemma first_unclaimable_spec:
  "case first_unclaimable s ow r seen n as of
     None \<Rightarrow> \<forall>i < length as. as ! i \<notin> seen \<and> \<not> unclaimable s ow r as i
   | Some j \<Rightarrow> n \<le> j \<and> j - n < length as \<and> (as ! (j - n) \<in> seen \<or> unclaimable s ow r as (j - n)) \<and>
       (\<forall>i < j - n. as ! i \<notin> seen \<and> \<not> unclaimable s ow r as i)"
proof (induction as arbitrary: seen n)
  case (Cons a as)
  let ?bad = "a \<in> seen \<or> (case in_approvals s (ow, r, a) of None \<Rightarrow> True | Some st \<Rightarrow> sa_consumed_at st \<noteq> None)"
  have un0: "unclaimable s ow r (a # as) 0 \<longleftrightarrow> (case in_approvals s (ow, r, a) of None \<Rightarrow> True | Some st \<Rightarrow> sa_consumed_at st \<noteq> None)"
    by (simp add: unclaimable_def)
  have unS: "as ! i \<notin> insert a seen \<and> \<not> unclaimable s ow r as i \<longleftrightarrow>
      (a # as) ! Suc i \<notin> seen \<and> \<not> unclaimable s ow r (a # as) (Suc i)" if "i < length as" for i
    using that by (auto simp: unclaimable_def)
  show ?case
  proof (cases ?bad)
    case True
    then have "first_unclaimable s ow r seen n (a # as) = Some n" by (auto split: option.splits)
    with True un0 show ?thesis by (simp del: first_unclaimable.simps)
  next
    case False
    then have step: "first_unclaimable s ow r seen n (a # as) = first_unclaimable s ow r (insert a seen) (Suc n) as"
      by (auto split: option.splits)
    have z: "a \<notin> seen" "\<not> unclaimable s ow r (a # as) 0" using False un0 by auto
    note IH = Cons.IH [of "insert a seen" "Suc n"]
    show ?thesis
    proof (cases "first_unclaimable s ow r (insert a seen) (Suc n) as")
      case None
      have "(a # as) ! i \<notin> seen \<and> \<not> unclaimable s ow r (a # as) i" if "i < length (a # as)" for i
      proof (cases i)
        case (Suc m)
        with that IH None unS [of m] show ?thesis by simp
      qed (use z in simp)
      with None step show ?thesis by (simp del: first_unclaimable.simps)
    next
      case (Some j)
      with IH have j: "Suc n \<le> j" "j - Suc n < length as" "as ! (j - Suc n) \<in> insert a seen \<or> unclaimable s ow r as (j - Suc n)"
        "\<forall>i < j - Suc n. as ! i \<notin> insert a seen \<and> \<not> unclaimable s ow r as i" by simp_all
      have jn: "j - n = Suc (j - Suc n)" using j(1) by simp
      have "(a # as) ! i \<notin> seen \<and> \<not> unclaimable s ow r (a # as) i" if "i < j - n" for i
      proof (cases i)
        case (Suc m)
        with that jn have "m < j - Suc n" by simp
        with j(2,4) unS [of m] Suc show ?thesis by simp
      qed (use z in simp)
      moreover have "(a # as) ! (j - n) \<in> seen \<or> unclaimable s ow r (a # as) (j - n)"
        using j(3) unS [OF j(2)] unfolding jn by blast
      ultimately show ?thesis using Some step j(1,2) by (simp del: first_unclaimable.simps)
    qed
  qed
qed simp

text \<open>
  C39. Claiming a batch of approvals is all or nothing: if some id is a repetition, is unknown to the
  response and owner, or was consumed, the index of the first such id is returned and no row
  changes; otherwise exactly the rows of the batch are stamped, with their records untouched.
\<close>

theorem consume_approvals_all_or_nothing:
  "consume_approvals s ow r as t =
     (if \<exists>i. unclaimable s ow r as i then (Inr (Some (LEAST i. unclaimable s ow r as i)), s)
      else (Inr None, s\<lparr>in_approvals := (\<lambda>k. if \<exists>a. a \<in> set as \<and> k = (ow, r, a)
              then map_option (\<lambda>st. st\<lparr>sa_consumed_at := Some t\<rparr>) (in_approvals s k) else in_approvals s k)\<rparr>))"
proof (cases "first_unclaimable s ow r {} 0 as")
  case None
  then have "\<nexists>i. unclaimable s ow r as i" using first_unclaimable_spec [where s = s and ow = ow and r = r and seen = "{}" and n = 0 and as = as] by (auto simp: unclaimable_def)
  moreover have "stamp_approvals ow r t as (in_approvals s) = (\<lambda>k. if \<exists>a. a \<in> set as \<and> k = (ow, r, a)
              then map_option (\<lambda>st. st\<lparr>sa_consumed_at := Some t\<rparr>) (in_approvals s k) else in_approvals s k)"
    by (rule ext) (auto simp: stamp_approvals_eq split: option.split)
  ultimately show ?thesis using None by (simp add: consume_approvals_def)
next
  case (Some j)
  then have j: "unclaimable s ow r as j" "\<forall>i < j. \<not> unclaimable s ow r as i"
    using first_unclaimable_spec [where s = s and ow = ow and r = r and seen = "{}" and n = 0 and as = as] by auto
  then have "(LEAST i. unclaimable s ow r as i) = j" by (intro Least_equality) (auto simp: not_less [symmetric])
  with Some j(1) show ?thesis by (auto simp: consume_approvals_def)
qed

text \<open>A consumed row stays as it is until its response is deleted.\<close>

lemma consumed_row_stays:
  assumes "in_approvals s (ow, r, a) = Some st" and "sa_consumed_at st \<noteq> None"
    and "store_step s op = Some s'" and "op \<noteq> DeleteResponse ow r"
  shows "\<exists>st'. in_approvals s' (ow, r, a) = Some st' \<and> sa_consumed_at st' \<noteq> None"
proof -
  have rec: "in_approvals (record_approvals_into s0 o0 i0 rs) (ow, r, a) = Some st"
    if "in_approvals s0 (ow, r, a) = Some st" for s0 o0 i0 rs
    using insert_approvals_keep [of "in_approvals s0" "(ow, r, a)" st] that by (simp add: record_approvals_into_def)
  have ups: "in_approvals s0 = in_approvals s" if "upsert_response_into s x = Inr s0" for x s0
    using that by (auto simp: upsert_response_into_def split: option.splits if_splits)
  have pre: "in_approvals s1 = in_approvals s" if "preserve_legacy_history s k = Inr s1" for k s1
    using that by (auto simp: preserve_legacy_history_def Let_def split: option.splits if_splits)
  have app: "in_approvals s2 = in_approvals s1" if "append_items n k items s1 = Some s2" for n k items s1 s2
    using that by (induction n k items s1 rule: append_items.induct) (auto simp: Let_def split: if_splits)
  show ?thesis
  proof (cases op)
    case (ConsumeApprovals o0 i0 as t)
    with assms show ?thesis by (auto simp: consume_approvals_def stamp_approvals_eq split: option.splits)
  next
    case (RecordPendingApprovals o0 i0 rs t)
    with assms rec [OF assms(1)] show ?thesis by (auto simp: record_pending_approvals_def)
  next
    case (PersistResponse x rs)
    show ?thesis
    proof (cases "upsert_response_into s x")
      case (Inr s0)
      with ups have "in_approvals s0 (ow, r, a) = Some st" using assms(1) by metis
      with rec Inr PersistResponse assms show ?thesis by (auto simp: persist_response_with_pending_approvals_def)
    qed (use PersistResponse assms in \<open>auto simp: persist_response_with_pending_approvals_def\<close>)
  next
    case (UpsertResponse x)
    with assms ups show ?thesis by (auto simp: upsert_response_def split: sum.splits)
  next
    case (DeleteResponse o0 i0)
    with assms show ?thesis by (auto simp: delete_response_def Let_def)
  next
    case (CreateItems items)
    with assms show ?thesis by (auto simp: create_conversation_items_def fold_push_item split: if_splits sum.splits)
  next
    case (CreateItemsAndSync o0 c items)
    with assms pre app show ?thesis
      by (fastforce simp: create_items_and_sync_messages_def Let_def split: if_splits sum.splits)
  next
    case (DeleteItemAndSync o0 c d)
    show ?thesis
    proof (cases "s' = s")
      case False
      with DeleteItemAndSync assms(3) obtain i s1 where "preserve_legacy_history s (o0, c) = Inr s1"
        "s' = remove_item s1 o0 c d i \<or> s' = s1" using delete_item_and_sync_cases [of s o0 c d] by (metis option.inject store_step.simps(15))
      with pre assms show ?thesis by (auto simp: remove_item_def)
    qed (use assms in auto)
  qed (use assms in \<open>auto simp: append_events_def append_events_into_def upsert_conversation_def update_conversation_messages_def
      update_conversation_metadata_def compare_and_swap_conversation_messages_def delete_conversation_def
      delete_conversation_item_def remove_item_def Let_def split: option.splits if_splits\<close>)
qed

lemma consumed_row_stays_run:
  assumes "in_approvals s (ow, r, a) = Some st" and "sa_consumed_at st \<noteq> None"
    and "store_run s ops = Some s'" and "DeleteResponse ow r \<notin> set ops"
  shows "\<exists>st'. in_approvals s' (ow, r, a) = Some st' \<and> sa_consumed_at st' \<noteq> None"
  using assms
proof (induction ops arbitrary: s st)
  case (Cons op ops)
  then obtain s1 where s1: "store_step s op = Some s1" "store_run s1 ops = Some s'" by (auto split: option.splits)
  have "op \<noteq> DeleteResponse ow r" using Cons.prems(4) by auto
  then obtain st1 where "in_approvals s1 (ow, r, a) = Some st1" "sa_consumed_at st1 \<noteq> None"
    using consumed_row_stays [OF Cons.prems(1,2) s1(1)] by blast
  with Cons.IH s1(2) Cons.prems(4) show ?case by simp
qed auto

section \<open>History\<close>

lemma insert_by_append: "\<forall>y \<in> set ys. le x y \<Longrightarrow> insert_by le x (zs @ ys) = insert_by le x zs @ ys"
proof (induction zs)
  case Nil
  then show ?case by (cases ys) simp_all
qed simp

lemma sort_by_append:
  assumes "\<forall>x \<in> set xs. \<forall>y \<in> set ys. le x y"
  shows "sort_by le (xs @ ys) = sort_by le xs @ sort_by le ys"
proof -
  have ins: "set (insert_by le x zs) = insert x (set zs)" for x zs by (induction zs) auto
  have set: "set (sort_by le zs) = set zs" for zs by (induction zs) (simp_all add: sort_by_def ins)
  have "foldr (insert_by le) xs (sort_by le ys) = foldr (insert_by le) xs [] @ sort_by le ys"
    using assms by (induction xs) (auto simp: insert_by_append set)
  then show ?thesis by (simp add: sort_by_def)
qed

lemma sort_by_sorted: "sorted_wrt le ys \<Longrightarrow> sort_by le ys = ys"
proof (induction ys)
  case (Cons y ys)
  then show ?case by (cases ys) (simp_all add: sort_by_def)
qed (simp add: sort_by_def)

lemma stamp_items_sorted: "sorted_wrt item_le (stamp_items n items)"
proof (induction items arbitrary: n)
  case (Cons it items)
  have "item_le (it\<lparr>ci_position := n + 1\<rparr>) x" if "x \<in> set (stamp_items (n + 1) items)" for x
    using stamp_items_positions [OF that] by (simp add: item_le_def)
  with Cons.IH show ?case by simp
qed simp

lemma ordered_messages_append:
  "ordered_messages (xs @ stamp_items (max_position xs) items) = ordered_messages xs @ map ci_item_data items"
proof -
  have "\<forall>x \<in> set xs. \<forall>y \<in> set (stamp_items (max_position xs) items). item_le x y"
    using max_position_ge [of _ xs] stamp_items_positions [of _ "max_position xs" items] by (force simp: item_le_def)
  then show ?thesis by (simp add: ordered_messages_def sort_by_append sort_by_sorted [OF stamp_items_sorted])
qed

lemma history_preserved:
  assumes "preserve_legacy_history s k = Inr s1" and "in_conversations s k = Some r" and "new \<noteq> []"
  shows "\<exists>r1. in_conversations s1 k = Some r1 \<and>
    history_of r1 (get_items s k @ new) = take (length (history_of r (get_items s k)) - length (get_items s k)) (history_of r (get_items s k)) @
      ordered_messages (get_items s k @ new)"
proof -
  have len: "length (sort_by le xs) = length xs" for le :: "'a \<Rightarrow> 'a \<Rightarrow> bool" and xs
  proof (induction xs)
    case (Cons x xs)
    have "length (insert_by le x ys) = Suc (length ys)" for ys by (induction ys) auto
    with Cons show ?case by (simp add: sort_by_def)
  qed (simp add: sort_by_def)
  have om: "length (ordered_messages xs) = length xs" for xs by (simp add: ordered_messages_def len)
  show ?thesis
  proof (cases "has_legacy (cr_messages r)")
    case True
    with assms(1,2) have "s1 = s" by (simp add: preserve_legacy_history_def)
    with assms(2,3) True show ?thesis
      by (auto simp: history_of_def has_legacy_def json_is_array_def json_as_array_def json_get_def om Let_def split: option.splits json.splits)
  next
    case False
    define m where "m = (if get_items s k = [] \<and> (case json_as_array (cr_messages r) of None \<Rightarrow> False | Some ms \<Rightarrow> ms \<noteq> [])
        then JObject [(''legacy_messages'', cr_messages r)] else JArray [])"
    have ok: "get_items s k \<noteq> [] \<or> json_is_null (cr_messages r) \<or> json_is_array (cr_messages r)"
      and s1: "in_conversations s1 k = Some (r\<lparr>cr_messages := m\<rparr>)"
      using assms(1,2) False by (auto simp: preserve_legacy_history_def Let_def m_def split: if_splits)
    have nl: "(case json_get (cr_messages r) ''legacy_messages'' of None \<Rightarrow> [] | Some v \<Rightarrow> (case json_as_array v of None \<Rightarrow> [] | Some ms \<Rightarrow> ms)) = []"
      using False by (auto simp: has_legacy_def json_is_array_def split: option.splits)
    show ?thesis
    proof (cases "get_items s k = []")
      case True
      with ok s1 nl assms(3) show ?thesis
        by (cases "cr_messages r") (auto simp: history_of_def m_def json_is_null_def json_is_array_def json_as_array_def json_get_def om Let_def)
    next
      case items: False
      with s1 nl assms(3) show ?thesis by (auto simp: history_of_def m_def json_get_def om Let_def)
    qed
  qed
qed

lemma sort_by_length: "length (sort_by le xs) = length xs"
proof (induction xs)
  case (Cons x xs)
  have "length (insert_by le x ys) = Suc (length ys)" for ys by (induction ys) auto
  with Cons show ?case by (simp add: sort_by_def)
qed (simp add: sort_by_def)

lemma history_split:
  "take (length (history_of r items) - length items) (history_of r items) @ ordered_messages items = history_of r items"
  by (simp add: history_of_def Let_def ordered_messages_def sort_by_length)

text \<open>
  C24. Appending to a conversation appends to its history: when the append succeeds, the history
  replayed afterwards is the history replayed before followed by the data of the new items in
  their order, whether the history so far came from item rows, from a preserved legacy prefix, from
  both, or only from the retired message cache.
\<close>

theorem append_extends_history:
  assumes "create_items_and_sync_messages s ow c items = Some (Inr (), s')"
    and "conversation_history s ow c = Inr (Some h)"
  shows "conversation_history s' ow c = Inr (Some (h @ map ci_item_data items))"
proof (cases "items = []")
  case True
  with assms show ?thesis by (simp add: create_items_and_sync_messages_def)
next
  case False
  obtain s1 where s1: "preserve_legacy_history s (ow, c) = Inr s1" "\<forall>it \<in> set items. item_key it = (ow, c)"
    "append_items (max_position (get_items s1 (ow, c))) (ow, c) items s1 = Some s'"
    using create_items_and_sync_cases [OF assms(1) False] by blast
  let ?xs = "get_items s (ow, c)"
  let ?new = "stamp_items (max_position ?xs) items"
  have same: "get_items s1 = get_items s" using preserve_legacy_history_items [OF s1(1)] by simp
  obtain r where r: "in_conversations s (ow, c) = Some r" "h = history_of r ?xs"
    using assms(2) by (auto simp: conversation_history_def split: option.splits)
  have "?new \<noteq> []" using False by (cases items) simp_all
  from history_preserved [OF s1(1) r(1) this] obtain r1 where r1: "in_conversations s1 (ow, c) = Some r1"
    "history_of r1 (?xs @ ?new) = take (length h - length ?xs) h @ ordered_messages (?xs @ ?new)" using r(2) by blast
  have "get_items s' (ow, c) = ?xs @ ?new"
    using append_items_eq [OF s1(3,2), THEN conjunct2, THEN spec, of "(ow, c)"] by (simp add: same)
  moreover have "in_conversations s' (ow, c) = Some r1"
    using r1(1) by (subst append_items_eq [OF s1(3,2), THEN conjunct1]) simp
  moreover have "history_of r1 (?xs @ ?new) = h @ map ci_item_data items"
    using r1(2) history_split [of r ?xs] by (simp add: ordered_messages_append r(2))
  ultimately show ?thesis by (simp add: conversation_history_def)
qed

section \<open>Sample\<close>

definition alice :: state_owner where
  "alice = \<lparr>so_tenant_id = ''t'', so_issuer = ''i'', so_subject = ''alice''\<rparr>"

definition bob :: state_owner where
  "bob = \<lparr>so_tenant_id = ''t'', so_issuer = ''i'', so_subject = ''bob''\<rparr>"

definition sample_response :: response_record where
  "sample_response = \<lparr>rr_id = ''r1'', rr_owner = alice, rr_created_at = 1, rr_model = ''m'', rr_response_object = JNull,
     rr_input = JNull, rr_messages = JNull\<rparr>"

definition sample_conversation :: conversation_record where
  "sample_conversation = \<lparr>cr_conversation_id = ''c1'', cr_owner = alice, cr_created_at = 1, cr_metadata = JNull,
     cr_messages = JArray [JString ''old'']\<rparr>"

definition sample_item :: "string \<Rightarrow> conversation_item_record" where
  "sample_item i = \<lparr>ci_item_id = i, ci_owner = alice, ci_conversation_id = ''c1'', ci_item_data = JString i, ci_created_at = 1, ci_position = 0\<rparr>"

definition sample_approval :: "string \<Rightarrow> pending_approval_record" where
  "sample_approval a = \<lparr>pa_approval_id = a, pa_server_label = ''s'', pa_tool_name = ''t'', pa_arguments = ''{}'', pa_target_fingerprint = ''f''\<rparr>"

definition sample_event :: "nat \<Rightarrow> response_event_record" where
  "sample_event n = \<lparr>re_response_id = ''r1'', re_owner = alice, re_sequence_number = n, re_event_type = ''e'', re_payload = ''{}'',
     re_terminal = False, re_created_at = 1\<rparr>"

definition sample_ops :: "store_op list" where
  "sample_ops = [PersistResponse sample_response [sample_approval ''a1''], UpsertConversation sample_conversation,
     CreateItemsAndSync alice ''c1'' [sample_item ''x''],
     AppendEvents alice ''r1'' [sample_event 2, sample_event 1, sample_event 2, sample_event 5]]"

definition sample_store :: inner where
  "sample_store = the (store_run store_new sample_ops)"

lemma sample_store_run: "store_run store_new sample_ops = Some sample_store"
proof -
  have "store_run store_new sample_ops \<noteq> None" by code_simp
  then show ?thesis by (auto simp: sample_store_def)
qed

theorem append_extends_history_witness:
  "conversation_history sample_store alice ''c1'' = Inr (Some [JString ''old'', JString ''x'']) \<and>
   conversation_history (snd (the (create_items_and_sync_messages sample_store alice ''c1'' [sample_item ''y''])) ) alice ''c1'' =
     Inr (Some ([JString ''old'', JString ''x''] @ map ci_item_data [sample_item ''y'']))"
proof -
  let ?r = "create_items_and_sync_messages sample_store alice ''c1'' [sample_item ''y'']"
  have "?r \<noteq> None \<and> fst (the ?r) = Inr ()" by code_simp
  then have r: "?r = Some (Inr (), snd (the ?r))" by (cases ?r) (auto simp: prod_eq_iff)
  have h: "conversation_history sample_store alice ''c1'' = Inr (Some [JString ''old'', JString ''x''])" by code_simp
  from append_extends_history [OF r h] h show ?thesis by (rule conjI [rotated])
qed

section \<open>Consistency and isolation\<close>

text \<open>
  C13. Every run of the store from the empty state is consistent: a conversation id has one owner, the
  one under which its record is stored; items lie under their own owner and conversation, the id
  set holds exactly the stored ids, no id occurs twice for an owner and no position twice in a
  conversation; approvals and event logs exist only for a response their owner still owns, and no
  sequence number is stored twice.
\<close>

theorem store_run_consistent:
  assumes "store_run store_new ops = Some s"
  shows "store_inv s"
  using store_run_inv [OF store_inv_new assms] .

theorem store_run_consistent_witness:
  "store_inv sample_store \<and> in_item_ids sample_store = {(alice, ''x'')}"
proof -
  have "in_item_ids sample_store = {(alice, ''x'')}" by code_simp
  with store_run_consistent [OF sample_store_run] show ?thesis by blast
qed

text \<open>
  C2. Owners are isolated: whatever operations other owners perform, in any order and including
  attempts to reuse foreign ids, every read method returns for an owner exactly what it returned
  before.
\<close>

theorem owners_isolated:
  assumes "store_run s ops = Some s'" and "\<forall>op \<in> set ops. ow \<notin> op_owners op"
  shows "get_response s' ow i = get_response s ow i \<and> get_conversation s' ow c = get_conversation s ow c \<and>
    get_pending_approvals s' ow r as = get_pending_approvals s ow r as \<and>
    list_events_after s' ow r after n = list_events_after s ow r after n \<and>
    event_log_status s' ow r = event_log_status s ow r \<and>
    list_conversation_items s' ow c cursor n asc = list_conversation_items s ow c cursor n asc \<and>
    get_existing_conversation_item_ids s' ow c ids = get_existing_conversation_item_ids s ow c ids \<and>
    get_conversation_item s' ow c d = get_conversation_item s ow c d \<and>
    conversation_item_position s' ow c d = conversation_item_position s ow c d \<and>
    max_item_position s' ow c = max_item_position s ow c \<and> conversation_history s' ow c = conversation_history s ow c"
proof -
  have v: "view s' ow = view s ow" using store_run_view [OF assms(2,1)] .
  have "ov_responses (view s' ow) i = ov_responses (view s ow) i" "ov_conversations (view s' ow) c = ov_conversations (view s ow) c"
    "ov_items (view s' ow) c = ov_items (view s ow) c" "ov_events (view s' ow) r = ov_events (view s ow) r"
    "ov_approvals (view s' ow) r a = ov_approvals (view s ow) r a" for a by (simp_all only: v)
  then have parts: "(case in_responses s' i of None \<Rightarrow> None | Some r \<Rightarrow> if rr_owner r = ow then Some r else None) =
      (case in_responses s i of None \<Rightarrow> None | Some r \<Rightarrow> if rr_owner r = ow then Some r else None)"
    "in_conversations s' (ow, c) = in_conversations s (ow, c)" "in_items s' (ow, c) = in_items s (ow, c)"
    "in_events s' (ow, r) = in_events s (ow, r)" "in_approvals s' (ow, r, a) = in_approvals s (ow, r, a)" for a
    by (simp_all add: view_def)
  have items: "get_items s' (ow, c) = get_items s (ow, c)" by (simp add: get_items_def parts(3))
  show ?thesis
    unfolding get_response_def get_conversation_def get_pending_approvals_def list_events_after_def event_log_status_def
      list_conversation_items_def get_existing_conversation_item_ids_def get_conversation_item_def
      conversation_item_position_def max_item_position_def conversation_history_def parts items
    by (intro conjI refl)
qed

definition bob_ops :: "store_op list" where
  "bob_ops = [UpsertResponse (sample_response\<lparr>rr_owner := bob\<rparr>), DeleteResponse bob ''r1'',
     UpsertConversation (sample_conversation\<lparr>cr_owner := bob\<rparr>), DeleteItem bob ''c1'' ''x'', ConsumeApprovals bob ''r1'' [''a1''] 9]"

theorem owners_isolated_witness:
  "get_response (the (store_run sample_store bob_ops)) alice ''r1'' = get_response sample_store alice ''r1'' \<and>
   get_response sample_store alice ''r1'' = Inr (Some sample_response)"
proof -
  have run: "store_run sample_store bob_ops = Some (the (store_run sample_store bob_ops))"
  proof -
    have "store_run sample_store bob_ops \<noteq> None" by code_simp
    then show ?thesis by auto
  qed
  have own: "\<forall>op \<in> set bob_ops. alice \<notin> op_owners op" by code_simp
  have "get_response sample_store alice ''r1'' = Inr (Some sample_response)" by code_simp
  with owners_isolated [OF run own, of "''r1''"] show ?thesis by blast
qed

text \<open>
  C14. An approval is used at most once: once a batch with it has been claimed, every later batch
  that contains it is refused, whatever happens in between, re-emission of the same approval
  included, as long as its owner does not delete the response.
\<close>

theorem approval_used_at_most_once:
  assumes "consume_approvals s ow r as t = (Inr None, s1)" and "a \<in> set as"
    and "store_run s1 ops = Some s2" and "DeleteResponse ow r \<notin> set ops" and "a \<in> set bs"
  shows "\<exists>i. consume_approvals s2 ow r bs t' = (Inr (Some i), s2)"
proof -
  have none: "first_unclaimable s ow r {} 0 as = None" and s1: "s1 = s\<lparr>in_approvals := stamp_approvals ow r t as (in_approvals s)\<rparr>"
    using assms(1) by (auto simp: consume_approvals_def split: option.splits)
  obtain i where i: "i < length as" "as ! i = a" using assms(2) by (auto simp: in_set_conv_nth)
  have "\<not> unclaimable s ow r as i"
    using first_unclaimable_spec [where s = s and ow = ow and r = r and seen = "{}" and n = 0 and as = as] none i by simp
  then obtain st where "in_approvals s (ow, r, a) = Some st" using i by (auto simp: unclaimable_def split: option.splits)
  then have "in_approvals s1 (ow, r, a) = Some (st\<lparr>sa_consumed_at := Some t\<rparr>)"
    using assms(2) by (auto simp: s1 stamp_approvals_eq)
  from consumed_row_stays_run [OF this _ assms(3,4)] obtain st' where
    st': "in_approvals s2 (ow, r, a) = Some st'" "sa_consumed_at st' \<noteq> None" by auto
  obtain j where "j < length bs" "bs ! j = a" using assms(5) by (auto simp: in_set_conv_nth)
  with st' have "j < length bs" "unclaimable s2 ow r bs j" by (simp_all add: unclaimable_def)
  then have "first_unclaimable s2 ow r {} 0 bs \<noteq> None"
    using first_unclaimable_spec [where s = s2 and ow = ow and r = r and seen = "{}" and n = 0 and as = bs]
    by (cases "first_unclaimable s2 ow r {} 0 bs") auto
  then show ?thesis by (auto simp: consume_approvals_def)
qed

theorem approval_used_at_most_once_witness:
  "\<exists>i. consume_approvals (the (store_run (snd (consume_approvals sample_store alice ''r1'' [''a1''] 5))
       [RecordPendingApprovals alice ''r1'' [sample_approval ''a1''] 6])) alice ''r1'' [''a1''] 7 =
     (Inr (Some i), the (store_run (snd (consume_approvals sample_store alice ''r1'' [''a1''] 5))
       [RecordPendingApprovals alice ''r1'' [sample_approval ''a1''] 6]))"
proof -
  have "fst (consume_approvals sample_store alice ''r1'' [''a1''] 5) = Inr None" by code_simp
  then have c: "consume_approvals sample_store alice ''r1'' [''a1''] 5 = (Inr None, snd (consume_approvals sample_store alice ''r1'' [''a1''] 5))"
    by (simp add: prod_eq_iff)
  show ?thesis
    by (rule approval_used_at_most_once [OF c, where a = "''a1''" and ops = "[RecordPendingApprovals alice ''r1'' [sample_approval ''a1''] 6]"])
      simp_all
qed

section \<open>Event pages\<close>

lemma insert_by_set: "set (insert_by le x ys) = insert x (set ys)"
  by (induction ys) auto

lemma sort_by_set: "set (sort_by le xs) = set xs"
  by (induction xs) (simp_all add: sort_by_def insert_by_set)

lemma insert_by_key_sorted:
  fixes f :: "'a \<Rightarrow> nat"
  assumes "sorted_wrt (\<lambda>a b. f a < f b) ys" and "f x \<notin> f ` set ys"
  shows "sorted_wrt (\<lambda>a b. f a < f b) (insert_by (\<lambda>a b. f a \<le> f b) x ys)"
  using assms
proof (induction ys)
  case (Cons y ys)
  then show ?case by (cases "f x \<le> f y") (auto simp: insert_by_set)
qed simp

lemma sort_by_key_sorted:
  fixes f :: "'a \<Rightarrow> nat"
  assumes "distinct (map f xs)"
  shows "sorted_wrt (\<lambda>a b. f a < f b) (sort_by (\<lambda>a b. f a \<le> f b) xs)"
  using assms
proof (induction xs)
  case (Cons x xs)
  have "f x \<notin> f ` set (sort_by (\<lambda>a b. f a \<le> f b) xs)" using Cons.prems by (simp add: sort_by_set)
  with Cons insert_by_key_sorted [of f "sort_by (\<lambda>a b. f a \<le> f b) xs" x] show ?case by (simp add: sort_by_def)
qed (simp add: sort_by_def)

lemma key_sorted_unique:
  fixes f :: "'a \<Rightarrow> nat"
  shows "sorted_wrt (\<lambda>a b. f a < f b) xs \<Longrightarrow> sorted_wrt (\<lambda>a b. f a < f b) ys \<Longrightarrow> set xs = set ys \<Longrightarrow> xs = ys"
proof (induction xs arbitrary: ys)
  case (Cons x xs)
  then obtain y ys' where ys: "ys = y # ys'" by (cases ys) auto
  have "x = y"
  proof (rule ccontr)
    assume "x \<noteq> y"
    with Cons.prems(3) have "x \<in> set ys'" "y \<in> set xs" by (auto simp: ys)
    with Cons.prems(1,2) have "f y < f x" "f x < f y" by (auto simp: ys)
    then show False by simp
  qed
  moreover have "x \<notin> set xs" "y \<notin> set ys'" using Cons.prems(1,2) by (auto simp: ys)
  ultimately have "set xs = set ys'" using Cons.prems(3) by (auto simp: ys)
  with Cons \<open>x = y\<close> show ?case by (simp add: ys)
qed simp

lemma key_sorted_tail:
  fixes f :: "'a \<Rightarrow> nat"
  assumes "sorted_wrt (\<lambda>a b. f a < f b) xs" and "take n xs \<noteq> []"
  shows "set (drop n xs) = {x \<in> set xs. f (last (take n xs)) < f x}"
proof -
  let ?t = "take n xs" and ?d = "drop n xs"
  have "sorted_wrt (\<lambda>a b. f a < f b) (?t @ ?d)" using assms(1) by simp
  then have srt: "sorted_wrt (\<lambda>a b. f a < f b) ?t" "\<forall>a \<in> set ?t. \<forall>b \<in> set ?d. f a < f b"
    unfolding sorted_wrt_append by blast+
  have "?t = butlast ?t @ [last ?t]" using assms(2) by simp
  then have "sorted_wrt (\<lambda>a b. f a < f b) (butlast ?t @ [last ?t])" using srt(1) by metis
  then have "\<forall>a \<in> set (butlast ?t). f a < f (last ?t)" by (simp add: sorted_wrt_append)
  moreover have "set ?t = insert (last ?t) (set (butlast ?t))" by (subst \<open>?t = _\<close>) simp
  ultimately have "\<forall>a \<in> set ?t. f a \<le> f (last ?t)" by (auto simp: less_imp_le)
  moreover have "\<forall>b \<in> set ?d. f (last ?t) < f b" using srt(2) assms(2) by simp
  moreover have "set xs = set ?t \<union> set ?d" by (metis append_take_drop_id set_append)
  ultimately show ?thesis by fastforce
qed

text \<open>
  C28. Replay pages join: after a non-empty page, asking for what follows its last event gives
  exactly the events a single larger page would have had next, in strictly increasing sequence
  numbers, so paging through a log neither skips nor repeats an event, whatever the order in which
  the events were stored.
\<close>

theorem event_pages_join:
  assumes "store_run store_new ops = Some s"
    and "list_events_after s ow r after n = Inr p" and "p \<noteq> []"
    and "list_events_after s ow r (Some (re_sequence_number (last p))) k = Inr q"
  shows "list_events_after s ow r after (n + k) = Inr (p @ q) \<and> sorted_wrt (<) (map re_sequence_number (p @ q))"
proof -
  let ?f = re_sequence_number
  let ?le = "\<lambda>a b. ?f a \<le> ?f b"
  have inv: "store_inv s" using store_run_inv [OF store_inv_new assms(1)] .
  obtain es where es: "in_events s (ow, r) = Some es" using assms(2,3) by (auto simp: list_events_after_def split: option.splits)
  define P where "P = (\<lambda>x :: response_event_record. case after of None \<Rightarrow> True | Some cursor \<Rightarrow> cursor < ?f x)"
  define xs where "xs = sort_by ?le (filter P es)"
  have p: "p = take n xs" using assms(2) es by (simp add: list_events_after_def xs_def P_def)
  have dist: "distinct (map ?f es)" using inv es by (auto simp: store_inv_def event_inv_def)
  have srt: "sorted_wrt (\<lambda>a b. ?f a < ?f b) xs" unfolding xs_def by (rule sort_by_key_sorted) (simp add: dist distinct_map_filter)
  let ?ys = "sort_by ?le (filter (\<lambda>x. ?f (last p) < ?f x) es)"
  have q: "q = take k ?ys" using assms(4) es by (simp add: list_events_after_def)
  have "last p \<in> set xs" using last_in_set [OF assms(3)] set_take_subset [of n xs] by (auto simp: p)
  then have "P (last p)" by (simp add: xs_def sort_by_set)
  then have "P x" if "?f (last p) < ?f x" for x using that by (auto simp: P_def split: option.splits)
  then have "set ?ys = {x \<in> set xs. ?f (last p) < ?f x}" by (auto simp: xs_def sort_by_set)
  also have "\<dots> = set (drop n xs)" using key_sorted_tail [OF srt, of n] assms(3) by (simp add: p)
  finally have "?ys = drop n xs"
    using key_sorted_unique [of ?f ?ys "drop n xs"] srt by (simp add: sort_by_key_sorted dist distinct_map_filter sorted_wrt_drop)
  then have pq: "p @ q = take (n + k) xs" by (simp add: p q take_add)
  moreover have "sorted_wrt (\<lambda>a b. ?f a < ?f b) (take (n + k) xs)" using srt by (rule sorted_wrt_take)
  ultimately show ?thesis using es by (simp add: list_events_after_def xs_def P_def sorted_wrt_map)
qed

theorem event_pages_join_witness:
  "list_events_after sample_store alice ''r1'' None (2 + 1) = Inr ([sample_event 1, sample_event 2] @ [sample_event 5]) \<and>
   sorted_wrt (<) (map re_sequence_number ([sample_event 1, sample_event 2] @ [sample_event 5]))"
proof -
  have p: "list_events_after sample_store alice ''r1'' None 2 = Inr [sample_event 1, sample_event 2]" by code_simp
  have q: "list_events_after sample_store alice ''r1'' (Some (re_sequence_number (last [sample_event 1, sample_event 2]))) 1 =
      Inr [sample_event 5]" by code_simp
  show ?thesis by (rule event_pages_join [OF sample_store_run p _ q]) simp
qed

end
