(* ===== verification/A2a_Sse.thy ===== *)
theory A2a_Sse
  imports Utf8
begin

text \<open>
  The server-sent-event scanner of \<^verbatim>\<open>filters/src/agentic/a2a/sse.rs\<close>, which reads the \<^verbatim>\<open>data:\<close> payloads
  out of a streamed response. Unlike the frame parser of the Responses API it never fails: an event
  larger than the scratch limit is discarded byte by byte and scanning resumes at the next blank
  line. Shown here: the scanner is a fold over the bytes of the stream, so the cut into non-empty
  chunks makes no difference; its buffers stay within the limit; and it delivers the payloads of
  exactly the events that fit, with an independent reading of an event as a list of lines.
\<close>

section \<open>Data\<close>

datatype skip_phase = NotSkipping | LineEmptySoFar | LineHasContent
datatype scan_tail = Payload | Dropped

record sse_scan_state =
  ss_line_buf :: bytes
  ss_data_buf :: bytes
  ss_has_data :: bool
  ss_prev_cr :: bool
  ss_scratch_bytes :: nat
  ss_skip :: skip_phase
  ss_tail :: scan_tail

definition sse_scan_default :: sse_scan_state where
  "sse_scan_default =
     \<lparr>ss_line_buf = [], ss_data_buf = [], ss_has_data = False, ss_prev_cr = False,
      ss_scratch_bytes = 0, ss_skip = NotSkipping, ss_tail = Payload\<rparr>"

fun skip_as_str :: "skip_phase \<Rightarrow> string" where
  "skip_as_str NotSkipping = ''not_skipping''"
| "skip_as_str LineEmptySoFar = ''line_empty''"
| "skip_as_str LineHasContent = ''line_has_content''"

definition skip_from_metadata_str :: "string option \<Rightarrow> skip_phase" where
  "skip_from_metadata_str s =
     (if s = Some ''line_empty'' then LineEmptySoFar
      else if s = Some ''line_has_content'' then LineHasContent
      else NotSkipping)"

fun tail_as_str :: "scan_tail \<Rightarrow> string" where
  "tail_as_str Payload = ''payload''"
| "tail_as_str Dropped = ''dropped''"

definition tail_from_metadata_str :: "string option \<Rightarrow> scan_tail" where
  "tail_from_metadata_str s = (if s = Some ''dropped'' then Dropped else Payload)"

lemma skip_str_roundtrip [simp]: "skip_from_metadata_str (Some (skip_as_str p)) = p"
  by (cases p) (simp_all add: skip_from_metadata_str_def)

lemma tail_str_roundtrip [simp]: "tail_from_metadata_str (Some (tail_as_str t)) = t"
  by (cases t) (simp_all add: tail_from_metadata_str_def)

section \<open>Operations\<close>

text \<open>One complete line, on the data buffer, its flag and the payloads of this call.\<close>

definition scan_process_line :: "bytes \<Rightarrow> bytes \<times> bool \<times> bytes list \<Rightarrow> bytes \<times> bool \<times> bytes list" where
  "scan_process_line line acc =
     (case acc of (data_buf, has_data, payloads) \<Rightarrow>
       (if line = [] then
          (if has_data then ([], False, payloads @ [data_buf]) else acc)
        else if hd line = COLON then acc
        else if COLON \<notin> set line then acc
        else
          (let colon_pos = length (takeWhile (\<lambda>b. b \<noteq> COLON) line)
           in if take colon_pos line \<noteq> ascii ''data'' then acc
              else
                (let value_start =
                       (if colon_pos + 1 < length line \<and> line ! (colon_pos + 1) = SPACE
                        then colon_pos + 2 else colon_pos + 1);
                     v = drop value_start line
                 in ((if has_data then data_buf @ [LF] else data_buf) @ v, True, payloads)))))"

text \<open>The loop state: the scanner, the payloads and the number of events dropped in this chunk.\<close>

type_synonym scan_acc = "sse_scan_state \<times> bytes list \<times> nat"

abbreviation is_newline :: "byte \<Rightarrow> bool" where
  "is_newline b \<equiv> b = LF \<or> b = CR"

definition scan_phase :: "byte \<Rightarrow> scan_acc \<Rightarrow> scan_acc" where
  "scan_phase b acc =
     (case acc of (s, payloads, dropped) \<Rightarrow>
       (case ss_skip s of
          NotSkipping \<Rightarrow>
            (if is_newline b then
               (case scan_process_line (ss_line_buf s) (ss_data_buf s, ss_has_data s, payloads) of
                  (d, h, payloads') \<Rightarrow>
                    (s\<lparr>ss_data_buf := d, ss_has_data := h,
                       ss_tail := if length payloads < length payloads' then Payload else ss_tail s,
                       ss_line_buf := []\<rparr>, payloads', dropped))
             else (s\<lparr>ss_line_buf := ss_line_buf s @ [b]\<rparr>, payloads, dropped))
        | LineEmptySoFar \<Rightarrow>
            (s\<lparr>ss_skip := if is_newline b then NotSkipping else LineHasContent\<rparr>, payloads, dropped)
        | LineHasContent \<Rightarrow>
            (if is_newline b then (s\<lparr>ss_skip := LineEmptySoFar\<rparr>, payloads, dropped) else acc)))"

definition scan_limit :: "nat \<Rightarrow> byte \<Rightarrow> scan_acc \<Rightarrow> scan_acc" where
  "scan_limit max_scratch b acc =
     (case acc of (s, payloads, dropped) \<Rightarrow>
       (if ss_skip s = NotSkipping then
          (let n = length (ss_line_buf s) + length (ss_data_buf s)
           in if max_scratch < n
              then (s\<lparr>ss_line_buf := [], ss_data_buf := [], ss_has_data := False, ss_scratch_bytes := 0,
                      ss_skip := if is_newline b then LineEmptySoFar else LineHasContent,
                      ss_tail := Dropped\<rparr>, payloads, dropped + 1)
              else (s\<lparr>ss_scratch_bytes := n\<rparr>, payloads, dropped))
        else acc))"

text \<open>The byte loop; after a carriage return it skips a line feed, or carries that to the next chunk.\<close>

definition skip_lf :: "byte \<Rightarrow> bytes \<Rightarrow> bytes" where
  "skip_lf b rest = (if b = CR \<and> rest \<noteq> [] \<and> hd rest = LF then tl rest else rest)"

lemma skip_lf_length: "length (skip_lf b rest) \<le> length rest"
  by (simp add: skip_lf_def)

definition mark_cr :: "byte \<Rightarrow> bytes \<Rightarrow> scan_acc \<Rightarrow> scan_acc" where
  "mark_cr b rest acc =
     (if b = CR \<and> rest = [] then (fst acc\<lparr>ss_prev_cr := True\<rparr>, snd acc) else acc)"

function scan_loop :: "nat \<Rightarrow> scan_acc \<Rightarrow> bytes \<Rightarrow> scan_acc" where
  "scan_loop m acc [] = acc"
| "scan_loop m acc (b # rest) =
     scan_loop m (scan_limit m b (mark_cr b rest (scan_phase b acc))) (skip_lf b rest)"
  by pat_completeness auto
termination
  by (relation "measure (\<lambda>(_, _, bs). length bs)") (simp_all add: less_Suc_eq_le skip_lf_length)

definition scan_sse_chunk :: "sse_scan_state \<Rightarrow> bytes \<Rightarrow> nat \<Rightarrow> scan_acc" where
  "scan_sse_chunk s chunk max_scratch =
     scan_loop max_scratch (s\<lparr>ss_prev_cr := False\<rparr>, [], 0)
       (if ss_prev_cr s \<and> chunk \<noteq> [] \<and> hd chunk = LF then tl chunk else chunk)"

definition flush_sse_state :: "sse_scan_state \<Rightarrow> bytes list \<Rightarrow> sse_scan_state \<times> bytes list" where
  "flush_sse_state s payloads =
     (let (d, h, ps) = (if ss_line_buf s \<noteq> []
                        then scan_process_line (ss_line_buf s) (ss_data_buf s, ss_has_data s, payloads)
                        else (ss_data_buf s, ss_has_data s, payloads));
          (d', h', ps') = (if h then ([], False, ps @ [d]) else (d, h, ps))
      in (s\<lparr>ss_line_buf := [], ss_data_buf := d', ss_has_data := h',
            ss_tail := if length payloads < length ps' then Payload else ss_tail s,
            ss_scratch_bytes := 0\<rparr>, ps'))"

section \<open>The scanner as a fold\<close>

definition scan_step :: "nat \<Rightarrow> byte \<Rightarrow> scan_acc \<Rightarrow> scan_acc" where
  "scan_step m b acc =
     (case acc of (s, ps, n) \<Rightarrow>
       (if ss_prev_cr s \<and> b = LF then (s\<lparr>ss_prev_cr := False\<rparr>, ps, n)
        else scan_limit m b (scan_phase b (s\<lparr>ss_prev_cr := b = CR\<rparr>, ps, n))))"

lemma scan_phase_prev_cr:
  "scan_phase b (s\<lparr>ss_prev_cr := x\<rparr>, ps, n) =
     (case scan_phase b (s, ps, n) of (s', r) \<Rightarrow> (s'\<lparr>ss_prev_cr := x\<rparr>, r))"
  by (simp add: scan_phase_def split: skip_phase.split prod.split)

lemma scan_limit_prev_cr:
  "scan_limit m b (s\<lparr>ss_prev_cr := x\<rparr>, ps, n) =
     (case scan_limit m b (s, ps, n) of (s', r) \<Rightarrow> (s'\<lparr>ss_prev_cr := x\<rparr>, r))"
  by (simp add: scan_limit_def Let_def)

lemma scan_phase_keeps_cr: "scan_phase b (s, ps, n) = (s', r) \<Longrightarrow> ss_prev_cr s' = ss_prev_cr s"
  by (auto simp: scan_phase_def split: skip_phase.splits prod.splits if_splits)

lemma scan_limit_keeps_cr: "scan_limit m b (s, ps, n) = (s', r) \<Longrightarrow> ss_prev_cr s' = ss_prev_cr s"
  by (auto simp: scan_limit_def Let_def split: if_splits)

lemma scan_step_prev_cr: "b \<noteq> LF \<Longrightarrow> scan_step m b (s\<lparr>ss_prev_cr := x\<rparr>, ps, n) = scan_step m b (s, ps, n)"
  by (simp add: scan_step_def)

lemma same_cr: "s\<lparr>ss_prev_cr := x\<rparr> = s" if "ss_prev_cr s = x"
  using that by (cases s) simp

lemma scan_loop_fold: "\<not> ss_prev_cr (fst acc) \<Longrightarrow> scan_loop m acc bs = fold (scan_step m) bs acc"
proof (induction m acc bs rule: scan_loop.induct)
  case (2 m acc b rest)
  obtain s ps n where acc: "acc = (s, ps, n)" by (metis prod_cases3)
  then have s: "\<not> ss_prev_cr s" using 2 by simp
  obtain s1 ps1 n1 where p: "scan_phase b (s, ps, n) = (s1, ps1, n1)" by (metis prod_cases3)
  obtain s2 ps2 n2 where l: "scan_limit m b (s1, ps1, n1) = (s2, ps2, n2)" by (metis prod_cases3)
  have cr: "\<not> ss_prev_cr s1" "\<not> ss_prev_cr s2"
    using scan_phase_keeps_cr [OF p] scan_limit_keeps_cr [OF l] s by simp_all
  have step: "scan_step m b acc = (s2\<lparr>ss_prev_cr := b = CR\<rparr>, ps2, n2)"
    using s by (simp add: scan_step_def acc scan_phase_prev_cr scan_limit_prev_cr p l)
  have turn: "scan_limit m b (mark_cr b rest (scan_phase b acc)) = (s2\<lparr>ss_prev_cr := b = CR \<and> rest = []\<rparr>, ps2, n2)"
    using l by (auto simp: mark_cr_def acc p scan_limit_prev_cr same_cr cr)
  consider (last) "rest = []" | (crlf) c rest' where "rest = c # rest'" "b = CR" "c = LF"
    | (crx) c rest' where "rest = c # rest'" "b = CR" "c \<noteq> LF" | (other) "rest \<noteq> []" "b \<noteq> CR"
    by (cases rest) auto
  then show ?case
  proof cases
    case last
    with turn show ?thesis by (simp add: step skip_lf_def)
  next
    case crlf
    then have "scan_step m c (scan_step m b acc) = (s2, ps2, n2)"
      unfolding step by (simp add: scan_step_def same_cr cr)
    with crlf 2 turn show ?thesis by (simp add: skip_lf_def same_cr cr)
  next
    case crx
    then have "fold (scan_step m) rest (s2, ps2, n2) = fold (scan_step m) rest (scan_step m b acc)"
      unfolding step by (simp add: scan_step_prev_cr)
    with crx 2 turn show ?thesis by (simp add: skip_lf_def same_cr cr)
  next
    case other
    then have "scan_step m b acc = (s2, ps2, n2)" unfolding step by (simp add: same_cr cr)
    with other 2 turn show ?thesis by (simp add: skip_lf_def same_cr cr)
  qed
qed simp

lemma scan_chunk_fold:
  "chunk \<noteq> [] \<Longrightarrow> scan_sse_chunk s chunk m = fold (scan_step m) chunk (s, [], 0)"
proof (cases chunk)
  case (Cons b bs)
  then show ?thesis
    by (auto simp: scan_sse_chunk_def scan_loop_fold scan_step_def same_cr simp del: scan_loop.simps)
qed simp

text \<open>What a fold adds to the payloads and to the count does not depend on what they hold.\<close>

lemma scan_process_line_add:
  "scan_process_line l (d, h, ps) =
     (case scan_process_line l (d, h, []) of (d', h', qs) \<Rightarrow> (d', h', ps @ qs))"
  by (simp add: scan_process_line_def Let_def)

lemma scan_phase_add:
  "scan_phase b (s, ps, n) = (case scan_phase b (s, [], 0) of (s', qs, k) \<Rightarrow> (s', ps @ qs, n + k))"
proof -
  obtain d h qs where "scan_process_line (ss_line_buf s) (ss_data_buf s, ss_has_data s, []) = (d, h, qs)"
    by (metis prod_cases3)
  moreover from this have
    "scan_process_line (ss_line_buf s) (ss_data_buf s, ss_has_data s, ps) = (d, h, ps @ qs)"
    by (subst scan_process_line_add) simp
  ultimately show ?thesis by (simp add: scan_phase_def split: skip_phase.split)
qed

lemma scan_limit_add:
  "scan_limit m b (s, ps @ qs, n + k) =
     (case scan_limit m b (s, qs, k) of (s', qs', k') \<Rightarrow> (s', ps @ qs', n + k'))"
  by (simp add: scan_limit_def Let_def)

lemma scan_step_add:
  "scan_step m b (s, ps, n) = (case scan_step m b (s, [], 0) of (s', qs, k) \<Rightarrow> (s', ps @ qs, n + k))"
  by (simp add: scan_step_def scan_phase_add [where ps = ps and n = n] scan_limit_add split: prod.split)

lemma scan_fold_add:
  "fold (scan_step m) bs (s, ps, n) =
     (case fold (scan_step m) bs (s, [], 0) of (s', qs, k) \<Rightarrow> (s', ps @ qs, n + k))"
proof (induction bs arbitrary: s ps n)
  case (Cons b bs)
  obtain s' qs k where st: "scan_step m b (s, [], 0) = (s', qs, k)" by (metis prod_cases3)
  have st': "scan_step m b (s, ps, n) = (s', ps @ qs, n + k)" using scan_step_add [of m b s ps n] st by simp
  show ?case unfolding fold_Cons o_def st st'
    by (subst (1 2) Cons.IH) (simp split: prod.split)
qed simp


section \<open>Whole streams\<close>

text \<open>Delivery of a stream in chunks: the state, all payloads and the number of dropped events.\<close>

fun scan_feed :: "nat \<Rightarrow> sse_scan_state \<Rightarrow> bytes list \<Rightarrow> scan_acc" where
  "scan_feed m s [] = (s, [], 0)"
| "scan_feed m s (c # cs) =
     (let (s1, ps1, n1) = scan_sse_chunk s c m;
          (s2, ps2, n2) = scan_feed m s1 cs
      in (s2, ps1 @ ps2, n1 + n2))"

lemma scan_feed_fold: "[] \<notin> set cs \<Longrightarrow> scan_feed m s cs = fold (scan_step m) (concat cs) (s, [], 0)"
proof (induction cs arbitrary: s)
  case (Cons c cs)
  obtain s1 ps1 n1 where c: "fold (scan_step m) c (s, [], 0) = (s1, ps1, n1)" by (metis prod_cases3)
  then have "scan_sse_chunk s c m = (s1, ps1, n1)" using Cons.prems scan_chunk_fold [of c s m] by auto
  moreover have "scan_feed m s1 cs = fold (scan_step m) (concat cs) (s1, [], 0)" using Cons by simp
  moreover have "fold (scan_step m) (concat cs) (s1, ps1, n1) =
      (case fold (scan_step m) (concat cs) (s1, [], 0) of (s', qs, k) \<Rightarrow> (s', ps1 @ qs, n1 + k))"
    by (rule scan_fold_add)
  ultimately show ?case by (simp add: c)
qed simp

definition scan_ok :: "nat \<Rightarrow> sse_scan_state \<Rightarrow> bool" where
  "scan_ok m s \<longleftrightarrow>
     length (ss_line_buf s) + length (ss_data_buf s) \<le> m \<and>
     (\<not> ss_has_data s \<longrightarrow> ss_data_buf s = []) \<and>
     (ss_skip s \<noteq> NotSkipping \<longrightarrow> ss_line_buf s = [] \<and> ss_data_buf s = [] \<and> \<not> ss_has_data s)"

lemma scan_process_line_empty:
  "scan_process_line l (d, h, ps) = (d', h', ps') \<Longrightarrow> (\<not> h \<Longrightarrow> d = []) \<Longrightarrow> \<not> h' \<Longrightarrow> d' = []"
  by (auto simp: scan_process_line_def Let_def split: if_splits)

lemma scan_step_ok: "scan_ok m s \<Longrightarrow> scan_step m b (s, ps, n) = (s', ps', n') \<Longrightarrow> scan_ok m s'"
  by (auto simp: scan_ok_def scan_step_def scan_phase_def scan_limit_def Let_def
      dest: scan_process_line_empty split: if_splits skip_phase.splits prod.splits)

lemma scan_fold_ok: "scan_ok m (fst acc) \<Longrightarrow> scan_ok m (fst (fold (scan_step m) bs acc))"
proof (induction bs arbitrary: acc)
  case (Cons b bs)
  then have "scan_ok m (fst (scan_step m b acc))"
    by (metis scan_step_ok prod.collapse)
  with Cons.IH show ?case by simp
qed simp


section \<open>Reference: events as lists of lines\<close>

text \<open>The value of a \<^verbatim>\<open>data:\<close> line, the data of an event, and whether an event fits the limit.\<close>

definition line_value :: "bytes \<Rightarrow> bytes option" where
  "line_value l =
     (if take 5 l = ascii ''data:''
      then Some (case drop 5 l of [] \<Rightarrow> [] | b # v \<Rightarrow> if b = SPACE then v else b # v) else None)"

definition add_line :: "bytes \<Rightarrow> bytes option \<Rightarrow> bytes option" where
  "add_line l d =
     (case line_value l of None \<Rightarrow> d
      | Some v \<Rightarrow> Some (case d of None \<Rightarrow> v | Some x \<Rightarrow> x @ LF # v))"

definition event_data :: "bytes list \<Rightarrow> bytes option" where
  "event_data ls = fold add_line ls None"

definition buf :: "bytes option \<Rightarrow> bytes" where
  "buf d = (case d of None \<Rightarrow> [] | Some x \<Rightarrow> x)"

fun lines_fit :: "nat \<Rightarrow> bytes option \<Rightarrow> bytes list \<Rightarrow> bool" where
  "lines_fit m d [] \<longleftrightarrow> True"
| "lines_fit m d (l # ls) \<longleftrightarrow> length l + length (buf d) \<le> m \<and> lines_fit m (add_line l d) ls"

abbreviation event_fits :: "nat \<Rightarrow> bytes list \<Rightarrow> bool" where
  "event_fits m \<equiv> lines_fit m None"

definition plain_line :: "bytes \<Rightarrow> bool" where
  "plain_line l \<longleftrightarrow> l \<noteq> [] \<and> LF \<notin> set l \<and> CR \<notin> set l"

definition render :: "bytes \<Rightarrow> bytes list \<Rightarrow> bytes" where
  "render nl ls = concat (map (\<lambda>l. l @ nl) ls) @ nl"

lemma data_field: "COLON \<in> set l \<and> takeWhile (\<lambda>b. b \<noteq> COLON) l = ascii ''data'' \<longleftrightarrow> take 5 l = ascii ''data:''"
  (is "?a \<longleftrightarrow> ?b")
proof
  assume ?a
  then have "dropWhile (\<lambda>b. b \<noteq> COLON) l \<noteq> []" by auto
  then obtain r where "dropWhile (\<lambda>b. b \<noteq> COLON) l = COLON # r"
    by (metis (mono_tags, lifting) hd_dropWhile list.collapse)
  with \<open>?a\<close> have "l = ascii ''data'' @ COLON # r" by (metis takeWhile_dropWhile_id)
  then show ?b by (simp add: ascii_def)
next
  assume ?b
  then have "l = ascii ''data:'' @ drop 5 l" by (metis append_take_drop_id)
  then obtain r where "l = ascii ''data:'' @ r" ..
  then show ?a by (simp add: ascii_def)
qed

lemma scan_process_line_spec:
  assumes "l \<noteq> []"
  shows "scan_process_line l (buf d, d \<noteq> None, ps) = (buf (add_line l d), add_line l d \<noteq> None, ps)"
proof (cases "take 5 l = ascii ''data:''")
  case True
  then have "l = ascii ''data:'' @ drop 5 l" by (metis append_take_drop_id)
  then obtain r where l: "l = ascii ''data:'' @ r" ..
  have "scan_process_line l (buf d, d \<noteq> None, ps) =
      ((if d \<noteq> None then buf d @ [LF] else buf d) @ (case r of [] \<Rightarrow> [] | b # v \<Rightarrow> if b = SPACE then v else b # v),
       True, ps)"
    unfolding l by (cases r) (simp_all add: scan_process_line_def ascii_def)
  then show ?thesis unfolding add_line_def line_value_def
    by (cases d) (simp_all add: l buf_def ascii_def split: list.split)
next
  case False
  then have "\<not> (COLON \<in> set l \<and> takeWhile (\<lambda>b. b \<noteq> COLON) l = ascii ''data'')" unfolding data_field .
  with False assms show ?thesis
    by (auto simp: scan_process_line_def Let_def add_line_def line_value_def takeWhile_eq_take [symmetric])
qed


text \<open>
  The states the scanner passes through: inside an event that fits so far, with the open line and
  the data read, or skipping an event that does not.
\<close>

definition reading :: "bytes \<Rightarrow> bytes option \<Rightarrow> sse_scan_state \<Rightarrow> bool" where
  "reading lb d s \<longleftrightarrow> ss_skip s = NotSkipping \<and> ss_line_buf s = lb \<and> ss_data_buf s = buf d \<and>
     (ss_has_data s \<longleftrightarrow> d \<noteq> None)"

definition skipping :: "skip_phase \<Rightarrow> sse_scan_state \<Rightarrow> bool" where
  "skipping ph s \<longleftrightarrow> ss_skip s = ph \<and> ss_line_buf s = [] \<and> ss_data_buf s = [] \<and> \<not> ss_has_data s"

definition in_line :: "nat \<Rightarrow> bytes \<Rightarrow> bytes option \<Rightarrow> bytes list \<Rightarrow> nat \<Rightarrow> scan_acc \<Rightarrow> bool" where
  "in_line m lb d ps n acc \<longleftrightarrow>
     (if length lb + length (buf d) \<le> m then reading lb d (fst acc) \<and> snd acc = (ps, n)
      else skipping LineHasContent (fst acc) \<and> snd acc = (ps, Suc n))"

definition in_event :: "bytes \<Rightarrow> bool \<Rightarrow> bytes option \<Rightarrow> bytes list \<Rightarrow> nat \<Rightarrow> scan_acc \<Rightarrow> bool" where
  "in_event nl fits d ps n acc \<longleftrightarrow>
     (if fits then reading [] d (fst acc) \<and> snd acc = (ps, n)
      else skipping LineEmptySoFar (fst acc) \<and> snd acc = (ps, Suc n)) \<and>
     (ss_prev_cr (fst acc) \<longrightarrow> nl = [CR])"

lemmas scan_unfold = reading_def skipping_def in_line_def in_event_def scan_step_def scan_phase_def
  scan_limit_def Let_def

lemma step_content:
  "in_line m lb d ps n acc \<Longrightarrow> \<not> is_newline b \<Longrightarrow>
   in_line m (lb @ [b]) d ps n (scan_step m b acc) \<and> \<not> ss_prev_cr (fst (scan_step m b acc))"
  by (cases acc) (auto simp: scan_unfold split: if_splits)

lemma fold_content:
  "in_line m lb d ps n acc \<Longrightarrow> LF \<notin> set l \<Longrightarrow> CR \<notin> set l \<Longrightarrow>
   in_line m (lb @ l) d ps n (fold (scan_step m) l acc) \<and>
   (ss_prev_cr (fst (fold (scan_step m) l acc)) \<longrightarrow> l = [] \<and> ss_prev_cr (fst acc))"
proof (induction l arbitrary: lb acc)
  case (Cons b l)
  then show ?case
    using step_content [of m lb d ps n acc b] Cons.IH [of "lb @ [b]" "scan_step m b acc"] by simp
qed simp

lemma step_skip_content:
  "skipping ph (fst acc) \<Longrightarrow> ph \<noteq> NotSkipping \<Longrightarrow> \<not> is_newline b \<Longrightarrow>
   skipping LineHasContent (fst (scan_step m b acc)) \<and> snd (scan_step m b acc) = snd acc \<and>
   \<not> ss_prev_cr (fst (scan_step m b acc))"
  by (cases acc; cases ph) (auto simp: scan_unfold)

lemma fold_skip_content:
  "skipping ph (fst acc) \<Longrightarrow> ph \<noteq> NotSkipping \<Longrightarrow> plain_line l \<Longrightarrow>
   skipping LineHasContent (fst (fold (scan_step m) l acc)) \<and> snd (fold (scan_step m) l acc) = snd acc \<and>
   \<not> ss_prev_cr (fst (fold (scan_step m) l acc))"
proof (induction l arbitrary: acc ph)
  case (Cons b l)
  then show ?case
    using step_skip_content [of ph acc b m] Cons.IH [of LineHasContent "scan_step m b acc"]
    by (cases "l = []") (simp_all add: plain_line_def)
qed (simp add: plain_line_def)

definition line_end :: "bytes \<Rightarrow> bool" where
  "line_end nl \<longleftrightarrow> nl \<in> {[LF], [CR], [CR, LF]}"

lemma add_line_length: "length (buf (add_line l d)) \<le> length l + length (buf d)"
proof (cases "take 5 l = ascii ''data:''")
  case True
  then have "5 \<le> length l" by (auto simp: ascii_def dest: arg_cong [where f = length])
  with True show ?thesis
    by (cases d) (auto simp: add_line_def line_value_def buf_def split: list.split dest: arg_cong [where f = length])
qed (simp add: add_line_def line_value_def)

lemma newline_first:
  assumes "in_line m l d ps n acc" and "\<not> ss_prev_cr (fst acc)" and "l \<noteq> []" and "is_newline b"
  shows "in_event [b] (length l + length (buf d) \<le> m) (add_line l d) ps n (scan_step m b acc)"
proof (cases "length l + length (buf d) \<le> m")
  case True
  moreover obtain s where acc: "acc = (s, ps, n)" and r: "reading l d s"
    using assms(1) True by (cases acc) (auto simp: in_line_def)
  moreover have "scan_process_line l (ss_data_buf s, ss_has_data s, ps) =
      (buf (add_line l d), add_line l d \<noteq> None, ps)"
    using r scan_process_line_spec [OF assms(3), of d ps] by (simp add: reading_def)
  moreover have "length (buf (add_line l d)) \<le> m" using True add_line_length le_trans by blast
  ultimately show ?thesis using assms by (auto simp: scan_unfold)
next
  case False
  with assms show ?thesis by (cases acc) (auto simp: scan_unfold)
qed

lemma step_marks_cr: "ss_prev_cr (fst (scan_step m CR acc))"
proof -
  obtain s ps n where acc: "acc = (s, ps, n)" by (metis prod_cases3)
  obtain s1 ps1 n1 where p: "scan_phase CR (s, ps, n) = (s1, ps1, n1)" by (metis prod_cases3)
  show ?thesis by (simp add: acc p scan_step_def scan_phase_prev_cr scan_limit_prev_cr split: prod.split)
qed

lemma step_lf_after_cr:
  "in_event [CR] f d ps n acc \<Longrightarrow> ss_prev_cr (fst acc) \<Longrightarrow> in_event nl f d ps n (scan_step m LF acc)"
  by (cases acc) (auto simp: scan_unfold split: if_splits)

lemma newline_whole:
  assumes "line_end nl" and "\<And>b. is_newline b \<Longrightarrow> b = hd nl \<Longrightarrow> in_event [b] f d ps n (scan_step m b acc)"
  shows "in_event nl f d ps n (fold (scan_step m) nl acc)"
  using assms(1) assms(2) [of LF] assms(2) [of CR]
  by (auto simp: line_end_def intro!: step_lf_after_cr step_marks_cr)

lemma newline_skip:
  "skipping LineHasContent (fst acc) \<Longrightarrow> snd acc = (ps, Suc n) \<Longrightarrow> \<not> ss_prev_cr (fst acc) \<Longrightarrow>
   is_newline b \<Longrightarrow> in_event [b] False d ps n (scan_step m b acc)"
  by (cases acc) (auto simp: scan_unfold)

lemma fold_line:
  assumes "in_event nl f d ps n acc" and "f \<Longrightarrow> length (buf d) \<le> m" and "plain_line l" and "line_end nl"
  shows "in_event nl (f \<and> length l + length (buf d) \<le> m) (add_line l d) ps n (fold (scan_step m) (l @ nl) acc)"
proof (cases f)
  case True
  with assms have "in_line m [] d ps n acc" by (simp add: in_event_def in_line_def)
  with fold_content [of m "[]" d ps n acc l] assms(3)
  have c: "in_line m l d ps n (fold (scan_step m) l acc)" "\<not> ss_prev_cr (fst (fold (scan_step m) l acc))"
    by (auto simp: plain_line_def)
  then show ?thesis using assms(3) True
    by (auto simp: plain_line_def intro!: newline_whole [OF assms(4)] newline_first)
next
  case False
  with assms have "skipping LineEmptySoFar (fst acc)" "snd acc = (ps, Suc n)" by (simp_all add: in_event_def)
  with fold_skip_content [of LineEmptySoFar acc l m] assms(3) False show ?thesis
    by (auto intro!: newline_whole [OF assms(4)] newline_skip)
qed

lemma fold_lines:
  assumes "in_event nl f d ps n acc" and "f \<Longrightarrow> length (buf d) \<le> m" and "list_all plain_line ls" and "line_end nl"
  shows "in_event nl (f \<and> lines_fit m d ls) (fold add_line ls d) ps n
    (fold (scan_step m) (concat (map (\<lambda>l. l @ nl) ls)) acc)"
  using assms
proof (induction ls arbitrary: f d acc)
  case (Cons l ls)
  let ?f = "f \<and> length l + length (buf d) \<le> m"
  have "in_event nl ?f (add_line l d) ps n (fold (scan_step m) (l @ nl) acc)"
    using fold_line [OF Cons.prems(1,2) _ assms(4)] Cons.prems(3) by simp
  moreover have "?f \<Longrightarrow> length (buf (add_line l d)) \<le> m" using add_line_length le_trans by blast
  ultimately show ?case using Cons.IH [of ?f "add_line l d" "fold (scan_step m) (l @ nl) acc"] Cons.prems
    by (simp add: conj_assoc)
qed simp

lemma blank_first:
  assumes "in_event nl f d ps n acc" and "is_newline b" and "b = hd nl" and "line_end nl"
  shows "in_event [b] True None (if f then ps @ (case d of None \<Rightarrow> [] | Some x \<Rightarrow> [x]) else ps)
    (if f then n else Suc n) (scan_step m b acc)"
  using assms
  by (cases acc; cases d) (auto simp: scan_unfold line_end_def scan_process_line_def buf_def split: if_splits)

text \<open>A stream of events: payloads of those that fit, and how many do not.\<close>

definition event_payloads :: "nat \<Rightarrow> bytes list list \<Rightarrow> bytes list" where
  "event_payloads m evs =
     concat (map (\<lambda>e. case event_data e of None \<Rightarrow> [] | Some x \<Rightarrow> [x]) (filter (event_fits m) evs))"

lemma fold_events:
  assumes "in_event nl True None ps n acc" and "\<forall>e \<in> set evs. list_all plain_line e" and "line_end nl"
  shows "in_event nl True None (ps @ event_payloads m evs) (n + length (filter (\<lambda>e. \<not> event_fits m e) evs))
    (fold (scan_step m) (concat (map (render nl) evs)) acc)"
  using assms
proof (induction evs arbitrary: ps n acc)
  case (Cons e evs)
  have "in_event nl (event_fits m e) (event_data e) ps n
      (fold (scan_step m) (concat (map (\<lambda>l. l @ nl) e)) acc)"
    using fold_lines [OF Cons.prems(1) _ _ assms(3), of m e] Cons.prems(2)
    by (simp add: buf_def event_data_def)
  from newline_whole [OF assms(3) blank_first [OF this _ _ assms(3)]]
  have "in_event nl True None (if event_fits m e then ps @ (case event_data e of None \<Rightarrow> [] | Some x \<Rightarrow> [x]) else ps)
      (if event_fits m e then n else Suc n) (fold (scan_step m) (render nl e) acc)"
    by (simp add: render_def)
  from Cons.IH [OF this] Cons.prems(2) assms(3) show ?case
    by (cases "event_fits m e") (simp_all add: event_payloads_def)
qed (simp add: event_payloads_def)


section \<open>Properties\<close>

text \<open>
  C40. Chunking of a streamed agent response. Cut the stream into non-empty chunks any way: the
  scanner returns the same payloads in the same order, counts the same dropped events and ends in
  the same state as when the stream arrives in one piece.
\<close>

theorem scan_chunking_irrelevant:
  assumes "[] \<notin> set cs" and "[] \<notin> set ds" and "concat cs = concat ds"
  shows "scan_feed m s cs = scan_feed m s ds"
  using assms by (simp add: scan_feed_fold)

theorem scan_chunking_irrelevant_witness:
  "scan_feed 64 sse_scan_default [ascii ''data: a'', [CR], [LF, CR, LF]] =
   scan_feed 64 sse_scan_default [ascii ''da'', ascii ''ta: a'' @ [CR, LF, CR], [LF]]"
  by (rule scan_chunking_irrelevant) (simp_all add: ascii_def)

text \<open>
  C21. Recovery after oversized events. On a stream of events, each a list of lines, with one of the
  three line ends used throughout, however it is cut into non-empty chunks, the scanner delivers the
  payloads of exactly the events that fit the scratch limit, in order, and counts each of the others
  as dropped: an oversized event costs only itself. Its buffers are empty afterwards and it is not
  skipping. (An empty chunk inside a CRLF splits an event, see the lemma on that.)
\<close>

theorem scan_drops_only_oversized:
  assumes "\<forall>e \<in> set evs. list_all plain_line e" and "line_end nl"
    and "[] \<notin> set cs" and "concat cs = concat (map (render nl) evs)"
    and "scan_feed m sse_scan_default cs = (s, ps, n)"
  shows "ps = event_payloads m evs \<and> n = length (filter (\<lambda>e. \<not> event_fits m e) evs) \<and>
    ss_line_buf s = [] \<and> ss_data_buf s = [] \<and> ss_skip s = NotSkipping"
proof -
  have "in_event nl True None [] 0 (sse_scan_default, [], 0)"
    by (simp add: in_event_def reading_def sse_scan_default_def buf_def)
  from fold_events [OF this assms(1,2), of m] assms(3-5) show ?thesis
    by (simp add: scan_feed_fold in_event_def reading_def buf_def)
qed

theorem scan_drops_only_oversized_witness:
  "case scan_feed 12 sse_scan_default
          [ascii ''data: 0123456789'' @ [LF], [LF] @ ascii ''data: ok'' @ [LF, LF]] of
     (s, ps, n) \<Rightarrow> ps = [ascii ''ok''] \<and> n = 1 \<and> ss_line_buf s = [] \<and> ss_skip s = NotSkipping"
proof -
  let ?cs = "[ascii ''data: 0123456789'' @ [LF], [LF] @ ascii ''data: ok'' @ [LF, LF]]"
  let ?evs = "[[ascii ''data: 0123456789''], [ascii ''data: ok'']]"
  obtain s ps n where f: "scan_feed 12 sse_scan_default ?cs = (s, ps, n)" by (metis prod_cases3)
  have "ps = event_payloads 12 ?evs \<and> n = length (filter (\<lambda>e. \<not> event_fits 12 e) ?evs) \<and>
      ss_line_buf s = [] \<and> ss_data_buf s = [] \<and> ss_skip s = NotSkipping"
    by (rule scan_drops_only_oversized [OF _ _ _ _ f, where nl = "[LF]"])
      (simp_all add: plain_line_def ascii_def line_end_def render_def)
  moreover have "event_payloads 12 ?evs = [ascii ''ok'']" by code_simp
  moreover have "length (filter (\<lambda>e. \<not> event_fits 12 e) ?evs) = 1" by code_simp
  ultimately show ?thesis using f by simp
qed

text \<open>
  Bounded scanner memory. Whatever bytes arrive in whatever chunks, empty ones included, the
  open line and the data of the open event together never exceed the scratch limit, and nothing is
  buffered while an oversized event is being skipped.
\<close>

theorem scan_buffers_bounded:
  assumes "scan_feed m sse_scan_default cs = (s, ps, n)"
  shows "length (ss_line_buf s) + length (ss_data_buf s) \<le> m \<and>
    (ss_skip s \<noteq> NotSkipping \<longrightarrow> ss_line_buf s = [] \<and> ss_data_buf s = [])"
proof -
  have "scan_ok m s \<Longrightarrow> scan_ok m (fst (scan_feed m s cs))" for s
  proof (induction cs arbitrary: s)
    case (Cons c cs)
    have "scan_ok m (s\<lparr>ss_prev_cr := False\<rparr>)" using Cons.prems by (simp add: scan_ok_def)
    then have "scan_ok m (fst (scan_sse_chunk s c m))"
      by (simp add: scan_sse_chunk_def scan_loop_fold scan_fold_ok)
    from Cons.IH [OF this] show ?case by (simp add: Let_def case_prod_beta)
  qed simp
  from this [of sse_scan_default] assms show ?thesis by (simp add: scan_ok_def sse_scan_default_def)
qed

theorem scan_buffers_bounded_witness:
  "length (ss_line_buf (fst (scan_feed 8 sse_scan_default [ascii ''data: 0123'', [], ascii ''4'']))) +
   length (ss_data_buf (fst (scan_feed 8 sse_scan_default [ascii ''data: 0123'', [], ascii ''4'']))) \<le> 8"
proof -
  obtain s ps n where f: "scan_feed 8 sse_scan_default [ascii ''data: 0123'', [], ascii ''4''] = (s, ps, n)"
    by (metis prod_cases3)
  with scan_buffers_bounded [OF f] show ?thesis by simp
qed

text \<open>
  An empty chunk is not neutral: between the two bytes of a CRLF it makes the line feed a line end
  of its own, which closes the event early.
\<close>

lemma empty_chunk_splits_event:
  "fst (snd (scan_feed 64 sse_scan_default
     [ascii ''data: a'' @ [CR], [], LF # ascii ''data: b'' @ [CR, LF, CR, LF]])) = [ascii ''a'', ascii ''b'']"
  "fst (snd (scan_feed 64 sse_scan_default
     [ascii ''data: a'' @ [CR], LF # ascii ''data: b'' @ [CR, LF, CR, LF]])) = [ascii ''a'' @ LF # ascii ''b'']"
  by code_simp+

end
