(* ===== verification/Strings.thy ===== *)
theory Strings
  imports Utf8
begin

text \<open>
  What the sources use of \<^verbatim>\<open>str\<close>: ASCII case folding, prefixes, trimming, decimal and hexadecimal output.
  A string is the list of its bytes in UTF-8, so that its length is \<^verbatim>\<open>str::len\<close>.
\<close>

section \<open>Case and prefixes\<close>

definition ascii_lower :: "char \<Rightarrow> char" where
  "ascii_lower c =
     (if 65 \<le> (of_char c :: nat) \<and> (of_char c :: nat) \<le> 90 then char_of ((of_char c :: nat) + 32) else c)"

definition to_ascii_lowercase :: "string \<Rightarrow> string" where
  "to_ascii_lowercase s = map ascii_lower s"

definition eq_ignore_ascii_case :: "string \<Rightarrow> string \<Rightarrow> bool" where
  "eq_ignore_ascii_case a b \<longleftrightarrow> to_ascii_lowercase a = to_ascii_lowercase b"

definition starts_with :: "string \<Rightarrow> string \<Rightarrow> bool" where
  "starts_with s p \<longleftrightarrow> take (length p) s = p"

lemma ascii_lower_idem [simp]: "ascii_lower (ascii_lower c) = ascii_lower c"
  by (simp add: ascii_lower_def)

lemma to_ascii_lowercase_idem [simp]: "to_ascii_lowercase (to_ascii_lowercase s) = to_ascii_lowercase s"
  by (simp add: to_ascii_lowercase_def)

section \<open>Numbers and bytes\<close>

text \<open>A message of \<^verbatim>\<open>format!\<close>: numbers in decimal.\<close>

fun show_nat :: "nat \<Rightarrow> string" where
  "show_nat n = (if n < 10 then [char_of (48 + n)] else show_nat (n div 10) @ [char_of (48 + n mod 10)])"

declare show_nat.simps [simp del]

definition hex_char :: "nat \<Rightarrow> char" where
  "hex_char n = ''0123456789abcdef'' ! n"

text \<open>\<^verbatim>\<open>write!(hex, "{byte:02x}")\<close> for each byte.\<close>

definition hex_byte :: "byte \<Rightarrow> string" where
  "hex_byte b = [hex_char (unat b div 16), hex_char (unat b mod 16)]"

definition encode_hex :: "bytes \<Rightarrow> string" where
  "encode_hex bs = concat (map hex_byte bs)"

text \<open>\<^verbatim>\<open>c.is_ascii_hexdigit() && !c.is_ascii_uppercase()\<close>\<close>

definition is_lower_hex :: "char \<Rightarrow> bool" where
  "is_lower_hex c \<longleftrightarrow> 48 \<le> (of_char c :: nat) \<and> (of_char c :: nat) \<le> 57 \<or> 97 \<le> (of_char c :: nat) \<and> (of_char c :: nat) \<le> 102"

lemma hex_char_lower: "n < 16 \<Longrightarrow> is_lower_hex (hex_char n)"
proof -
  assume "n < 16"
  then have "hex_char n \<in> set ''0123456789abcdef''" unfolding hex_char_def by (intro nth_mem) simp
  moreover have "list_all is_lower_hex ''0123456789abcdef''" by code_simp
  ultimately show ?thesis unfolding list_all_iff by blast
qed

lemma encode_hex_lower: "list_all is_lower_hex (encode_hex bs)"
proof -
  have "unat b div 16 < 16" "unat b mod 16 < 16" for b :: byte
    using unsigned_less [of b, where 'a = nat] by auto
  then show ?thesis by (induction bs) (simp_all add: encode_hex_def hex_byte_def hex_char_lower)
qed

lemma length_encode_hex [simp]: "length (encode_hex bs) = 2 * length bs"
  by (induction bs) (simp_all add: encode_hex_def hex_byte_def)

section \<open>White space\<close>

text \<open>\<^verbatim>\<open>trim\<close> on a string known to be ASCII, such as a header value read by \<^verbatim>\<open>to_str\<close>.\<close>

definition is_ascii_space :: "char \<Rightarrow> bool" where
  "is_ascii_space c \<longleftrightarrow> (of_char c :: nat) = 32 \<or> 9 \<le> (of_char c :: nat) \<and> (of_char c :: nat) \<le> 13"

definition str_trim :: "string \<Rightarrow> string" where
  "str_trim s = rev (dropWhile is_ascii_space (rev (dropWhile is_ascii_space s)))"

text \<open>
  On any string white space is that of Unicode. The width of the white-space character, and of the
  control character, that a string begins with; 0 if it begins with another one.
\<close>

definition byte_at :: "string \<Rightarrow> nat \<Rightarrow> nat" where
  "byte_at s i = (if i < length s then of_char (s ! i) else 0)"

definition space_width :: "string \<Rightarrow> nat" where
  "space_width s =
     (let b0 = byte_at s 0; b1 = byte_at s 1; b2 = byte_at s 2
      in if b0 = 0x20 \<or> 0x09 \<le> b0 \<and> b0 \<le> 0x0D then 1
         else if b0 = 0xC2 \<and> (b1 = 0x85 \<or> b1 = 0xA0) then 2
         else if b0 = 0xE1 \<and> b1 = 0x9A \<and> b2 = 0x80 then 3
         else if b0 = 0xE2 \<and> b1 = 0x80 \<and> (0x80 \<le> b2 \<and> b2 \<le> 0x8A \<or> b2 = 0xA8 \<or> b2 = 0xA9 \<or> b2 = 0xAF) then 3
         else if b0 = 0xE2 \<and> b1 = 0x81 \<and> b2 = 0x9F then 3
         else if b0 = 0xE3 \<and> b1 = 0x80 \<and> b2 = 0x80 then 3
         else 0)"

definition control_width :: "string \<Rightarrow> nat" where
  "control_width s =
     (let b0 = byte_at s 0; b1 = byte_at s 1
      in if s = [] then 0
         else if b0 < 0x20 \<or> b0 = 0x7F then 1
         else if b0 = 0xC2 \<and> 0x80 \<le> b1 \<and> b1 \<le> 0x9F then 2
         else 0)"

lemma space_width_Nil [simp]: "space_width [] = 0"
  by (simp add: space_width_def byte_at_def)

text \<open>\<^verbatim>\<open>s.trim().is_empty()\<close>, and \<^verbatim>\<open>s.chars().any(..)\<close> for a class of characters.\<close>

function is_blank :: "string \<Rightarrow> bool" where
  "is_blank s =
     (if s = [] then True else if space_width s = 0 then False else is_blank (drop (space_width s) s))"
  by pat_completeness auto
termination
  by (relation "measure length") simp_all

declare is_blank.simps [simp del]

definition any_char :: "(string \<Rightarrow> nat) \<Rightarrow> string \<Rightarrow> bool" where
  "any_char width s \<longleftrightarrow> list_ex (\<lambda>i. 0 < width (drop i s)) [0..<length s]"

lemma is_blank_Nil [simp]: "is_blank []"
  by (subst is_blank.simps) simp

lemma not_blank_visible: "0x20 < (of_char c :: nat) \<Longrightarrow> (of_char c :: nat) < 0x80 \<Longrightarrow> \<not> is_blank (c # s)"
  by (subst is_blank.simps) (simp add: space_width_def byte_at_def Let_def)

end
