(* ===== verification/Promotion.thy ===== *)
theory Promotion
  imports Strings
begin

text \<open>
  What may be promoted from a request body into headers: \<^verbatim>\<open>apis/src/promotion.rs\<close> with the hop-by-hop
  names of \<^verbatim>\<open>apis/src/http_hop.rs\<close>. A filter error is its message. The syntax check
  \<^verbatim>\<open>validate_header_name\<close> and the parser of \<^verbatim>\<open>HeaderName\<close> belong to other packages and are parameters; of
  neither anything is assumed.
\<close>

section \<open>Values\<close>

definition MAX_PROMOTED_VALUE_LEN :: nat where "MAX_PROMOTED_VALUE_LEN = 256"

definition is_safe_promoted_value :: "string \<Rightarrow> bool" where
  "is_safe_promoted_value s \<longleftrightarrow>
     list_all (\<lambda>c. (of_char c :: nat) = 0x09 \<or> 0x20 \<le> (of_char c :: nat) \<and> (of_char c :: nat) \<noteq> 0x7F) s"

definition contains_control_chars :: "string \<Rightarrow> bool" where
  "contains_control_chars s \<longleftrightarrow> \<not> is_safe_promoted_value s"

definition is_promotable_value :: "string \<Rightarrow> bool" where
  "is_promotable_value v \<longleftrightarrow> length v \<le> MAX_PROMOTED_VALUE_LEN \<and> is_safe_promoted_value v"

section \<open>Names\<close>

type_synonym filter_error = string

text \<open>The strings a filter keeps with a request, by key.\<close>

type_synonym metadata = "string \<rightharpoonup> string"

definition quoted :: "string \<Rightarrow> string" where
  "quoted s = CHR 0x27 # s @ [CHR 0x27]"

definition AI_FACT_PREFIXES :: "string list" where
  "AI_FACT_PREFIXES = [''x-praxis-ai-'', ''x-praxis-responses-'']"

definition MODEL_IDENTITY_HEADERS :: "string list" where
  "MODEL_IDENTITY_HEADERS = [''x-praxis-ai-effective-model'', ''x-praxis-ai-original-model'']"

definition is_hop_by_hop :: "string \<Rightarrow> bool" where
  "is_hop_by_hop name \<longleftrightarrow>
     name \<in> {''connection'', ''keep-alive'', ''proxy-authenticate'', ''proxy-authorization'',
             ''proxy-connection'', ''te'', ''trailer'', ''transfer-encoding'', ''upgrade''}"

definition is_transport_controlled_header_lowercase :: "string \<Rightarrow> bool" where
  "is_transport_controlled_header_lowercase name \<longleftrightarrow>
     name \<in> {''content-length'', ''content-type'', ''expect'', ''host''} \<or> is_hop_by_hop name"

definition is_transport_controlled_header :: "string \<Rightarrow> bool" where
  "is_transport_controlled_header name = is_transport_controlled_header_lowercase (to_ascii_lowercase name)"

definition is_credential_header_lowercase :: "string \<Rightarrow> bool" where
  "is_credential_header_lowercase name \<longleftrightarrow>
     name \<in> {''authorization'', ''proxy-authorization'', ''cookie'', ''set-cookie'', ''www-authenticate'',
             ''x-api-key'', ''api-key'', ''x-goog-api-key'', ''x-mcp-authorized''}"

definition is_credential_header :: "string \<Rightarrow> bool" where
  "is_credential_header name = is_credential_header_lowercase (to_ascii_lowercase name)"

definition is_unsafe_promotion_target_lowercase :: "string \<Rightarrow> string list \<Rightarrow> string list \<Rightarrow> bool" where
  "is_unsafe_promotion_target_lowercase name dedicated prefixes =
     (if is_transport_controlled_header_lowercase name \<or> is_credential_header_lowercase name then True
      else if list_ex (\<lambda>allowed. eq_ignore_ascii_case allowed name) dedicated then False
      else if list_ex (\<lambda>p. starts_with name p) prefixes then False
      else starts_with name ''x-praxis-'')"

definition is_unsafe_promotion_target :: "string \<Rightarrow> string list \<Rightarrow> string list \<Rightarrow> bool" where
  "is_unsafe_promotion_target name = is_unsafe_promotion_target_lowercase (to_ascii_lowercase name)"

definition is_unsafe_promotion_header :: "string \<Rightarrow> bool" where
  "is_unsafe_promotion_header name = is_unsafe_promotion_target name [] AI_FACT_PREFIXES"

definition is_unsafe_model_identity_promotion_header :: "string \<Rightarrow> bool" where
  "is_unsafe_model_identity_promotion_header name = is_unsafe_promotion_target name MODEL_IDENTITY_HEADERS []"

definition reject_unsafe_promotion_target ::
  "string \<Rightarrow> string \<Rightarrow> string option \<Rightarrow> string list \<Rightarrow> string list \<Rightarrow> filter_error + unit" where
  "reject_unsafe_promotion_target flt field name dedicated prefixes =
     (case name of
        None \<Rightarrow> Inr ()
      | Some raw \<Rightarrow>
          (let normalized = to_ascii_lowercase raw
           in if is_unsafe_promotion_target_lowercase normalized dedicated prefixes
              then Inl (flt @ '': '' @ quoted field @ '' must not use transport, credential, or internal header '' @
                        quoted normalized)
              else Inr ()))"

type_synonym name_check = "string \<Rightarrow> string \<Rightarrow> string option \<Rightarrow> filter_error + unit"

definition validate_promotion_header :: "name_check \<Rightarrow> name_check" where
  "validate_promotion_header validate_header_name flt field name =
     res_bind (validate_header_name flt field name) (\<lambda>_.
       reject_unsafe_promotion_target flt field name [] AI_FACT_PREFIXES)"

definition validate_dedicated_promotion_header ::
  "name_check \<Rightarrow> string \<Rightarrow> string \<Rightarrow> string option \<Rightarrow> string list \<Rightarrow> filter_error + unit" where
  "validate_dedicated_promotion_header validate_header_name flt field name dedicated =
     res_bind (validate_header_name flt field name) (\<lambda>_.
       reject_unsafe_promotion_target flt field name dedicated [])"

definition validate_model_identity_promotion_header :: "name_check \<Rightarrow> name_check" where
  "validate_model_identity_promotion_header validate_header_name flt field name =
     validate_dedicated_promotion_header validate_header_name flt field name MODEL_IDENTITY_HEADERS"

text \<open>The parser returns the message of its error, or the normalized name.\<close>

definition parse_dedicated_promotion_header ::
  "(string \<Rightarrow> string + string) \<Rightarrow> string \<Rightarrow> string \<Rightarrow> string \<Rightarrow> string list \<Rightarrow> filter_error + string" where
  "parse_dedicated_promotion_header parse_name flt field name dedicated =
     (if name = [] then Inl (flt @ '': '' @ field @ '' header name must not be empty'')
      else
        (case parse_name name of
           Inl e \<Rightarrow> Inl (flt @ '': '' @ field @ '' header name is not a valid HTTP header name: '' @ e)
         | Inr header \<Rightarrow>
             res_bind (reject_unsafe_promotion_target flt field (Some header) dedicated []) (\<lambda>_. Inr header)))"

fun reject_duplicates_from ::
  "string \<Rightarrow> (string \<times> string) list \<Rightarrow> (string \<times> string option) list \<Rightarrow> filter_error + unit" where
  "reject_duplicates_from flt seen [] = Inr ()"
| "reject_duplicates_from flt seen ((field, name) # rest) =
     (case name of
        None \<Rightarrow> reject_duplicates_from flt seen rest
      | Some raw \<Rightarrow>
          (let normalized = to_ascii_lowercase raw
           in case find (\<lambda>p. snd p = normalized) seen of
                Some p \<Rightarrow> Inl (flt @ '': '' @ quoted field @ '' and '' @ quoted (fst p) @
                             '' must not use the same header name'')
              | None \<Rightarrow> reject_duplicates_from flt (seen @ [(field, normalized)]) rest))"

definition reject_duplicate_promotion_fields :: "string \<Rightarrow> (string \<times> string option) list \<Rightarrow> filter_error + unit" where
  "reject_duplicate_promotion_fields flt fields = reject_duplicates_from flt [] fields"

section \<open>What the checks guarantee\<close>

text \<open>
  A safe target: neither transport nor credential, and internal only if dedicated or in one of the
  allowed name spaces. Names are compared without case.
\<close>

definition safe_target :: "string list \<Rightarrow> string list \<Rightarrow> string \<Rightarrow> bool" where
  "safe_target dedicated prefixes name \<longleftrightarrow>
     \<not> is_transport_controlled_header name \<and> \<not> is_credential_header name \<and>
     (starts_with (to_ascii_lowercase name) ''x-praxis-'' \<longrightarrow>
        (\<exists>d \<in> set dedicated. eq_ignore_ascii_case d name) \<or>
        (\<exists>p \<in> set prefixes. starts_with (to_ascii_lowercase name) p))"

lemma unsafe_target_iff: "is_unsafe_promotion_target name dedicated prefixes \<longleftrightarrow> \<not> safe_target dedicated prefixes name"
  by (auto simp: safe_target_def is_unsafe_promotion_target_def is_unsafe_promotion_target_lowercase_def
      is_transport_controlled_header_def is_credential_header_def eq_ignore_ascii_case_def list_ex_iff)

lemma reject_unsafe_Inr:
  "reject_unsafe_promotion_target flt field name dedicated prefixes = Inr () \<longleftrightarrow>
     (\<forall>n. name = Some n \<longrightarrow> safe_target dedicated prefixes n)"
  using unsafe_target_iff [of _ dedicated prefixes, unfolded is_unsafe_promotion_target_def]
  by (cases name) (simp_all add: reject_unsafe_promotion_target_def Let_def)

lemma dedicated_Inr:
  "validate_dedicated_promotion_header vhn flt field name dedicated = Inr () \<Longrightarrow>
   name = Some n \<Longrightarrow> safe_target dedicated [] n"
  by (auto simp: validate_dedicated_promotion_header_def res_bind_Inr_iff reject_unsafe_Inr)

definition header_names :: "(string \<times> string option) list \<Rightarrow> string list" where
  "header_names fields = map to_ascii_lowercase (List.map_filter snd fields)"

lemma reject_duplicates_from_Inr:
  "distinct (map snd seen) \<Longrightarrow>
   reject_duplicates_from flt seen fields = Inr () \<longleftrightarrow> distinct (map snd seen @ header_names fields)"
proof (induction fields arbitrary: seen)
  case (Cons x fields)
  obtain f nm where x: "x = (f, nm)" by force
  show ?case
  proof (cases nm)
    case None
    with Cons x show ?thesis by (simp add: header_names_def map_filter_simps)
  next
    case (Some raw)
    show ?thesis
    proof (cases "to_ascii_lowercase raw \<in> set (map snd seen)")
      case True
      then have "find (\<lambda>p. snd p = to_ascii_lowercase raw) seen \<noteq> None" by (auto simp: find_None_iff)
      with True Some x show ?thesis by (auto simp: Let_def header_names_def map_filter_simps)
    next
      case False
      then have "find (\<lambda>p. snd p = to_ascii_lowercase raw) seen = None" by (force simp: find_None_iff)
      with False Some x Cons.IH [of "seen @ [(f, to_ascii_lowercase raw)]"] Cons.prems show ?thesis
        by (simp add: Let_def header_names_def map_filter_simps)
    qed
  qed
qed (simp add: header_names_def map_filter_simps)

lemma reject_duplicates_Inr:
  "reject_duplicate_promotion_fields flt fields = Inr () \<longleftrightarrow> distinct (header_names fields)"
  using reject_duplicates_from_Inr [of "[]" flt fields] by (simp add: reject_duplicate_promotion_fields_def)

end
