(* ===== verification/A2a_Envelope.thy ===== *)
theory A2a_Envelope
  imports Json Promotion
begin

text \<open>
  Classification of agent-to-agent requests, \<^verbatim>\<open>filters/src/agentic/a2a/envelope.rs\<close>, and the
  configuration of the filter, \<^verbatim>\<open>filters/src/agentic/a2a/config.rs\<close>: methods with their families and the
  identifiers they carry, the header names of a configuration and what \<^verbatim>\<open>build_config\<close> accepts. The
  checks \<^verbatim>\<open>validate_header_name\<close> and \<^verbatim>\<open>validate_max_body_bytes\<close> of the proxy framework are parameters, as
  is the lookup of a request header; nothing is assumed of them.
\<close>

section \<open>Methods\<close>

datatype a2a_method =
    SendMessage
  | SendStreamingMessage
  | GetTask
  | ListTasks
  | CancelTask
  | SubscribeToTask
  | CreateTaskPushNotificationConfig
  | GetTaskPushNotificationConfig
  | ListTaskPushNotificationConfigs
  | DeleteTaskPushNotificationConfig
  | GetExtendedAgentCard
  | Unknown_Method string

datatype a2a_family = Message_Family | Task_Family | PushNotification_Family | AgentCard_Family | Unknown_Family

definition canonical_method :: "string \<Rightarrow> a2a_method" where
  "canonical_method s =
     (if s = ''SendMessage'' then SendMessage
      else if s = ''SendStreamingMessage'' then SendStreamingMessage
      else if s = ''GetTask'' then GetTask
      else if s = ''ListTasks'' then ListTasks
      else if s = ''CancelTask'' then CancelTask
      else if s = ''SubscribeToTask'' then SubscribeToTask
      else if s = ''CreateTaskPushNotificationConfig'' then CreateTaskPushNotificationConfig
      else if s = ''GetTaskPushNotificationConfig'' then GetTaskPushNotificationConfig
      else if s = ''ListTaskPushNotificationConfigs'' then ListTaskPushNotificationConfigs
      else if s = ''DeleteTaskPushNotificationConfig'' then DeleteTaskPushNotificationConfig
      else if s = ''GetExtendedAgentCard'' then GetExtendedAgentCard
      else Unknown_Method s)"

definition from_method_str :: "string \<Rightarrow> (string \<times> string) list \<Rightarrow> a2a_method" where
  "from_method_str s aliases =
     canonical_method (case map_of aliases s of None \<Rightarrow> s | Some canonical \<Rightarrow> canonical)"

fun method_as_str :: "a2a_method \<Rightarrow> string" where
  "method_as_str SendMessage = ''SendMessage''"
| "method_as_str SendStreamingMessage = ''SendStreamingMessage''"
| "method_as_str GetTask = ''GetTask''"
| "method_as_str ListTasks = ''ListTasks''"
| "method_as_str CancelTask = ''CancelTask''"
| "method_as_str SubscribeToTask = ''SubscribeToTask''"
| "method_as_str CreateTaskPushNotificationConfig = ''CreateTaskPushNotificationConfig''"
| "method_as_str GetTaskPushNotificationConfig = ''GetTaskPushNotificationConfig''"
| "method_as_str ListTaskPushNotificationConfigs = ''ListTaskPushNotificationConfigs''"
| "method_as_str DeleteTaskPushNotificationConfig = ''DeleteTaskPushNotificationConfig''"
| "method_as_str GetExtendedAgentCard = ''GetExtendedAgentCard''"
| "method_as_str (Unknown_Method s) = s"

definition family :: "a2a_method \<Rightarrow> a2a_family" where
  "family m =
     (case m of
        SendMessage \<Rightarrow> Message_Family | SendStreamingMessage \<Rightarrow> Message_Family
      | GetTask \<Rightarrow> Task_Family | ListTasks \<Rightarrow> Task_Family | CancelTask \<Rightarrow> Task_Family
      | SubscribeToTask \<Rightarrow> Task_Family
      | GetExtendedAgentCard \<Rightarrow> AgentCard_Family
      | Unknown_Method _ \<Rightarrow> Unknown_Family
      | _ \<Rightarrow> PushNotification_Family)"

definition is_streaming :: "a2a_method \<Rightarrow> bool" where
  "is_streaming m \<longleftrightarrow> m = SendStreamingMessage \<or> m = SubscribeToTask"

definition extracts_task_id :: "a2a_method \<Rightarrow> bool" where
  "extracts_task_id m \<longleftrightarrow> m = GetTask \<or> m = CancelTask \<or> m = SubscribeToTask"

definition extracts_task_id_from_params :: "a2a_method \<Rightarrow> bool" where
  "extracts_task_id_from_params m \<longleftrightarrow>
     m = CreateTaskPushNotificationConfig \<or> m = GetTaskPushNotificationConfig \<or>
     m = ListTaskPushNotificationConfigs \<or> m = DeleteTaskPushNotificationConfig"

definition is_task_routable :: "a2a_method \<Rightarrow> bool" where
  "is_task_routable m \<longleftrightarrow>
     m = GetTask \<or> m = CancelTask \<or> m = SubscribeToTask \<or>
     m = CreateTaskPushNotificationConfig \<or> m = GetTaskPushNotificationConfig \<or>
     m = ListTaskPushNotificationConfigs \<or> m = DeleteTaskPushNotificationConfig"

definition is_context_routable :: "a2a_method \<Rightarrow> bool" where
  "is_context_routable m \<longleftrightarrow> m = SendMessage \<or> m = SendStreamingMessage \<or> m = ListTasks"

fun family_as_str :: "a2a_family \<Rightarrow> string" where
  "family_as_str Message_Family = ''message''"
| "family_as_str Task_Family = ''task''"
| "family_as_str PushNotification_Family = ''push_notification''"
| "family_as_str AgentCard_Family = ''agent_card''"
| "family_as_str Unknown_Family = ''unknown''"

section \<open>The envelope\<close>

record a2a_envelope =
  ae_context_id :: "string option"
  ae_family :: a2a_family
  ae_method :: a2a_method
  ae_original_method :: "string option"
  ae_streaming :: bool
  ae_task_id :: "string option"
  ae_version :: "string option"

definition json_get_str :: "json \<Rightarrow> string \<Rightarrow> string option" where
  "json_get_str v k = Option.bind (json_get v k) json_as_str"

definition extract_task_id :: "json \<Rightarrow> a2a_method \<Rightarrow> string option" where
  "extract_task_id v m =
     (case json_get v ''params'' of
        None \<Rightarrow> None
      | Some params \<Rightarrow>
          (if extracts_task_id m then json_get_str params ''id''
           else if extracts_task_id_from_params m then json_get_str params ''taskId''
           else None))"

definition extract_context_id :: "json \<Rightarrow> a2a_method \<Rightarrow> string option" where
  "extract_context_id v m =
     (case json_get v ''params'' of
        None \<Rightarrow> None
      | Some params \<Rightarrow>
          (if m = SendMessage \<or> m = SendStreamingMessage
           then Option.bind (json_get params ''message'') (\<lambda>msg. json_get_str msg ''contextId'')
           else if m = ListTasks then json_get_str params ''contextId''
           else None))"

text \<open>\<open>header_str\<close> is the lookup of a request header whose value is visible ASCII.\<close>

definition extract_version :: "(string \<Rightarrow> string option) \<Rightarrow> string option" where
  "extract_version header_str = header_str ''a2a-version''"

definition extract_a2a_envelope ::
  "json \<Rightarrow> string \<Rightarrow> (string \<times> string) list \<Rightarrow> (string \<Rightarrow> string option) \<Rightarrow> a2a_envelope" where
  "extract_a2a_envelope v method_str aliases header_str =
     (let m = from_method_str method_str aliases
      in \<lparr>ae_context_id = extract_context_id v m, ae_family = family m, ae_method = m,
          ae_original_method = map_option (\<lambda>_. method_str) (map_of aliases method_str),
          ae_streaming = is_streaming m, ae_task_id = extract_task_id v m,
          ae_version = extract_version header_str\<rparr>)"

section \<open>Configuration\<close>

definition MAX_TTL_SECONDS :: nat where "MAX_TTL_SECONDS = 2592000"

record task_routing_config =
  trc_enabled :: bool
  trc_max_response_body_bytes :: nat
  trc_route_cluster_header :: string
  trc_terminal_ttl_seconds :: nat
  trc_ttl_seconds :: nat

definition task_routing_default :: task_routing_config where
  "task_routing_default =
     \<lparr>trc_enabled = False, trc_max_response_body_bytes = 65536,
      trc_route_cluster_header = ''x-praxis-a2a-route-cluster'',
      trc_terminal_ttl_seconds = 300, trc_ttl_seconds = 3600\<rparr>"

record a2a_headers =
  ah_context_id :: "string option"
  ah_family :: "string option"
  ah_kind :: "string option"
  ah_method :: "string option"
  ah_streaming :: "string option"
  ah_task_id :: "string option"
  ah_version :: "string option"

definition a2a_headers_default :: a2a_headers where
  "a2a_headers_default =
     \<lparr>ah_context_id = Some ''x-praxis-a2a-context-id'', ah_family = Some ''x-praxis-a2a-family'',
      ah_kind = Some ''x-praxis-a2a-kind'', ah_method = Some ''x-praxis-a2a-method'',
      ah_streaming = Some ''x-praxis-a2a-streaming'', ah_task_id = Some ''x-praxis-a2a-task-id'',
      ah_version = Some ''x-praxis-a2a-version''\<rparr>"

record a2a_config =
  ac_headers :: a2a_headers
  ac_max_body_bytes :: nat
  ac_method_aliases :: "(string \<times> string) list"
  ac_task_routing :: task_routing_config

definition is_known_a2a_method :: "string \<Rightarrow> bool" where
  "is_known_a2a_method m \<longleftrightarrow>
     m \<in> {''SendMessage'', ''SendStreamingMessage'', ''GetTask'', ''ListTasks'', ''CancelTask'',
          ''SubscribeToTask'', ''CreateTaskPushNotificationConfig'', ''GetTaskPushNotificationConfig'',
          ''ListTaskPushNotificationConfigs'', ''DeleteTaskPushNotificationConfig'', ''GetExtendedAgentCard''}"

definition validate_task_routing_ttl :: "string \<Rightarrow> nat \<Rightarrow> bool \<Rightarrow> filter_error + unit" where
  "validate_task_routing_ttl field v allow_zero =
     (if v = 0 then
        (if allow_zero then Inr () else Inl (''a2a: task_routing.'' @ field @ '' must be greater than 0''))
      else if MAX_TTL_SECONDS < v then
        Inl (''a2a: task_routing.'' @ field @ '' ('' @ show_nat v @ '') exceeds maximum ('' @
             show_nat MAX_TTL_SECONDS @ '')'')
      else Inr ())"

type_synonym size_check = "string \<Rightarrow> nat \<Rightarrow> filter_error + unit"

definition validate_task_routing :: "name_check \<Rightarrow> size_check \<Rightarrow> task_routing_config \<Rightarrow> filter_error + unit" where
  "validate_task_routing vhn vmb tr =
     res_bind (validate_task_routing_ttl ''ttl_seconds'' (trc_ttl_seconds tr) False) (\<lambda>_.
     res_bind (validate_task_routing_ttl ''terminal_ttl_seconds'' (trc_terminal_ttl_seconds tr) True) (\<lambda>_.
     res_bind (vmb ''a2a: task_routing'' (trc_max_response_body_bytes tr)) (\<lambda>_.
     res_bind (vhn ''a2a'' ''task_routing.route_cluster_header'' (Some (trc_route_cluster_header tr))) (\<lambda>_.
       if \<not> starts_with (trc_route_cluster_header tr) ''x-praxis-a2a-''
       then Inl (''a2a: task_routing.route_cluster_header '' @ quoted (trc_route_cluster_header tr) @
                 '' must start with '' @ quoted ''x-praxis-a2a-'')
       else Inr ()))))"

text \<open>Each header field with its name and the internal name dedicated to it.\<close>

definition header_fields :: "a2a_headers \<Rightarrow> (string \<times> string option \<times> string) list" where
  "header_fields h =
     [(''context_id'', ah_context_id h, ''x-praxis-a2a-context-id''),
      (''method'', ah_method h, ''x-praxis-a2a-method''),
      (''family'', ah_family h, ''x-praxis-a2a-family''),
      (''task_id'', ah_task_id h, ''x-praxis-a2a-task-id''),
      (''kind'', ah_kind h, ''x-praxis-a2a-kind''),
      (''streaming'', ah_streaming h, ''x-praxis-a2a-streaming''),
      (''version'', ah_version h, ''x-praxis-a2a-version'')]"

definition validate_a2a_headers :: "name_check \<Rightarrow> a2a_headers \<Rightarrow> filter_error + unit" where
  "validate_a2a_headers vhn h =
     res_bind (each_ok (\<lambda>(field, name, dedicated).
       validate_dedicated_promotion_header vhn ''a2a'' field name [dedicated]) (header_fields h)) (\<lambda>_.
     reject_duplicate_promotion_fields ''a2a'' (map (\<lambda>(field, name, _). (field, name)) (header_fields h)))"

definition check_alias :: "string \<times> string \<Rightarrow> filter_error + unit" where
  "check_alias p =
     (case p of (alias, canonical) \<Rightarrow>
       (if alias = [] then Inl ''a2a: alias key must be non-empty''
        else if canonical = [] then Inl ''a2a: alias value must be non-empty''
        else if \<not> is_known_a2a_method canonical
             then Inl (''a2a: alias target '' @ quoted canonical @ '' is not a known A2A method'')
        else Inr ()))"

definition build_config :: "name_check \<Rightarrow> size_check \<Rightarrow> a2a_config \<Rightarrow> filter_error + a2a_config" where
  "build_config vhn vmb cfg =
     res_bind (vmb ''a2a'' (ac_max_body_bytes cfg)) (\<lambda>_.
     res_bind (validate_a2a_headers vhn (ac_headers cfg)) (\<lambda>_.
     res_bind (if trc_enabled (ac_task_routing cfg)
               then validate_task_routing vhn vmb (ac_task_routing cfg) else Inr ()) (\<lambda>_.
     res_bind (each_ok check_alias (ac_method_aliases cfg)) (\<lambda>_. Inr cfg))))"

section \<open>Lemmas\<close>

lemma canonical_method_known: "is_known_a2a_method s \<Longrightarrow> canonical_method s \<noteq> Unknown_Method x"
  by (auto simp: is_known_a2a_method_def canonical_method_def)

lemma canonical_method_as_str: "method_as_str (canonical_method s) = s"
  by (simp add: canonical_method_def)

lemma canonical_as_str_canonical: "canonical_method (method_as_str m) = m"
  if "\<And>s. m = Unknown_Method s \<Longrightarrow> \<not> is_known_a2a_method s"
  using that by (cases m) (auto simp: canonical_method_def is_known_a2a_method_def)

text \<open>A method is routed by task exactly if it carries a task identifier, by context exactly if it carries one of those.\<close>

lemma routable_disjoint: "\<not> (is_task_routable m \<and> is_context_routable m)"
  by (cases m) (simp_all add: is_task_routable_def is_context_routable_def)

lemma task_routable_extracts: "is_task_routable m \<longleftrightarrow> extracts_task_id m \<or> extracts_task_id_from_params m"
  by (auto simp: is_task_routable_def extracts_task_id_def extracts_task_id_from_params_def)

lemma validate_ttl_Inr:
  "validate_task_routing_ttl f v z = Inr () \<longleftrightarrow> (v = 0 \<longrightarrow> z) \<and> v \<le> MAX_TTL_SECONDS"
  by (auto simp: validate_task_routing_ttl_def)

section \<open>Properties\<close>

text \<open>
  C29. An accepted filter configuration is safe. If \<^verbatim>\<open>build_config\<close> accepts, then no two header fields
  share a name, and no field promotes request data into a transport header, a credential header or
  an internal header other than its own; with task routing enabled the route header is in the
  reserved name space and every lifetime is in range; and every configured alias resolves to a
  known method. Names are compared without case.
\<close>

theorem accepted_config_is_safe:
  assumes "build_config vhn vmb cfg = Inr cfg'"
  shows "cfg' = cfg \<and>
    distinct (header_names (map (\<lambda>(f, n, _). (f, n)) (header_fields (ac_headers cfg)))) \<and>
    (\<forall>(f, n, d) \<in> set (header_fields (ac_headers cfg)). \<forall>name. n = Some name \<longrightarrow> safe_target [d] [] name) \<and>
    (trc_enabled (ac_task_routing cfg) \<longrightarrow>
      starts_with (trc_route_cluster_header (ac_task_routing cfg)) ''x-praxis-a2a-'' \<and>
      0 < trc_ttl_seconds (ac_task_routing cfg) \<and> trc_ttl_seconds (ac_task_routing cfg) \<le> 2592000 \<and>
      trc_terminal_ttl_seconds (ac_task_routing cfg) \<le> 2592000) \<and>
    (\<forall>a. map_of (ac_method_aliases cfg) a \<noteq> None \<longrightarrow>
      (\<forall>x. from_method_str a (ac_method_aliases cfg) \<noteq> Unknown_Method x))"
proof -
  from assms have h: "validate_a2a_headers vhn (ac_headers cfg) = Inr ()"
    and t: "trc_enabled (ac_task_routing cfg) \<Longrightarrow> validate_task_routing vhn vmb (ac_task_routing cfg) = Inr ()"
    and a: "\<And>p. p \<in> set (ac_method_aliases cfg) \<Longrightarrow> check_alias p = Inr ()" and c: "cfg' = cfg"
    by (auto simp: build_config_def res_bind_Inr_iff each_ok_Inr)
  have "\<forall>(f, n, d) \<in> set (header_fields (ac_headers cfg)). \<forall>name. n = Some name \<longrightarrow> safe_target [d] [] name"
    using h by (fastforce simp: validate_a2a_headers_def res_bind_Inr_iff each_ok_Inr dest: dedicated_Inr)
  moreover have "distinct (header_names (map (\<lambda>(f, n, _). (f, n)) (header_fields (ac_headers cfg))))"
    using h by (auto simp: validate_a2a_headers_def res_bind_Inr_iff reject_duplicates_Inr)
  moreover have "is_known_a2a_method m" if "map_of (ac_method_aliases cfg) x = Some m" for x m
    using a [OF map_of_SomeD [OF that]] by (auto simp: check_alias_def split: if_splits)
  then have "\<forall>a. map_of (ac_method_aliases cfg) a \<noteq> None \<longrightarrow>
      (\<forall>x. from_method_str a (ac_method_aliases cfg) \<noteq> Unknown_Method x)"
    by (auto simp: from_method_str_def canonical_method_known)
  ultimately show ?thesis using t c
    by (auto simp: validate_task_routing_def res_bind_Inr_iff validate_ttl_Inr MAX_TTL_SECONDS_def split: if_splits)
qed

definition demo_a2a_config :: a2a_config where
  "demo_a2a_config =
     \<lparr>ac_headers = a2a_headers_default\<lparr>ah_method := Some ''X-Agent-Method''\<rparr>, ac_max_body_bytes = 65536,
      ac_method_aliases = [(''tasks/send'', ''SendMessage'')],
      ac_task_routing = task_routing_default\<lparr>trc_enabled := True\<rparr>\<rparr>"

theorem accepted_config_is_safe_witness:
  "from_method_str ''tasks/send'' (ac_method_aliases demo_a2a_config) \<noteq> Unknown_Method ''tasks/send'' \<and>
   safe_target [''x-praxis-a2a-method''] [] ''X-Agent-Method'' \<and>
   trc_ttl_seconds (ac_task_routing demo_a2a_config) \<le> 2592000"
proof -
  have ok: "build_config (\<lambda>_ _ _. Inr ()) (\<lambda>_ _. Inr ()) demo_a2a_config = Inr demo_a2a_config" by code_simp
  have f: "(''method'', Some ''X-Agent-Method'', ''x-praxis-a2a-method'') \<in> set (header_fields (ac_headers demo_a2a_config))"
    by code_simp
  have "map_of (ac_method_aliases demo_a2a_config) ''tasks/send'' \<noteq> None" "trc_enabled (ac_task_routing demo_a2a_config)"
    by code_simp+
  with accepted_config_is_safe [OF ok] f show ?thesis by fast
qed

end
