(* ===== verification/A2a_Routes.thy ===== *)
theory A2a_Routes
  imports A2a_Envelope
begin

text \<open>
  The in-process route store of the agent-to-agent filter, \<^verbatim>\<open>filters/src/agentic/a2a/task_routing.rs\<close>:
  which cluster owns a task or a context, for how long, and how this is read off a response. An
  \<^verbatim>\<open>Instant\<close> is a number of nanoseconds; an operation reads the clock several times, so it takes the
  readings as a function from their position (\<open>clk 0\<close>, \<open>clk 1\<close>, ...). A lookup is two critical
  sections, one under the read lock and one under the write lock, which are separate steps of a
  run; every other operation is one critical section. Shown here: lookups implement the plain
  specification "last write wins until it expires" under every interleaving of those sections, and
  the maps never outgrow their caps.
\<close>

section \<open>Data\<close>

definition MAX_ID_LEN :: nat where "MAX_ID_LEN = 256"
definition MAX_TASK_ROUTES :: nat where "MAX_TASK_ROUTES = 50000"
definition MAX_CONTEXT_ROUTES :: nat where "MAX_CONTEXT_ROUTES = 50000"

definition EVICTION_INTERVAL :: nat where "EVICTION_INTERVAL = duration_from_secs 30"

text \<open>An \<^verbatim>\<open>Instant\<close> holds its seconds in a signed 64-bit integer.\<close>

definition instant_checked_add :: "nat \<Rightarrow> nat \<Rightarrow> nat option" where
  "instant_checked_add t d = (if t + d < duration_from_secs (2 ^ 63) then Some (t + d) else None)"

datatype route_source = RouteSource_Task | RouteSource_Context

fun route_source_as_str :: "route_source \<Rightarrow> string" where
  "route_source_as_str RouteSource_Task = ''task''"
| "route_source_as_str RouteSource_Context = ''context''"

record task_route =
  tr_cluster :: string
  tr_expires_at :: nat

record extracted_task_route =
  ex_terminal :: bool
  ex_task_id :: string
  ex_context_id :: "string option"

type_synonym route_map = "(string \<times> task_route) list"

record route_store =
  rs_tasks :: route_map
  rs_contexts :: route_map
  rs_last_task_eviction :: nat
  rs_last_context_eviction :: nat

section \<open>Identifiers\<close>

definition validate_id :: "string \<Rightarrow> bool" where
  "validate_id rid \<longleftrightarrow> rid \<noteq> [] \<and> length rid \<le> MAX_ID_LEN \<and> \<not> contains_control_chars rid"

section \<open>The store\<close>

definition try_route :: "string \<Rightarrow> nat \<Rightarrow> nat \<Rightarrow> task_route option" where
  "try_route cluster ttl now =
     (case instant_checked_add now ttl of
        None \<Rightarrow> None
      | Some e \<Rightarrow> Some \<lparr>tr_cluster = cluster, tr_expires_at = e\<rparr>)"

definition route_store_new :: "clock \<Rightarrow> route_store" where
  "route_store_new clk =
     \<lparr>rs_tasks = [], rs_contexts = [], rs_last_task_eviction = clk 0, rs_last_context_eviction = clk 1\<rparr>"

text \<open>
  Sweep expired entries once per interval. The eviction clock is only ever locked by a caller that
  holds the write lock of its map, so \<^verbatim>\<open>try_lock\<close> succeeds; \<open>clk 1\<close> is read for the elapsed time,
  \<open>clk 2\<close> for the sweep and \<open>clk 3\<close> for the new mark.
\<close>

definition maybe_evict_map :: "route_map \<times> nat \<Rightarrow> clock \<Rightarrow> route_map \<times> nat" where
  "maybe_evict_map ml clk =
     (case ml of (m, last_eviction) \<Rightarrow>
       (if clk 1 - last_eviction < EVICTION_INTERVAL then (m, last_eviction)
        else (filter (\<lambda>p. clk 2 < tr_expires_at (snd p)) m, clk 3)))"

text \<open>The body of \<^verbatim>\<open>put\<close> and \<^verbatim>\<open>put_context\<close>, which differ in the map and its cap only.\<close>

definition route_put :: "nat \<Rightarrow> route_map \<times> nat \<Rightarrow> string \<Rightarrow> string \<Rightarrow> nat \<Rightarrow> clock \<Rightarrow> route_map \<times> nat" where
  "route_put cap ml rid cluster ttl clk =
     (if \<not> validate_id rid then ml
      else
        (case try_route cluster ttl (clk 0) of
           None \<Rightarrow> ml
         | Some route \<Rightarrow>
             (let (m, last_eviction) = maybe_evict_map ml clk
              in if cap \<le> length m \<and> map_of m rid = None then (m, last_eviction)
                 else (AList.update rid route m, last_eviction))))"

text \<open>
  The two critical sections of a lookup: the answer with whether an expired entry was seen, and the
  removal of an entry that is still expired at the second reading of the clock.
\<close>

definition route_read :: "route_map \<Rightarrow> string \<Rightarrow> nat \<Rightarrow> string option \<times> bool" where
  "route_read m rid now =
     (case map_of m rid of
        Some r \<Rightarrow> if now < tr_expires_at r then (Some (tr_cluster r), False) else (None, True)
      | None \<Rightarrow> (None, False))"

definition route_recheck :: "route_map \<Rightarrow> string \<Rightarrow> nat \<Rightarrow> route_map" where
  "route_recheck m rid now =
     (case map_of m rid of
        Some r \<Rightarrow> if tr_expires_at r \<le> now then AList.delete rid m else m
      | None \<Rightarrow> m)"

definition put :: "route_store \<Rightarrow> string \<Rightarrow> string \<Rightarrow> nat \<Rightarrow> clock \<Rightarrow> route_store" where
  "put s task_id cluster ttl clk =
     (let (m, e) = route_put MAX_TASK_ROUTES (rs_tasks s, rs_last_task_eviction s) task_id cluster ttl clk
      in s\<lparr>rs_tasks := m, rs_last_task_eviction := e\<rparr>)"

definition put_context :: "route_store \<Rightarrow> string \<Rightarrow> string \<Rightarrow> nat \<Rightarrow> clock \<Rightarrow> route_store" where
  "put_context s context_id cluster ttl clk =
     (let (m, e) = route_put MAX_CONTEXT_ROUTES (rs_contexts s, rs_last_context_eviction s) context_id cluster ttl clk
      in s\<lparr>rs_contexts := m, rs_last_context_eviction := e\<rparr>)"

definition route_remove :: "route_store \<Rightarrow> string \<Rightarrow> route_store" where
  "route_remove s task_id = s\<lparr>rs_tasks := AList.delete task_id (rs_tasks s)\<rparr>"

definition get_by_task_id :: "route_store \<Rightarrow> string \<Rightarrow> clock \<Rightarrow> string option \<times> route_store" where
  "get_by_task_id s task_id clk =
     (case route_read (rs_tasks s) task_id (clk 0) of (c, expired) \<Rightarrow>
       (c, if expired then s\<lparr>rs_tasks := route_recheck (rs_tasks s) task_id (clk 1)\<rparr> else s))"

definition get_by_context_id :: "route_store \<Rightarrow> string \<Rightarrow> clock \<Rightarrow> string option \<times> route_store" where
  "get_by_context_id s context_id clk =
     (case route_read (rs_contexts s) context_id (clk 0) of (c, expired) \<Rightarrow>
       (c, if expired then s\<lparr>rs_contexts := route_recheck (rs_contexts s) context_id (clk 1)\<rparr> else s))"

definition attempt_route_lookup ::
  "route_store \<Rightarrow> string option \<Rightarrow> string option \<Rightarrow> clock \<Rightarrow> (string \<times> route_source) option \<times> route_store" where
  "attempt_route_lookup s task_id context_id clk =
     (case task_id of
        Some tid \<Rightarrow>
          (case get_by_task_id s tid clk of (c, s') \<Rightarrow> (map_option (\<lambda>c. (c, RouteSource_Task)) c, s'))
      | None \<Rightarrow>
          (case context_id of
             None \<Rightarrow> (None, s)
           | Some cid \<Rightarrow>
               (case get_by_context_id s cid clk of
                  (Some c, s') \<Rightarrow> (Some (c, RouteSource_Context), s')
                | (None, s') \<Rightarrow> (None, s'))))"

section \<open>Reading routes off a response\<close>

definition is_terminal_state :: "string \<Rightarrow> bool" where
  "is_terminal_state st \<longleftrightarrow>
     st \<in> {''TASK_STATE_COMPLETED'', ''TASK_STATE_FAILED'', ''TASK_STATE_CANCELED'',
           ''TASK_STATE_REJECTED'', ''completed'', ''failed'', ''canceled'', ''cancelled'', ''rejected''}"

definition has_terminal_status :: "json \<Rightarrow> bool" where
  "has_terminal_status v =
     (case Option.bind (Option.bind (json_get v ''status'') (\<lambda>s. json_get s ''state'')) json_as_str of
        None \<Rightarrow> False
      | Some st \<Rightarrow> is_terminal_state st)"

definition extract_context_id_from_object :: "json \<Rightarrow> string option" where
  "extract_context_id_from_object v =
     (case json_get_str v ''contextId'' of
        None \<Rightarrow> None
      | Some rid \<Rightarrow> if validate_id rid then Some rid else None)"

definition extract_from_task_object :: "json \<Rightarrow> extracted_task_route option" where
  "extract_from_task_object task =
     (case json_get_str task ''id'' of
        None \<Rightarrow> None
      | Some rid \<Rightarrow>
          (if \<not> validate_id rid then None
           else Some \<lparr>ex_terminal = has_terminal_status task, ex_task_id = rid,
                      ex_context_id = extract_context_id_from_object task\<rparr>))"

definition extract_from_status_update :: "json \<Rightarrow> extracted_task_route option" where
  "extract_from_status_update update =
     (case json_get_str update ''taskId'' of
        None \<Rightarrow> None
      | Some rid \<Rightarrow>
          (if \<not> validate_id rid then None
           else Some \<lparr>ex_terminal = has_terminal_status update, ex_task_id = rid,
                      ex_context_id = extract_context_id_from_object update\<rparr>))"

definition extract_from_artifact_update :: "json \<Rightarrow> extracted_task_route option" where
  "extract_from_artifact_update update =
     (case json_get_str update ''taskId'' of
        None \<Rightarrow> None
      | Some rid \<Rightarrow>
          (if \<not> validate_id rid then None
           else Some \<lparr>ex_terminal = False, ex_task_id = rid,
                      ex_context_id = extract_context_id_from_object update\<rparr>))"

definition extract_task_route :: "json \<Rightarrow> extracted_task_route option" where
  "extract_task_route value =
     (case json_get value ''result'' of
        None \<Rightarrow> None
      | Some result \<Rightarrow>
          (case json_get result ''task'' of
             Some task \<Rightarrow> extract_from_task_object task
           | None \<Rightarrow>
               (if json_get result ''id'' \<noteq> None \<and> json_get result ''status'' \<noteq> None
                then extract_from_task_object result
                else
                  (case json_get result ''statusUpdate'' of
                     Some u \<Rightarrow> extract_from_status_update u
                   | None \<Rightarrow>
                       (case json_get result ''artifactUpdate'' of
                          Some u \<Rightarrow> extract_from_artifact_update u
                        | None \<Rightarrow> None)))))"

definition route_ttl :: "bool \<Rightarrow> task_routing_config \<Rightarrow> nat" where
  "route_ttl terminal config =
     (if terminal then duration_from_secs (trc_terminal_ttl_seconds config)
      else duration_from_secs (trc_ttl_seconds config))"

text \<open>\<^verbatim>\<open>store_task_route\<close> of the filter: record what one response value says about ownership.\<close>

definition store_task_route :: "json \<Rightarrow> string \<Rightarrow> task_routing_config \<Rightarrow> clock \<Rightarrow> route_store \<Rightarrow> route_store" where
  "store_task_route value cluster config clk s =
     (case extract_task_route value of
        None \<Rightarrow> s
      | Some ex \<Rightarrow>
          (let s1 = (if ex_terminal ex \<and> trc_terminal_ttl_seconds config = 0
                     then route_remove s (ex_task_id ex)
                     else put s (ex_task_id ex) cluster (route_ttl (ex_terminal ex) config) clk)
           in case ex_context_id ex of
                None \<Rightarrow> s1
              | Some cid \<Rightarrow>
                  put_context s1 cid cluster (duration_from_secs (trc_ttl_seconds config)) (\<lambda>i. clk (i + 4))))"

section \<open>One table against its specification\<close>

text \<open>The critical sections that write a table, and what they mean when nothing is ever evicted.\<close>

datatype table_op =
    Put_Route string string nat clock
  | Remove_Route string
  | Recheck_Route string nat

fun table_step :: "nat \<Rightarrow> table_op \<Rightarrow> route_map \<times> nat \<Rightarrow> route_map \<times> nat" where
  "table_step cap (Put_Route k c ttl clk) ml = route_put cap ml k c ttl clk"
| "table_step cap (Remove_Route k) ml = (AList.delete k (fst ml), snd ml)"
| "table_step cap (Recheck_Route k now) ml = (route_recheck (fst ml) k now, snd ml)"

fun last_write :: "table_op \<Rightarrow> (string \<rightharpoonup> task_route) \<Rightarrow> (string \<rightharpoonup> task_route)" where
  "last_write (Put_Route k c ttl clk) sp =
     (if validate_id k then (case try_route c ttl (clk 0) of None \<Rightarrow> sp | Some r \<Rightarrow> sp(k \<mapsto> r)) else sp)"
| "last_write (Remove_Route k) sp = sp(k := None)"
| "last_write (Recheck_Route k now) sp = sp"

definition route_at :: "(string \<rightharpoonup> task_route) \<Rightarrow> string \<Rightarrow> nat \<Rightarrow> string option" where
  "route_at sp k t =
     (case sp k of None \<Rightarrow> None | Some r \<Rightarrow> if t < tr_expires_at r then Some (tr_cluster r) else None)"

text \<open>Every clock reading of the operation is at most \<open>t\<close>.\<close>

fun read_before :: "nat \<Rightarrow> table_op \<Rightarrow> bool" where
  "read_before t (Put_Route k c ttl clk) \<longleftrightarrow> clk 0 \<le> t \<and> clk 1 \<le> t \<and> clk 2 \<le> t \<and> clk 3 \<le> t"
| "read_before t (Remove_Route k) \<longleftrightarrow> True"
| "read_before t (Recheck_Route k now) \<longleftrightarrow> now \<le> t"

fun put_keys :: "table_op \<Rightarrow> string list" where
  "put_keys (Put_Route k c ttl clk) = [k]"
| "put_keys (Remove_Route k) = []"
| "put_keys (Recheck_Route k now) = []"

definition table_ok :: "nat \<Rightarrow> route_map \<Rightarrow> bool" where
  "table_ok cap m \<longleftrightarrow> distinct (map fst m) \<and> length m \<le> cap \<and> list_all validate_id (map fst m)"

definition table_rel :: "nat \<Rightarrow> route_map \<Rightarrow> (string \<rightharpoonup> task_route) \<Rightarrow> bool" where
  "table_rel t m sp \<longleftrightarrow>
     (\<forall>k r. map_of m k = Some r \<longrightarrow> sp k = Some r) \<and>
     (\<forall>k r. sp k = Some r \<longrightarrow> t < tr_expires_at r \<longrightarrow> map_of m k = Some r)"

lemma table_relD1: "table_rel t m sp \<Longrightarrow> map_of m k = Some r \<Longrightarrow> sp k = Some r"
  unfolding table_rel_def by blast

lemma table_relD2: "table_rel t m sp \<Longrightarrow> sp k = Some r \<Longrightarrow> t < tr_expires_at r \<Longrightarrow> map_of m k = Some r"
  unfolding table_rel_def by blast

lemma table_relI:
  assumes "\<And>k r. map_of m k = Some r \<Longrightarrow> sp k = Some r"
    and "\<And>k r. sp k = Some r \<Longrightarrow> t < tr_expires_at r \<Longrightarrow> map_of m k = Some r"
  shows "table_rel t m sp"
  unfolding table_rel_def using assms by blast

lemma map_of_filter_snd:
  "distinct (map fst m) \<Longrightarrow>
   map_of (filter (\<lambda>p. P (snd p)) m) k = (case map_of m k of None \<Rightarrow> None | Some v \<Rightarrow> if P v then Some v else None)"
proof (induction m)
  case (Cons p m)
  have "fst p \<notin> set (map fst m)" using Cons.prems by simp
  then have "map_of m (fst p) = None" by (simp add: map_of_eq_None_iff)
  with Cons show ?case by (cases p) auto
qed simp

lemma evict_lookup:
  assumes "distinct (map fst m)" and "maybe_evict_map (m, e) clk = (m', e')"
  shows "distinct (map fst m')" "length m' \<le> length m" "set m' \<subseteq> set m"
    "map_of m' k = Some r \<Longrightarrow> map_of m k = Some r"
    "map_of m k = Some r \<Longrightarrow> clk 2 < tr_expires_at r \<Longrightarrow> map_of m' k = Some r"
  using assms map_of_filter_snd [OF assms(1), of "\<lambda>r. clk 2 < tr_expires_at r" k]
  by (auto simp: maybe_evict_map_def distinct_map_filter length_filter_le
      split: if_splits option.splits)

lemma table_rel_evict:
  assumes "table_rel t m sp" and "distinct (map fst m)" and "maybe_evict_map (m, e) clk = (m', e')" and "clk 2 \<le> t"
  shows "table_rel t m' sp"
  using assms(1,4) evict_lookup(4,5) [OF assms(2,3)] unfolding table_rel_def
  by (meson le_less_trans)

lemma table_ok_evict:
  assumes "table_ok cap m" and "maybe_evict_map (m, e) clk = (m', e')"
  shows "table_ok cap m'"
  using assms(1) evict_lookup(1-3) [OF _ assms(2)] by (fastforce simp: table_ok_def list_all_iff)

lemma table_ok_update:
  assumes "table_ok cap m" and "validate_id k" and "length m < cap \<or> map_of m k \<noteq> None"
  shows "table_ok cap (AList.update k r m)"
proof -
  have keys: "map fst (AList.update k r m) = (if k \<in> set (map fst m) then map fst m else map fst m @ [k])"
    by (rule AList.update_keys)
  have "length (AList.update k r m) = length (map fst (AList.update k r m))" by simp
  also have "\<dots> = (if k \<in> set (map fst m) then length m else Suc (length m))" unfolding keys by simp
  also have "\<dots> \<le> cap" using assms by (auto simp: table_ok_def map_of_eq_None_iff)
  finally have "length (AList.update k r m) \<le> cap" .
  moreover have "distinct (map fst (AList.update k r m))"
    using assms(1) by (simp only: table_ok_def distinct_update)
  moreover have "list_all validate_id (map fst (AList.update k r m))"
    using assms(1,2) by (cases "k \<in> set (map fst m)") (simp_all only: keys table_ok_def if_True if_False list_all_append list.pred_inject simp_thms)
  ultimately show ?thesis by (simp only: table_ok_def simp_thms)
qed

lemma table_ok_delete: "table_ok cap m \<Longrightarrow> table_ok cap (AList.delete k m)"
  unfolding table_ok_def by (auto simp: AList.delete_eq distinct_map_filter list_all_iff
      intro: le_trans [OF length_filter_le])

lemma table_rel_update: "table_rel t m sp \<Longrightarrow> table_rel t (AList.update k r m) (sp(k \<mapsto> r))"
  by (rule table_relI) (auto simp: update_conv' dest: table_relD1 table_relD2 split: if_splits)

lemma table_rel_delete: "table_rel t m sp \<Longrightarrow> table_rel t (AList.delete k m) (sp(k := None))"
  by (rule table_relI) (auto simp: delete_conv' dest: table_relD1 table_relD2 split: if_splits)

lemma table_rel_recheck:
  assumes "table_rel t m sp" and "now \<le> t"
  shows "table_rel t (route_recheck m k now) sp"
proof (cases "\<exists>r. map_of m k = Some r \<and> tr_expires_at r \<le> now")
  case True
  then obtain r where r: "map_of m k = Some r" "tr_expires_at r \<le> now" by blast
  then have sp: "sp k = Some r" using table_relD1 [OF assms(1)] by blast
  have m: "map_of (route_recheck m k now) = (map_of m)(k := None)"
    using r by (simp add: route_recheck_def delete_conv')
  show ?thesis
  proof (rule table_relI)
    fix j q
    assume "map_of (route_recheck m k now) j = Some q"
    then show "sp j = Some q" using table_relD1 [OF assms(1)] unfolding m by (simp split: if_splits)
  next
    fix j q
    assume q: "sp j = Some q" "t < tr_expires_at q"
    then have "j \<noteq> k" using sp r(2) assms(2) by auto
    with table_relD2 [OF assms(1) q] show "map_of (route_recheck m k now) j = Some q" unfolding m by simp
  qed
next
  case False
  then have "route_recheck m k now = m" by (auto simp: route_recheck_def split: option.split)
  with assms show ?thesis by simp
qed

lemma table_step_ok: "table_ok cap (fst ml) \<Longrightarrow> table_ok cap (fst (table_step cap x ml))"
proof (cases x)
  case (Put_Route k c ttl clk)
  assume ok: "table_ok cap (fst ml)"
  obtain m' e' where ev: "maybe_evict_map ml clk = (m', e')" by force
  then have "table_ok cap m'" using ok table_ok_evict by (metis prod.collapse)
  with ok ev Put_Route show ?thesis
    by (auto simp: route_put_def intro: table_ok_update split: option.split)
qed (auto simp: route_recheck_def table_ok_delete split: option.split)

text \<open>
  One step keeps the relation to the specification, as long as the keys in use leave room: then a
  new key is never refused.
\<close>

lemma table_step_rel:
  assumes "table_ok cap (fst ml)" and "table_rel t (fst ml) sp" and "read_before t x"
    and "fst ` set (fst ml) \<subseteq> K" and "set (put_keys x) \<inter> {k. validate_id k} \<subseteq> K"
    and "finite K" and "card K \<le> cap"
  shows "table_rel t (fst (table_step cap x ml)) (last_write x sp) \<and> fst ` set (fst (table_step cap x ml)) \<subseteq> K"
proof (cases x)
  case (Put_Route k c ttl clk)
  obtain m e where ml: "ml = (m, e)" by force
  obtain m' e' where ev: "maybe_evict_map (m, e) clk = (m', e')" by force
  have dist: "distinct (map fst m)" using assms(1) ml by (simp add: table_ok_def)
  have "clk 2 \<le> t" using assms(3) Put_Route by simp
  then have m': "table_rel t m' sp" using table_rel_evict [OF _ dist ev] assms(2) ml by simp
  have m'2: "distinct (map fst m')" by (rule evict_lookup(1) [OF dist ev])
  have m'3: "fst ` set m' \<subseteq> K" using evict_lookup(3) [OF dist ev] assms(4) ml by (metis fst_conv image_mono subset_trans)
  have room: "length m' < cap" if "validate_id k" "map_of m' k = None"
  proof -
    have "fst ` set m' \<subset> K" using m'3 that assms(5) Put_Route by (auto simp: map_of_eq_None_iff)
    from psubset_card_mono [OF assms(6) this] have "card (fst ` set m') < cap" using assms(7) by linarith
    with m'2 show ?thesis using distinct_card [OF m'2] by simp
  qed
  show ?thesis
  proof (cases "validate_id k \<and> (\<exists>r. try_route c ttl (clk 0) = Some r)")
    case True
    then obtain r where r: "validate_id k" "try_route c ttl (clk 0) = Some r" by blast
    then have "route_put cap ml k c ttl clk = (AList.update k r m', e')"
      using room by (auto simp: route_put_def ml ev)
    moreover have "fst ` set (AList.update k r m') \<subseteq> K"
      using m'3 assms(5) r Put_Route by (simp add: dom_update)
    ultimately show ?thesis using table_rel_update [OF m'] r Put_Route by simp
  next
    case False
    with assms ml Put_Route show ?thesis by (auto simp: route_put_def)
  qed
next
  case (Remove_Route k)
  then show ?thesis using table_rel_delete [OF assms(2), of k] assms(4)
    by (auto simp: AList.delete_eq)
next
  case (Recheck_Route k now)
  then show ?thesis using table_rel_recheck [OF assms(2), of now k] assms(3,4)
    by (auto simp: route_recheck_def AList.delete_eq split: option.split)
qed

lemma route_read_spec:
  assumes "table_rel t m sp"
  shows "fst (route_read m k t) = route_at sp k t"
proof (cases "sp k")
  case None
  then have "map_of m k = None" using table_relD1 [OF assms, of k] by (metis option.exhaust option.simps(3))
  with None show ?thesis by (simp add: route_read_def route_at_def)
next
  case (Some r)
  show ?thesis
  proof (cases "t < tr_expires_at r")
    case True
    with table_relD2 [OF assms Some] Some show ?thesis by (simp add: route_read_def route_at_def)
  next
    case False
    moreover have "map_of m k = None \<or> map_of m k = Some r"
      using table_relD1 [OF assms, of k] Some by (cases "map_of m k") auto
    ultimately show ?thesis using Some by (auto simp: route_read_def route_at_def)
  qed
qed

section \<open>Runs of the store\<close>

text \<open>
  The critical sections of the store's operations. A lookup contributes its second section only
  (\<open>Recheck\<close>): the first one does not write, and others may run between the two.
\<close>

datatype route_op =
    Put_Task string string nat clock
  | Remove_Task string
  | Recheck_Task string nat
  | Put_Context string string nat clock
  | Recheck_Context string nat

fun route_op_step :: "route_op \<Rightarrow> route_store \<Rightarrow> route_store" where
  "route_op_step (Put_Task k c ttl clk) s = put s k c ttl clk"
| "route_op_step (Remove_Task k) s = route_remove s k"
| "route_op_step (Recheck_Task k now) s = s\<lparr>rs_tasks := route_recheck (rs_tasks s) k now\<rparr>"
| "route_op_step (Put_Context k c ttl clk) s = put_context s k c ttl clk"
| "route_op_step (Recheck_Context k now) s = s\<lparr>rs_contexts := route_recheck (rs_contexts s) k now\<rparr>"

fun task_ops :: "route_op \<Rightarrow> table_op list" where
  "task_ops (Put_Task k c ttl clk) = [Put_Route k c ttl clk]"
| "task_ops (Remove_Task k) = [Remove_Route k]"
| "task_ops (Recheck_Task k now) = [Recheck_Route k now]"
| "task_ops _ = []"

fun context_ops :: "route_op \<Rightarrow> table_op list" where
  "context_ops (Put_Context k c ttl clk) = [Put_Route k c ttl clk]"
| "context_ops (Recheck_Context k now) = [Recheck_Route k now]"
| "context_ops _ = []"

definition route_run :: "route_op list \<Rightarrow> route_store \<Rightarrow> route_store" where
  "route_run ops = fold route_op_step ops"

lemma route_op_tasks:
  "(rs_tasks (route_op_step x s), rs_last_task_eviction (route_op_step x s)) =
     fold (table_step MAX_TASK_ROUTES) (task_ops x) (rs_tasks s, rs_last_task_eviction s)"
  by (cases x) (auto simp: put_def put_context_def route_remove_def Let_def split: prod.split)

lemma route_op_contexts:
  "(rs_contexts (route_op_step x s), rs_last_context_eviction (route_op_step x s)) =
     fold (table_step MAX_CONTEXT_ROUTES) (context_ops x) (rs_contexts s, rs_last_context_eviction s)"
  by (cases x) (auto simp: put_def put_context_def route_remove_def Let_def split: prod.split)

lemma route_run_tasks:
  "(rs_tasks (route_run ops s), rs_last_task_eviction (route_run ops s)) =
     fold (table_step MAX_TASK_ROUTES) (concat (map task_ops ops)) (rs_tasks s, rs_last_task_eviction s)"
  unfolding route_run_def by (induction ops arbitrary: s) (simp_all flip: route_op_tasks)

lemma route_run_contexts:
  "(rs_contexts (route_run ops s), rs_last_context_eviction (route_run ops s)) =
     fold (table_step MAX_CONTEXT_ROUTES) (concat (map context_ops ops)) (rs_contexts s, rs_last_context_eviction s)"
  unfolding route_run_def by (induction ops arbitrary: s) (simp_all flip: route_op_contexts)

lemma table_run_ok: "table_ok cap (fst ml) \<Longrightarrow> table_ok cap (fst (fold (table_step cap) xs ml))"
  by (induction xs arbitrary: ml) (simp_all add: table_step_ok)

lemma table_run_rel:
  assumes "table_ok cap (fst ml)" and "table_rel t (fst ml) sp" and "list_all (read_before t) xs"
    and "fst ` set (fst ml) \<subseteq> K" and "set (concat (map put_keys xs)) \<inter> {k. validate_id k} \<subseteq> K"
    and "finite K" and "card K \<le> cap"
  shows "table_rel t (fst (fold (table_step cap) xs ml)) (fold last_write xs sp)"
  using assms(1-5)
proof (induction xs arbitrary: ml sp)
  case (Cons x xs)
  have "set (put_keys x) \<inter> {k. validate_id k} \<subseteq> K" using Cons.prems(5) by auto
  from table_step_rel [OF Cons.prems(1,2) _ Cons.prems(4) this assms(6,7)] Cons.prems(3)
  have "table_rel t (fst (table_step cap x ml)) (last_write x sp)" "fst ` set (fst (table_step cap x ml)) \<subseteq> K"
    by simp_all
  with Cons.IH [OF table_step_ok [OF Cons.prems(1)]] Cons.prems(3,5) show ?case by auto
qed simp

section \<open>Properties\<close>

definition task_writes :: "route_op list \<Rightarrow> table_op list" where
  "task_writes ops = concat (map task_ops ops)"

definition context_writes :: "route_op list \<Rightarrow> table_op list" where
  "context_writes ops = concat (map context_ops ops)"

text \<open>The valid identifiers a run puts into a table, each once.\<close>

definition keys_put :: "table_op list \<Rightarrow> string list" where
  "keys_put xs = remdups (filter validate_id (concat (map put_keys xs)))"

lemma table_run_lookup:
  assumes "list_all (read_before t) xs" and "length (keys_put xs) \<le> cap"
  shows "fst (route_read (fst (fold (table_step cap) xs ([], e))) k t) = route_at (fold last_write xs Map.empty) k t"
proof (rule route_read_spec, rule table_run_rel [where K = "set (keys_put xs)"])
  show "card (set (keys_put xs)) \<le> cap" using assms(2) card_length le_trans by blast
qed (use assms in \<open>auto simp: keys_put_def table_ok_def table_rel_def\<close>)

lemma get_by_task_id_read: "fst (get_by_task_id s k clk) = fst (route_read (rs_tasks s) k (clk 0))"
  by (simp add: get_by_task_id_def split: prod.split)

lemma get_by_context_id_read: "fst (get_by_context_id s k clk) = fst (route_read (rs_contexts s) k (clk 0))"
  by (simp add: get_by_context_id_def split: prod.split)

lemma run_new_tasks:
  "rs_tasks (route_run ops (route_store_new c)) =
     fst (fold (table_step MAX_TASK_ROUTES) (task_writes ops) ([], c 0))"
  using route_run_tasks [of ops "route_store_new c"]
  by (simp add: route_store_new_def task_writes_def) (metis fst_conv)

lemma run_new_contexts:
  "rs_contexts (route_run ops (route_store_new c)) =
     fst (fold (table_step MAX_CONTEXT_ROUTES) (context_writes ops) ([], c 1))"
  using route_run_contexts [of ops "route_store_new c"]
  by (simp add: route_store_new_def context_writes_def) (metis fst_conv)

text \<open>
  C12. Routes are last-write-wins until they expire. Run any interleaving of the critical sections
  of puts, removals and lookups against a new store, with clocks that read at most \<open>t\<close>, and
  with no more identifiers than a table has room for. Then a lookup at \<open>t\<close> answers what the last
  write of that identifier says, if it has not expired: sweeps and the second half of concurrent
  lookups never lose a live route or bring back an old one, and tasks and contexts do not mix.
\<close>

theorem lookups_see_last_write:
  assumes "list_all (read_before t) (task_writes ops)" and "list_all (read_before t) (context_writes ops)"
    and "length (keys_put (task_writes ops)) \<le> MAX_TASK_ROUTES"
    and "length (keys_put (context_writes ops)) \<le> MAX_CONTEXT_ROUTES"
    and "clk 0 = t"
  shows "fst (get_by_task_id (route_run ops (route_store_new c)) k clk) =
      route_at (fold last_write (task_writes ops) Map.empty) k t \<and>
    fst (get_by_context_id (route_run ops (route_store_new c)) k clk) =
      route_at (fold last_write (context_writes ops) Map.empty) k t"
  using table_run_lookup [OF assms(1,3), of "c 0" k] table_run_lookup [OF assms(2,4), of "c 1" k] assms(5)
  by (simp_all add: get_by_task_id_read get_by_context_id_read run_new_tasks run_new_contexts)

definition demo_route_ops :: "route_op list" where
  "demo_route_ops =
     [Put_Task ''t1'' ''alpha'' 50 (\<lambda>_. 10), Put_Context ''t1'' ''beta'' 20 (\<lambda>_. 11),
      Put_Task ''t2'' ''alpha'' 5 (\<lambda>_. 12), Put_Task ''t1'' ''gamma'' 60 (\<lambda>_. 20),
      Recheck_Task ''t1'' 30, Recheck_Task ''t2'' 30, Remove_Task ''t3'']"

theorem lookups_see_last_write_witness:
  "fst (get_by_task_id (route_run demo_route_ops (route_store_new (\<lambda>_. 0))) ''t1'' (\<lambda>_. 40)) = Some ''gamma'' \<and>
   fst (get_by_context_id (route_run demo_route_ops (route_store_new (\<lambda>_. 0))) ''t1'' (\<lambda>_. 40)) = None"
proof -
  have h: "list_all (read_before 40) (task_writes demo_route_ops)"
    "list_all (read_before 40) (context_writes demo_route_ops)"
    "length (keys_put (task_writes demo_route_ops)) \<le> MAX_TASK_ROUTES"
    "length (keys_put (context_writes demo_route_ops)) \<le> MAX_CONTEXT_ROUTES"
    by code_simp+
  moreover have "route_at (fold last_write (task_writes demo_route_ops) Map.empty) ''t1'' 40 = Some ''gamma''"
    "route_at (fold last_write (context_writes demo_route_ops) Map.empty) ''t1'' 40 = None"
    by code_simp+
  ultimately show ?thesis
    using lookups_see_last_write [OF h, of "\<lambda>_. 40" "\<lambda>_. 0" "''t1''"] by simp
qed

text \<open>
  Bounded route tables. Whatever is put, the two tables never hold more than 50,000 entries
  each, hold every identifier once, and hold only identifiers that are non-empty, at most 256
  bytes long and free of control characters.
\<close>

theorem route_tables_bounded:
  "table_ok 50000 (rs_tasks (route_run ops (route_store_new c))) \<and>
   table_ok 50000 (rs_contexts (route_run ops (route_store_new c)))"
proof -
  have "table_ok MAX_TASK_ROUTES (rs_tasks (route_run ops (route_store_new c)))"
    "table_ok MAX_CONTEXT_ROUTES (rs_contexts (route_run ops (route_store_new c)))"
    unfolding run_new_tasks run_new_contexts by (rule table_run_ok, simp add: table_ok_def)+
  then show ?thesis by (simp add: MAX_TASK_ROUTES_def MAX_CONTEXT_ROUTES_def)
qed

end
