(* ===== verification/A2a_Capture.thy ===== *)
theory A2a_Capture
  imports A2a_Sse A2a_Routes
begin

text \<open>
  The response side of the agent-to-agent filter, \<^verbatim>\<open>filters/src/agentic/a2a/mod.rs\<close>: it reads task and
  context ownership off responses as they stream by. The filter keeps nothing of its own between
  callbacks; its working state lives in the string map \<^verbatim>\<open>filter_metadata\<close> of the request, bytes in
  hexadecimal, flags as \<^verbatim>\<open>true\<close> and \<^verbatim>\<open>false\<close>, counters in decimal. This theory holds the encodings, the
  bracket scanner that tells when a JSON body may be complete, and every step of the capture.
  \<^verbatim>\<open>serde_json\<close> is a parameter (the record \<open>serde\<close>).
\<close>

section \<open>Encodings\<close>

text \<open>The keys of the working state.\<close>

definition key_json_stack :: string where "key_json_stack = ''a2a.response.json_stack''"
definition key_json_started :: string where "key_json_started = ''a2a.response.json_started''"
definition key_json_in_string :: string where "key_json_in_string = ''a2a.response.json_in_string''"
definition key_json_escaped :: string where "key_json_escaped = ''a2a.response.json_escaped''"
definition key_json_invalid :: string where "key_json_invalid = ''a2a.response.json_invalid''"
definition key_capture_enabled :: string where "key_capture_enabled = ''a2a.response.capture_enabled''"
definition key_buffer_hex :: string where "key_buffer_hex = ''a2a.response.buffer_hex''"
definition key_buffer_bytes :: string where "key_buffer_bytes = ''a2a.response.buffer_bytes''"
definition key_cluster :: string where "key_cluster = ''a2a.response.cluster''"
definition key_tentative_json :: string where "key_tentative_json = ''a2a.response.tentative_json''"
definition key_sse_line_buf_hex :: string where "key_sse_line_buf_hex = ''a2a.response.sse_line_buf_hex''"
definition key_sse_data_hex :: string where "key_sse_data_hex = ''a2a.response.sse_data_hex''"
definition key_sse_has_data :: string where "key_sse_has_data = ''a2a.response.sse_has_data''"
definition key_sse_prev_cr :: string where "key_sse_prev_cr = ''a2a.response.sse_prev_cr''"
definition key_sse_scratch_bytes :: string where "key_sse_scratch_bytes = ''a2a.response.sse_scratch_bytes''"
definition key_sse_skip :: string where "key_sse_skip = ''a2a.response.sse_skip''"
definition key_sse_dropped_tail :: string where "key_sse_dropped_tail = ''a2a.response.sse_dropped_tail''"
definition key_sse_capture_enabled :: string where "key_sse_capture_enabled = ''a2a.response.sse_capture_enabled''"
definition key_is_sse :: string where "key_is_sse = ''a2a.response.is_sse''"

lemma keys_distinct:
  "distinct
  [key_json_stack, key_json_started, key_json_in_string, key_json_escaped,
   key_json_invalid, key_capture_enabled, key_buffer_hex, key_buffer_bytes,
   key_cluster, key_tentative_json, key_sse_line_buf_hex, key_sse_data_hex,
   key_sse_has_data, key_sse_prev_cr, key_sse_scratch_bytes, key_sse_skip,
   key_sse_dropped_tail, key_sse_capture_enabled, key_is_sse]"
  "distinct
  [key_is_sse, key_sse_capture_enabled, key_sse_dropped_tail, key_sse_skip, key_sse_scratch_bytes,
   key_sse_prev_cr, key_sse_has_data, key_sse_data_hex, key_sse_line_buf_hex,
   key_tentative_json, key_cluster, key_buffer_bytes, key_buffer_hex,
   key_capture_enabled, key_json_invalid, key_json_escaped, key_json_in_string,
   key_json_started, key_json_stack]"
  by code_simp+

lemmas key_neq [simp] = keys_distinct [unfolded distinct.simps list.set insert_iff empty_iff de_Morgan_disj simp_thms]

definition hex_digit :: "byte \<Rightarrow> byte option" where
  "hex_digit b =
     (if 0x30 \<le> b \<and> b \<le> 0x39 then Some (b - 0x30)
      else if 0x61 \<le> b \<and> b \<le> 0x66 then Some (b - 0x61 + 10)
      else None)"

fun decode_pairs :: "bytes \<Rightarrow> bytes option" where
  "decode_pairs (x # y # rest) =
     (case (hex_digit x, hex_digit y) of
        (Some hi, Some lo) \<Rightarrow> map_option ((#) (or (push_bit 4 hi) lo)) (decode_pairs rest)
      | _ \<Rightarrow> None)"
| "decode_pairs _ = Some []"

definition decode_hex :: "string \<Rightarrow> bytes option" where
  "decode_hex hex = (if length hex mod 2 \<noteq> 0 then None else decode_pairs (ascii hex))"

text \<open>\<^verbatim>\<open>str::parse::<usize>\<close>: an optional plus sign, then digits, without overflow.\<close>

fun usize_digits :: "nat \<Rightarrow> string \<Rightarrow> nat option" where
  "usize_digits acc [] = Some acc"
| "usize_digits acc (c # cs) =
     (if 48 \<le> (of_char c :: nat) \<and> (of_char c :: nat) \<le> 57 \<and> acc * 10 + (of_char c - 48) \<le> u64_max
      then usize_digits (acc * 10 + (of_char c - 48)) cs else None)"

definition parse_usize :: "string \<Rightarrow> nat option" where
  "parse_usize s =
     (if s = [] \<or> s = ''+'' then None
      else usize_digits 0 (if hd s = CHR ''+'' then tl s else s))"

definition show_bool :: "bool \<Rightarrow> string" where
  "show_bool b = (if b then ''true'' else ''false'')"

section \<open>The bracket scanner\<close>

record json_balance =
  jb_stack :: bytes
  jb_started :: bool
  jb_in_string :: bool
  jb_escaped :: bool
  jb_invalid :: bool

definition json_balance_default :: json_balance where
  "json_balance_default =
     \<lparr>jb_stack = [], jb_started = False, jb_in_string = False, jb_escaped = False, jb_invalid = False\<rparr>"

definition is_complete :: "json_balance \<Rightarrow> bool" where
  "is_complete s \<longleftrightarrow> jb_started s \<and> \<not> jb_invalid s \<and> jb_stack s = []"

definition is_done :: "json_balance \<Rightarrow> bool" where
  "is_done s \<longleftrightarrow> is_complete s \<or> jb_invalid s"

text \<open>One byte of the loop, and whether the loop returns after it.\<close>

definition balance_byte :: "json_balance \<Rightarrow> byte \<Rightarrow> json_balance \<times> bool" where
  "balance_byte s b =
     (if jb_escaped s then (s\<lparr>jb_escaped := False\<rparr>, False)
      else if jb_in_string s then
        (if b = 0x5C then (s\<lparr>jb_escaped := True\<rparr>, False)
         else if b = 0x22 then (s\<lparr>jb_in_string := False\<rparr>, False)
         else (s, False))
      else if b = 0x22 then (s\<lparr>jb_in_string := True\<rparr>, False)
      else if b = 0x7B then (s\<lparr>jb_started := True, jb_stack := jb_stack s @ [0x7D]\<rparr>, False)
      else if b = 0x5B then (s\<lparr>jb_started := True, jb_stack := jb_stack s @ [0x5D]\<rparr>, False)
      else if b = 0x7D \<or> b = 0x5D then
        (let s' = s\<lparr>jb_stack := butlast (jb_stack s)\<rparr>
         in if jb_stack s \<noteq> [] \<and> last (jb_stack s) = b then (s', is_complete s')
            else (s'\<lparr>jb_invalid := True\<rparr>, True))
      else (s, False))"

fun balance_loop :: "json_balance \<Rightarrow> bytes \<Rightarrow> json_balance" where
  "balance_loop s [] = s"
| "balance_loop s (b # rest) =
     (case balance_byte s b of (s', stop) \<Rightarrow> if stop then s' else balance_loop s' rest)"

definition scan_json_balance :: "json_balance \<Rightarrow> bytes \<Rightarrow> json_balance" where
  "scan_json_balance s chunk = (if is_done s then s else balance_loop s chunk)"

definition load_json_balance_state :: "metadata \<Rightarrow> json_balance" where
  "load_json_balance_state m =
     \<lparr>jb_stack = (case m key_json_stack of None \<Rightarrow> [] | Some v \<Rightarrow> ascii v),
      jb_started = (m key_json_started = Some ''true''),
      jb_in_string = (m key_json_in_string = Some ''true''),
      jb_escaped = (m key_json_escaped = Some ''true''),
      jb_invalid = (m key_json_invalid = Some ''true'')\<rparr>"

definition save_json_balance_state :: "metadata \<Rightarrow> json_balance \<Rightarrow> metadata" where
  "save_json_balance_state m s =
     m(key_json_stack \<mapsto> (case from_utf8 (jb_stack s) of None \<Rightarrow> [] | Some v \<Rightarrow> map (\<lambda>b. char_of (unat b)) v),
       key_json_started \<mapsto> show_bool (jb_started s),
       key_json_in_string \<mapsto> show_bool (jb_in_string s),
       key_json_escaped \<mapsto> show_bool (jb_escaped s),
       key_json_invalid \<mapsto> show_bool (jb_invalid s))"

section \<open>Capture from a whole body\<close>

record serde =
  sj_from_slice :: "bytes \<Rightarrow> json option"
  sj_from_str :: "string \<Rightarrow> json option"
  sj_to_string :: "json \<Rightarrow> string option"

definition capture_keys :: "string list" where
  "capture_keys =
     [key_capture_enabled, key_buffer_hex, key_buffer_bytes,
      key_cluster, key_json_stack, key_json_started,
      key_json_in_string, key_json_escaped, key_json_invalid,
      key_tentative_json]"

definition clear_capture_metadata :: "metadata \<Rightarrow> metadata" where
  "clear_capture_metadata m = fold (\<lambda>k m. m(k := None)) capture_keys m"

text \<open>The metadata, and whether the chunk was within the limit.\<close>

definition accumulate_response_hex :: "metadata \<Rightarrow> bytes \<Rightarrow> nat \<Rightarrow> metadata \<times> bool" where
  "accumulate_response_hex m chunk max_bytes =
     (let existing_bytes =
            (case Option.bind (m key_buffer_bytes) parse_usize of None \<Rightarrow> 0 | Some n \<Rightarrow> n)
      in if max_bytes < sat_add existing_bytes (length chunk) then (clear_capture_metadata m, False)
         else
           (let hex_buf = (case m key_buffer_hex of None \<Rightarrow> [] | Some h \<Rightarrow> h)
            in (m(key_buffer_hex \<mapsto> hex_buf @ encode_hex chunk,
                  key_buffer_bytes \<mapsto> show_nat (existing_bytes + length chunk)), True)))"

definition parse_buffer :: "serde \<Rightarrow> metadata \<Rightarrow> json option" where
  "parse_buffer sj m =
     Option.bind (Option.bind (m key_buffer_hex) decode_hex) (sj_from_slice sj)"

type_synonym capture_state = "metadata \<times> route_store"

definition try_capture_from_buffer ::
  "serde \<Rightarrow> task_routing_config \<Rightarrow> clock \<Rightarrow> capture_state \<Rightarrow> capture_state" where
  "try_capture_from_buffer sj config clk ms =
     (case ms of (m, s) \<Rightarrow>
       (clear_capture_metadata m,
        case (parse_buffer sj m, m key_cluster) of
          (Some v, Some cluster) \<Rightarrow> store_task_route v cluster config clk s
        | _ \<Rightarrow> s))"

definition parse_to_tentative :: "serde \<Rightarrow> metadata \<Rightarrow> metadata" where
  "parse_to_tentative sj m =
     (case parse_buffer sj m of
        Some v \<Rightarrow>
          (case sj_to_string sj v of
             Some json_str \<Rightarrow> m(key_tentative_json \<mapsto> json_str)
           | None \<Rightarrow> clear_capture_metadata m)
      | None \<Rightarrow> clear_capture_metadata m)"

definition commit_tentative_capture ::
  "serde \<Rightarrow> task_routing_config \<Rightarrow> clock \<Rightarrow> metadata \<Rightarrow> route_store \<Rightarrow> route_store" where
  "commit_tentative_capture sj config clk m s =
     (case m key_tentative_json of
        None \<Rightarrow> s
      | Some json_str \<Rightarrow>
          (case sj_from_str sj json_str of
             None \<Rightarrow> s
           | Some v \<Rightarrow>
               (case m key_cluster of
                  None \<Rightarrow> s
                | Some cluster \<Rightarrow> store_task_route v cluster config clk s)))"

definition is_json_space :: "byte \<Rightarrow> bool" where
  "is_json_space b \<longleftrightarrow> b = 0x20 \<or> b = 0x09 \<or> b = 0x0A \<or> b = 0x0D"

text \<open>One \<^verbatim>\<open>on_response_body\<close> call: the chunk if any, whether the stream ends, and the clock.\<close>

type_synonym callback = "bytes option \<times> bool \<times> clock"

definition handle_pending_tentative ::
  "serde \<Rightarrow> task_routing_config \<Rightarrow> callback \<Rightarrow> capture_state \<Rightarrow> bool \<times> capture_state" where
  "handle_pending_tentative sj config cb ms =
     (case cb of (body, end_of_stream, clk) \<Rightarrow> (case ms of (m, s) \<Rightarrow>
       (if m key_tentative_json = None then (False, ms)
        else
          (let has_new_content = (case body of None \<Rightarrow> False | Some b \<Rightarrow> list_ex (\<lambda>x. \<not> is_json_space x) b)
           in if has_new_content then (True, clear_capture_metadata m, s)
              else if end_of_stream then
                (True, clear_capture_metadata m, commit_tentative_capture sj config clk m s)
              else (True, ms)))))"

text \<open>The part of \<^verbatim>\<open>handle_non_streaming_capture\<close> after the chunk is in the buffer.\<close>

definition capture_scan :: "serde \<Rightarrow> task_routing_config \<Rightarrow> callback \<Rightarrow> capture_state \<Rightarrow> capture_state" where
  "capture_scan sj config cb ms =
     (case cb of (body, end_of_stream, clk) \<Rightarrow> (case ms of (m, s) \<Rightarrow>
       (let balance = (case body of
                         None \<Rightarrow> load_json_balance_state m
                       | Some chunk \<Rightarrow> scan_json_balance (load_json_balance_state m) chunk);
            m' = save_json_balance_state m balance
        in if jb_invalid balance then (clear_capture_metadata m', s)
           else if is_complete balance \<and> \<not> end_of_stream then (parse_to_tentative sj m', s)
           else if is_complete balance \<or> end_of_stream then try_capture_from_buffer sj config clk (m', s)
           else (m', s))))"

definition handle_non_streaming_capture ::
  "serde \<Rightarrow> task_routing_config \<Rightarrow> callback \<Rightarrow> capture_state \<Rightarrow> capture_state" where
  "handle_non_streaming_capture sj config cb ms =
     (case handle_pending_tentative sj config cb ms of
        (True, ms') \<Rightarrow> ms'
      | (False, m, s) \<Rightarrow>
          (case fst cb of
             None \<Rightarrow> capture_scan sj config cb (m, s)
           | Some chunk \<Rightarrow>
               (case accumulate_response_hex m chunk (trc_max_response_body_bytes config) of
                  (m', True) \<Rightarrow> capture_scan sj config cb (m', s)
                | (m', False) \<Rightarrow> (m', s))))"

section \<open>Capture from a stream of events\<close>

definition load_sse_scan_state :: "metadata \<Rightarrow> sse_scan_state" where
  "load_sse_scan_state m =
     \<lparr>ss_line_buf =
        (case Option.bind (m key_sse_line_buf_hex) decode_hex of None \<Rightarrow> [] | Some b \<Rightarrow> b),
      ss_data_buf =
        (case Option.bind (m key_sse_data_hex) decode_hex of None \<Rightarrow> [] | Some b \<Rightarrow> b),
      ss_has_data = (m key_sse_has_data = Some ''true''),
      ss_prev_cr = (m key_sse_prev_cr = Some ''true''),
      ss_scratch_bytes =
        (case Option.bind (m key_sse_scratch_bytes) parse_usize of None \<Rightarrow> 0 | Some n \<Rightarrow> n),
      ss_skip = skip_from_metadata_str (m key_sse_skip),
      ss_tail = tail_from_metadata_str (m key_sse_dropped_tail)\<rparr>"

definition set_hex_metadata :: "metadata \<Rightarrow> string \<Rightarrow> bytes \<Rightarrow> metadata" where
  "set_hex_metadata m key data = (if data = [] then m(key := None) else m(key \<mapsto> encode_hex data))"

definition save_sse_scan_state :: "metadata \<Rightarrow> sse_scan_state \<Rightarrow> metadata" where
  "save_sse_scan_state m s =
     (set_hex_metadata (set_hex_metadata m key_sse_line_buf_hex (ss_line_buf s))
        key_sse_data_hex (ss_data_buf s))
      (key_sse_has_data \<mapsto> show_bool (ss_has_data s),
       key_sse_prev_cr \<mapsto> show_bool (ss_prev_cr s),
       key_sse_scratch_bytes \<mapsto> show_nat (ss_scratch_bytes s),
       key_sse_skip \<mapsto> skip_as_str (ss_skip s),
       key_sse_dropped_tail \<mapsto> tail_as_str (ss_tail s))"

definition sse_capture_keys :: "string list" where
  "sse_capture_keys =
     [key_sse_capture_enabled, key_sse_line_buf_hex, key_sse_data_hex,
      key_sse_has_data, key_sse_prev_cr, key_sse_scratch_bytes,
      key_sse_skip, key_cluster]"

definition clear_sse_capture_metadata :: "metadata \<Rightarrow> metadata" where
  "clear_sse_capture_metadata m = fold (\<lambda>k m. m(k := None)) sse_capture_keys m"

definition try_extract_task_from_sse_payload ::
  "serde \<Rightarrow> task_routing_config \<Rightarrow> metadata \<Rightarrow> bytes \<Rightarrow> clock \<Rightarrow> route_store \<Rightarrow> route_store" where
  "try_extract_task_from_sse_payload sj config m payload clk s =
     (case sj_from_slice sj payload of
        None \<Rightarrow> s
      | Some v \<Rightarrow>
          (case m key_cluster of
             None \<Rightarrow> s
           | Some cluster \<Rightarrow> store_task_route v cluster config clk s))"

text \<open>The payloads of one call in order, each with its eight readings of the clock; the clock is left behind.\<close>

fun extract_payloads ::
  "serde \<Rightarrow> task_routing_config \<Rightarrow> metadata \<Rightarrow> bytes list \<Rightarrow> route_store \<times> clock \<Rightarrow> route_store \<times> clock" where
  "extract_payloads sj config m [] sc = sc"
| "extract_payloads sj config m (p # ps) (s, clk) =
     extract_payloads sj config m ps
       (try_extract_task_from_sse_payload sj config m p clk s, \<lambda>i. clk (i + 8))"

definition process_sse_response_chunk ::
  "serde \<Rightarrow> task_routing_config \<Rightarrow> bytes \<Rightarrow> metadata \<times> route_store \<times> clock \<Rightarrow> metadata \<times> route_store \<times> clock" where
  "process_sse_response_chunk sj config chunk msc =
     (case msc of (m, sc) \<Rightarrow>
       (case scan_sse_chunk (load_sse_scan_state m) chunk (trc_max_response_body_bytes config) of
          (st, payloads, _) \<Rightarrow> (save_sse_scan_state m st, extract_payloads sj config m payloads sc)))"

definition flush_pending_sse_payloads ::
  "serde \<Rightarrow> task_routing_config \<Rightarrow> metadata \<Rightarrow> route_store \<times> clock \<Rightarrow> route_store \<times> clock" where
  "flush_pending_sse_payloads sj config m sc =
     extract_payloads sj config m (snd (flush_sse_state (load_sse_scan_state m) [])) sc"

section \<open>The response hook\<close>

text \<open>\<open>get_metadata\<close> is the accessor of the proxy framework.\<close>

definition on_response_body ::
  "(metadata \<Rightarrow> string \<Rightarrow> string option) \<Rightarrow> serde \<Rightarrow> task_routing_config \<Rightarrow> callback \<Rightarrow> capture_state \<Rightarrow> capture_state" where
  "on_response_body get_metadata sj config cb ms =
     (case cb of (body, end_of_stream, clk) \<Rightarrow> (case ms of (m, s) \<Rightarrow>
       (if get_metadata m key_capture_enabled = Some ''true''
        then handle_non_streaming_capture sj config cb ms
        else if get_metadata m key_sse_capture_enabled = Some ''true'' then
          (let (m1, s1, clk1) = (case body of
                                   None \<Rightarrow> (m, s, clk)
                                 | Some chunk \<Rightarrow> process_sse_response_chunk sj config chunk (m, s, clk))
           in if end_of_stream
              then (clear_sse_capture_metadata m1, fst (flush_pending_sse_payloads sj config m1 (s1, clk1)))
              else (m1, s1))
        else ms)))"

text \<open>
  The response head as far as the filter looks at it: whether the status is a success, and the
  content type if it is a readable header value. Such a value is ASCII, so trimming white space
  trims ASCII white space.
\<close>

record response_head =
  rh_success :: bool
  rh_content_type :: "string option"

definition is_event_stream_content_type :: "string \<Rightarrow> bool" where
  "is_event_stream_content_type content_type =
     eq_ignore_ascii_case (str_trim (takeWhile (\<lambda>c. c \<noteq> CHR '';'') content_type)) ''text/event-stream''"

definition on_response ::
  "(metadata \<Rightarrow> string \<Rightarrow> string option) \<Rightarrow> bool \<Rightarrow> response_head option \<Rightarrow> string option \<Rightarrow> metadata \<Rightarrow> metadata" where
  "on_response get_metadata task_routing head cluster_name m =
     (if \<not> task_routing then m
      else
        (let method_name = get_metadata m ''a2a.method'';
             is_send_message = (method_name = Some ''SendMessage'');
             is_sse_capable = (method_name = Some ''SendStreamingMessage'' \<or> method_name = Some ''SubscribeToTask'')
         in if \<not> is_send_message \<and> \<not> is_sse_capable then m
            else if \<not> (case head of None \<Rightarrow> False | Some h \<Rightarrow> rh_success h) then m
            else
              (let is_sse = (case Option.bind head rh_content_type of
                               None \<Rightarrow> False | Some v \<Rightarrow> is_event_stream_content_type v)
               in if is_sse_capable \<and> is_sse then
                    (case cluster_name of
                       None \<Rightarrow> m
                     | Some cluster \<Rightarrow> m(key_sse_capture_enabled \<mapsto> ''true'', key_cluster \<mapsto> cluster))
                  else if is_sse then m(key_is_sse \<mapsto> ''true'')
                  else
                    (case cluster_name of
                       None \<Rightarrow> m
                     | Some cluster \<Rightarrow> m(key_cluster \<mapsto> cluster, key_capture_enabled \<mapsto> ''true'')))))"

section \<open>Round trips of the encodings\<close>

lemma hex_digit_char:
  assumes "n < 16"
  shows "hex_digit (of_char (hex_char n)) = Some (of_nat n)"
proof -
  have "list_all (\<lambda>n. hex_digit (of_char (hex_char n)) = Some (of_nat n)) [0..<16]" by code_simp
  moreover have "n \<in> set [0..<16]" using assms by simp
  ultimately show ?thesis unfolding list_all_iff by blast
qed

lemma byte_nibbles: "or (push_bit 4 (of_nat (unat b div 16))) (of_nat (unat b mod 16)) = (b :: byte)"
proof -
  have "unat (drop_bit 4 b) = unat b div 16" by (simp add: drop_bit_eq_div unat_div_distrib)
  then have "of_nat (unat b div 16) = drop_bit 4 b" by (metis of_nat_unat ucast_id)
  moreover have "unat (take_bit 4 b) = unat b mod 16" by (simp add: take_bit_eq_mod unat_mod_distrib)
  then have "of_nat (unat b mod 16) = take_bit 4 b" by (metis of_nat_unat ucast_id)
  moreover have "or (push_bit 4 (drop_bit 4 b)) (take_bit 4 b) = b"
    by (rule bit_eqI) (auto simp: bit_simps)
  ultimately show ?thesis by simp
qed

lemma decode_hex_encode [simp]: "decode_hex (encode_hex bs) = Some bs"
proof -
  have "decode_pairs (ascii (encode_hex bs)) = Some bs"
  proof (induction bs)
    case (Cons b bs)
    have "unat b div 16 < 16" "unat b mod 16 < 16" using unsigned_less [of b, where 'a = nat] by auto
    with Cons byte_nibbles [of b] show ?case by (simp add: encode_hex_def hex_byte_def ascii_def hex_digit_char)
  qed (simp add: encode_hex_def ascii_def)
  moreover have "length (encode_hex bs) = 2 * length bs"
    by (induction bs) (simp_all add: encode_hex_def hex_byte_def)
  ultimately show ?thesis by (simp add: decode_hex_def)
qed

lemma encode_hex_append: "encode_hex (xs @ ys) = encode_hex xs @ encode_hex ys"
  by (simp add: encode_hex_def)

lemma usize_digits_show: "n \<le> u64_max \<Longrightarrow> usize_digits 0 (show_nat n @ cs) = usize_digits n cs"
proof (induction n arbitrary: cs rule: show_nat.induct)
  case (1 n)
  have digit: "(of_char (char_of (48 + d) :: char) :: nat) = 48 + d" if "d < 10" for d :: nat
    using that by simp
  show ?case
  proof (cases "n < 10")
    case True
    with 1 digit [OF True] show ?thesis by (subst show_nat.simps) simp
  next
    case False
    have "n div 10 \<le> u64_max" using 1(2) by (meson div_le_dividend le_trans)
    with 1 False have "usize_digits 0 (show_nat n @ cs) = usize_digits (n div 10) (char_of (48 + n mod 10) # cs)"
      by (subst show_nat.simps) simp
    also have "\<dots> = usize_digits n cs" using digit [of "n mod 10"] 1(2) mod_less_divisor [of 10 n]
      by (simp add: mult.commute less_Suc_eq_le [symmetric])
    finally show ?thesis .
  qed
qed

lemma show_nat_hd: "show_nat n \<noteq> [] \<and> hd (show_nat n) \<noteq> CHR ''+''"
proof (induction n rule: show_nat.induct)
  case (1 n)
  have "char_of (48 + d) \<noteq> CHR ''+''" if "d < 10" for d :: nat
  proof
    assume "char_of (48 + d) = CHR ''+''"
    then have "(of_char (char_of (48 + d) :: char) :: nat) = of_char CHR ''+''" by (rule arg_cong)
    with that show False by simp
  qed
  with 1 show ?case by (subst (1 2) show_nat.simps) auto
qed

lemma parse_usize_show [simp]: "n \<le> u64_max \<Longrightarrow> parse_usize (show_nat n) = Some n"
  using usize_digits_show [of n "[]"] show_nat_hd [of n] by (auto simp: parse_usize_def)

lemma show_bool_true [simp]: "show_bool b = ''true'' \<longleftrightarrow> b"
  by (simp add: show_bool_def)

lemma utf8_valid_ascii: "\<forall>b \<in> set bs. b < 0x80 \<Longrightarrow> utf8_valid bs"
proof (induction bs)
  case (Cons b bs)
  then have "utf8_scan b bs = (1, True)" by (simp add: utf8_scan_def utf8_char_width_def)
  with Cons show ?case by (subst utf8_valid.simps) simp
qed simp

lemma ascii_chars: "ascii (map (\<lambda>b. char_of (unat b)) bs) = (bs :: bytes)"
proof -
  have "of_char (char_of (unat b) :: char) = b" for b :: byte
  proof -
    have "unat b < 256" using unsigned_less [of b, where 'a = nat] by simp
    then have "(of_char (char_of (unat b) :: char) :: nat) = unat b" by simp
    then show ?thesis by (metis of_nat_of_char of_nat_unat ucast_id unsigned_word_eqI)
  qed
  then show ?thesis by (simp add: ascii_def map_idI)
qed

lemma load_save_balance:
  assumes "set (jb_stack st) \<subseteq> {0x7D, 0x5D}"
  shows "load_json_balance_state (save_json_balance_state m st) = st"
proof -
  have "from_utf8 (jb_stack st) = Some (jb_stack st)"
    using assms by (auto simp: from_utf8_def intro!: utf8_valid_ascii)
  then show ?thesis
    by (cases st) (simp add: load_json_balance_state_def save_json_balance_state_def ascii_chars)
qed

lemma load_save_sse:
  assumes "ss_scratch_bytes st \<le> u64_max"
  shows "load_sse_scan_state (save_sse_scan_state m st) = st"
  using assms by (cases st) (simp add: load_sse_scan_state_def save_sse_scan_state_def set_hex_metadata_def)

end
