(* ===== verification/A2a_Ownership.thy ===== *)
theory A2a_Ownership
  imports A2a_Capture
begin

text \<open>
  What the response hook of the agent-to-agent filter learns. For a plain JSON response: exactly
  what parsing the whole body gives, whatever the chunks. For an event stream: exactly the payloads
  of the whole stream, in order.
\<close>

section \<open>The bracket scanner over chunks\<close>

lemma balance_byte_done: "\<not> is_done s \<Longrightarrow> balance_byte s b = (s', stop) \<Longrightarrow> is_done s' = stop"
  by (auto simp: balance_byte_def is_done_def is_complete_def Let_def split: if_splits)

lemma balance_loop_append:
  "\<not> is_done s \<Longrightarrow> balance_loop s (xs @ ys) = scan_json_balance (balance_loop s xs) ys"
proof (induction xs arbitrary: s)
  case (Cons b xs)
  obtain s' stop where b: "balance_byte s b = (s', stop)" by force
  with balance_byte_done [OF Cons.prems b] Cons.IH show ?case by (cases stop) (simp_all add: scan_json_balance_def)
qed (simp add: scan_json_balance_def)

lemma scan_balance_append: "scan_json_balance (scan_json_balance s xs) ys = scan_json_balance s (xs @ ys)"
  by (simp add: scan_json_balance_def [of s] balance_loop_append)

definition closers :: "json_balance \<Rightarrow> bool" where
  "closers s \<longleftrightarrow> set (jb_stack s) \<subseteq> {0x7D, 0x5D}"

lemma balance_byte_closers: "closers s \<Longrightarrow> closers (fst (balance_byte s b))"
  unfolding closers_def balance_byte_def by (auto simp: Let_def dest: in_set_butlastD)

lemma balance_loop_stack: "closers s \<Longrightarrow> closers (balance_loop s bs)"
  by (induction bs arbitrary: s) (simp_all add: balance_byte_closers case_prod_beta)

definition scan_bytes :: "bytes \<Rightarrow> json_balance" where
  "scan_bytes bs = scan_json_balance json_balance_default bs"

lemma scan_bytes_append: "scan_json_balance (scan_bytes xs) ys = scan_bytes (xs @ ys)"
  by (simp add: scan_bytes_def scan_balance_append)

lemma scan_bytes_Nil: "scan_bytes [] = json_balance_default"
  by (simp add: scan_bytes_def scan_json_balance_def)

lemma scan_bytes_stack: "set (jb_stack (scan_bytes bs)) \<subseteq> {0x7D, 0x5D}"
proof -
  have "closers json_balance_default" by (simp add: closers_def json_balance_default_def)
  from balance_loop_stack [OF this, of bs] this show ?thesis
    by (simp add: scan_bytes_def scan_json_balance_def closers_def)
qed

section \<open>What is relied on of the JSON library\<close>

text \<open>Equality up to the digits of floating-point numbers, which printing and parsing may lose.\<close>

primrec json_shape :: "json \<Rightarrow> json" where
  "json_shape JNull = JNull"
| "json_shape (JBool b) = JBool b"
| "json_shape (JPosInt n) = JPosInt n"
| "json_shape (JNegInt i) = JNegInt i"
| "json_shape (JFloat x) = JFloat (F_Fin 0)"
| "json_shape (JString s) = JString s"
| "json_shape (JArray xs) = JArray (map json_shape xs)"
| "json_shape (JObject fs) = JObject (map (map_prod id json_shape) fs)"

lemma json_shape_get: "json_get (json_shape v) k = map_option json_shape (json_get v k)"
proof (cases v)
  case (JObject fs)
  have "map_of (map (map_prod id json_shape) fs) k = map_option json_shape (map_of fs k)"
    by (induction fs) auto
  with JObject show ?thesis by (simp add: json_get_def)
qed (simp_all add: json_get_def)

lemma json_shape_str: "json_as_str (json_shape v) = json_as_str v"
  by (cases v) (simp_all add: json_as_str_def)

lemma json_shape_get_str: "json_get_str (json_shape v) k = json_get_str v k"
  by (cases "json_get v k") (simp_all add: json_get_str_def json_shape_get json_shape_str)

lemma extract_shape: "extract_task_route (json_shape v) = extract_task_route v"
proof -
  have "has_terminal_status (json_shape v) = has_terminal_status v" for v
    by (cases "json_get v ''status''"; cases "json_get (the (json_get v ''status'')) ''state''")
      (simp_all add: has_terminal_status_def json_shape_get json_shape_str)
  moreover have "extract_context_id_from_object (json_shape v) = extract_context_id_from_object v" for v
    by (simp add: extract_context_id_from_object_def json_shape_get_str)
  ultimately have "extract_from_task_object (json_shape v) = extract_from_task_object v"
    "extract_from_status_update (json_shape v) = extract_from_status_update v"
    "extract_from_artifact_update (json_shape v) = extract_from_artifact_update v" for v
    by (simp_all add: extract_from_task_object_def extract_from_status_update_def extract_from_artifact_update_def
        json_shape_get_str split: option.split)
  then show ?thesis
    by (auto simp: extract_task_route_def json_shape_get split: option.split)
qed

lemma store_shape: "json_shape v = json_shape w \<Longrightarrow> store_task_route v = store_task_route w"
  using extract_shape [of v] extract_shape [of w] by (simp add: store_task_route_def fun_eq_iff)

text \<open>
  The JSON library: no value in no bytes; white space after a text is immaterial; in a text the
  brackets outside strings match, and only white space follows the bracket that closes the outermost
  one; a parsed value prints, and the print parses to the same value up to the digits of floats.
\<close>

definition json_text_laws :: "serde \<Rightarrow> bool" where
  "json_text_laws sj \<longleftrightarrow>
     sj_from_slice sj [] = None \<and>
     (\<forall>bs ws. list_all is_json_space ws \<longrightarrow> sj_from_slice sj (bs @ ws) = sj_from_slice sj bs) \<and>
     (\<forall>p r. sj_from_slice sj (p @ r) \<noteq> None \<longrightarrow> \<not> jb_invalid (scan_bytes p)) \<and>
     (\<forall>p r. sj_from_slice sj (p @ r) \<noteq> None \<longrightarrow> is_complete (scan_bytes p) \<longrightarrow> list_all is_json_space r) \<and>
     (\<forall>bs v. sj_from_slice sj bs = Some v \<longrightarrow>
        (\<exists>t w. sj_to_string sj v = Some t \<and> sj_from_str sj t = Some w \<and> json_shape w = json_shape v))"

lemma json_text_lawsD:
  assumes "json_text_laws sj"
  shows "sj_from_slice sj [] = None"
    and "list_all is_json_space ws \<Longrightarrow> sj_from_slice sj (bs @ ws) = sj_from_slice sj bs"
    and "jb_invalid (scan_bytes p) \<Longrightarrow> sj_from_slice sj (p @ r) = None"
    and "is_complete (scan_bytes p) \<Longrightarrow> \<not> list_all is_json_space r \<Longrightarrow> sj_from_slice sj (p @ r) = None"
    and "sj_from_slice sj bs = Some v \<Longrightarrow>
      \<exists>t w. sj_to_string sj v = Some t \<and> sj_from_str sj t = Some w \<and> json_shape w = json_shape v"
  using assms unfolding json_text_laws_def by blast+

lemma complete_unparsable:
  assumes "json_text_laws sj" and "is_complete (scan_bytes p)" and "sj_from_slice sj p = None"
  shows "sj_from_slice sj (p @ r) = None"
  using json_text_lawsD(2,4) [OF assms(1)] assms(2,3) by (cases "list_all is_json_space r") simp_all

section \<open>Working state of a capture\<close>

definition route_from :: "serde \<Rightarrow> task_routing_config \<Rightarrow> string \<Rightarrow> bytes \<Rightarrow> clock \<Rightarrow> route_store \<Rightarrow> route_store" where
  "route_from sj config cluster body clk s =
     (case sj_from_slice sj body of None \<Rightarrow> s | Some v \<Rightarrow> store_task_route v cluster config clk s)"

text \<open>Before the end of the body: collecting, holding a parsed value, or given up.\<close>

definition collecting :: "string \<Rightarrow> bytes \<Rightarrow> metadata \<Rightarrow> bool" where
  "collecting cluster p m \<longleftrightarrow>
     m key_capture_enabled = Some ''true'' \<and> m key_cluster = Some cluster \<and> m key_tentative_json = None \<and>
     (m key_buffer_hex = Some (encode_hex p) \<or> p = [] \<and> m key_buffer_hex = None) \<and>
     (m key_buffer_bytes = Some (show_nat (length p)) \<or> p = [] \<and> m key_buffer_bytes = None) \<and>
     load_json_balance_state m = scan_bytes p \<and> \<not> is_done (scan_bytes p)"

definition holding :: "serde \<Rightarrow> string \<Rightarrow> bytes \<Rightarrow> metadata \<Rightarrow> bool" where
  "holding sj cluster p m \<longleftrightarrow>
     m key_capture_enabled = Some ''true'' \<and> m key_cluster = Some cluster \<and>
     (\<exists>q ws v t w. p = q @ ws \<and> list_all is_json_space ws \<and> is_complete (scan_bytes q) \<and>
        sj_from_slice sj q = Some v \<and> m key_tentative_json = Some t \<and> sj_from_str sj t = Some w \<and>
        json_shape w = json_shape v)"

definition given_up :: "serde \<Rightarrow> bytes \<Rightarrow> metadata \<Rightarrow> bool" where
  "given_up sj p m \<longleftrightarrow> m key_capture_enabled = None \<and> (\<forall>r. sj_from_slice sj (p @ r) = None)"

definition capturing :: "serde \<Rightarrow> string \<Rightarrow> bytes \<Rightarrow> metadata \<Rightarrow> bool" where
  "capturing sj cluster p m \<longleftrightarrow>
     (collecting cluster p m \<or> holding sj cluster p m \<or> given_up sj p m) \<and> m key_sse_capture_enabled = None"

lemma clear_keys: "fold (\<lambda>k m. m(k := None)) ks m k = (if k \<in> set ks then None else m k)"
  by (induction ks arbitrary: m) auto

lemma clear_capture_lookup: "clear_capture_metadata m k = (if k \<in> set capture_keys then None else m k)"
  by (simp add: clear_capture_metadata_def clear_keys)

lemma given_up_clear:
  "(\<And>r. sj_from_slice sj (p @ r) = None) \<Longrightarrow> given_up sj p (clear_capture_metadata m)"
  by (simp add: given_up_def clear_capture_lookup capture_keys_def)

lemma sse_key_clear: "clear_capture_metadata m key_sse_capture_enabled = m key_sse_capture_enabled"
  by (simp add: clear_capture_lookup capture_keys_def)

lemma save_balance_other:
  "k \<notin> {key_json_stack, key_json_started, key_json_in_string, key_json_escaped, key_json_invalid} \<Longrightarrow>
   save_json_balance_state m st k = m k"
  by (simp add: save_json_balance_state_def)

abbreviation body_bytes :: "bytes option \<Rightarrow> bytes" where
  "body_bytes body \<equiv> (case body of None \<Rightarrow> [] | Some c \<Rightarrow> c)"

lemma parse_buffer_eq:
  assumes "json_text_laws sj" and "m key_buffer_hex = Some (encode_hex p) \<or> p = [] \<and> m key_buffer_hex = None"
  shows "parse_buffer sj m = sj_from_slice sj p"
  using assms json_text_lawsD(1) [OF assms(1)] by (auto simp: parse_buffer_def)

lemma accumulate_collecting:
  assumes "collecting cluster p m" and "length (p @ c) \<le> mx" and "mx \<le> u64_max"
  shows "accumulate_response_hex m c mx =
    (m(key_buffer_hex \<mapsto> encode_hex (p @ c), key_buffer_bytes \<mapsto> show_nat (length (p @ c))), True)"
proof -
  have "(case Option.bind (m key_buffer_bytes) parse_usize of None \<Rightarrow> 0 | Some n \<Rightarrow> n) = length p"
    using assms by (auto simp: collecting_def)
  moreover have "(case m key_buffer_hex of None \<Rightarrow> [] | Some h \<Rightarrow> h) @ encode_hex c = encode_hex (p @ c)"
    using assms(1) encode_hex_def [of "[]"] by (auto simp: collecting_def encode_hex_append)
  moreover have "\<not> mx < sat_add (length p) (length c)" using assms(2,3) by (simp add: sat_add_def)
  ultimately show ?thesis by (simp add: accumulate_response_hex_def Let_def)
qed

lemma load_balance_buffer:
  "load_json_balance_state (m(key_buffer_hex \<mapsto> x, key_buffer_bytes \<mapsto> y)) = load_json_balance_state m"
  by (simp add: load_json_balance_state_def)

lemma capture_scan_eq:
  assumes "load_json_balance_state m = scan_bytes p"
  shows "capture_scan sj config (body, eos, clk) (m, s) =
    (let q = scan_bytes (p @ body_bytes body); m' = save_json_balance_state m q
     in if jb_invalid q then (clear_capture_metadata m', s)
        else if is_complete q \<and> \<not> eos then (parse_to_tentative sj m', s)
        else if is_complete q \<or> eos then try_capture_from_buffer sj config clk (m', s)
        else (m', s))"
  by (cases body) (simp_all add: capture_scan_def assms scan_bytes_append)

text \<open>The state of a collecting capture after the chunk is in the buffer.\<close>

definition buffered :: "string \<Rightarrow> bytes \<Rightarrow> metadata \<Rightarrow> bool" where
  "buffered cluster p m \<longleftrightarrow>
     m key_capture_enabled = Some ''true'' \<and> m key_cluster = Some cluster \<and> m key_tentative_json = None \<and>
     (m key_buffer_hex = Some (encode_hex p) \<or> p = [] \<and> m key_buffer_hex = None) \<and>
     (m key_buffer_bytes = Some (show_nat (length p)) \<or> p = [] \<and> m key_buffer_bytes = None)"

lemma collecting_iff:
  "collecting cluster p m \<longleftrightarrow>
     buffered cluster p m \<and> load_json_balance_state m = scan_bytes p \<and> \<not> is_done (scan_bytes p)"
  by (auto simp: collecting_def buffered_def)

lemma buffered_save: "buffered cluster p (save_json_balance_state m q) = buffered cluster p m"
  by (simp add: buffered_def save_balance_other)

lemma collecting_step:
  assumes "collecting cluster p m" and "length (p @ body_bytes body) \<le> trc_max_response_body_bytes config"
    and "trc_max_response_body_bytes config \<le> u64_max"
  shows "\<exists>m'. handle_non_streaming_capture sj config (body, eos, clk) (m, s) =
      capture_scan sj config (body, eos, clk) (m', s) \<and>
    buffered cluster (p @ body_bytes body) m' \<and> load_json_balance_state m' = scan_bytes p \<and>
    m' key_sse_capture_enabled = m key_sse_capture_enabled"
proof -
  have t: "m key_tentative_json = None" using assms(1) by (simp add: collecting_def)
  show ?thesis
  proof (cases body)
    case None
    with t assms(1) show ?thesis
      by (auto simp: handle_non_streaming_capture_def handle_pending_tentative_def collecting_iff)
  next
    case (Some c)
    with accumulate_collecting [OF assms(1), of c] assms t show ?thesis
      by (auto simp: handle_non_streaming_capture_def handle_pending_tentative_def collecting_iff
          load_balance_buffer buffered_def)
  qed
qed

text \<open>A chunk that is not the last.\<close>

lemma collecting_chunk:
  assumes laws: "json_text_laws sj" and c: "collecting cluster p m"
    and "length (p @ body_bytes body) \<le> trc_max_response_body_bytes config"
    and "trc_max_response_body_bytes config \<le> u64_max"
    and sse: "m key_sse_capture_enabled = None"
    and run: "handle_non_streaming_capture sj config (body, False, clk) (m, s) = (m', s')"
  shows "s' = s \<and> capturing sj cluster (p @ body_bytes body) m'"
proof -
  let ?p = "p @ body_bytes body" and ?q = "scan_bytes (p @ body_bytes body)"
  obtain m1 where m1: "handle_non_streaming_capture sj config (body, False, clk) (m, s) =
      capture_scan sj config (body, False, clk) (m1, s)"
    and b: "buffered cluster ?p m1" and l: "load_json_balance_state m1 = scan_bytes p"
    and "m1 key_sse_capture_enabled = None"
    using collecting_step [OF c assms(3,4)] sse by metis
  let ?m = "save_json_balance_state m1 ?q"
  have sse': "?m key_sse_capture_enabled = None" using \<open>m1 key_sse_capture_enabled = None\<close> by (simp add: save_balance_other)
  have bm: "buffered cluster ?p ?m" and lm: "load_json_balance_state ?m = ?q"
    using b by (simp_all add: buffered_save load_save_balance scan_bytes_stack)
  have parse: "parse_buffer sj ?m = sj_from_slice sj ?p"
    using bm by (intro parse_buffer_eq [OF laws]) (auto simp: buffered_def)
  note eq = m1 [unfolded capture_scan_eq [OF l] Let_def run]
  consider (invalid) "jb_invalid ?q" | (complete) "\<not> jb_invalid ?q" "is_complete ?q"
    | (more) "\<not> jb_invalid ?q" "\<not> is_complete ?q" by blast
  then show ?thesis
  proof cases
    case invalid
    with eq json_text_lawsD(3) [OF laws invalid] show ?thesis
      using given_up_clear [of sj ?p ?m] sse' by (simp add: capturing_def sse_key_clear)
  next
    case more
    with eq bm lm sse' show ?thesis by (simp add: capturing_def collecting_iff is_done_def)
  next
    case complete
    then have eq': "m' = parse_to_tentative sj ?m" "s' = s" using eq by simp_all
    show ?thesis
    proof (cases "sj_from_slice sj ?p")
      case None
      have "given_up sj ?p (clear_capture_metadata ?m)"
        by (rule given_up_clear) (rule complete_unparsable [OF laws complete(2) None])
      with eq' None parse sse' show ?thesis
        by (simp add: parse_to_tentative_def capturing_def sse_key_clear)
    next
      case (Some v)
      with json_text_lawsD(5) [OF laws Some] obtain t w where
        t: "sj_to_string sj v = Some t" "sj_from_str sj t = Some w" "json_shape w = json_shape v" by blast
      then have "holding sj cluster ?p m'"
        using bm complete(2) Some parse eq'(1) unfolding holding_def
        by (intro conjI exI [of _ ?p] exI [of _ "[]"] exI [of _ v] exI [of _ t] exI [of _ w])
          (simp_all add: parse_to_tentative_def buffered_def)
      with eq' t Some parse sse' show ?thesis by (simp add: capturing_def parse_to_tentative_def)
    qed
  qed
qed

lemma pending_eq:
  assumes "m key_tentative_json = Some t"
  shows "handle_non_streaming_capture sj config (body, eos, clk) (m, s) =
    (if \<not> list_all is_json_space (body_bytes body) then (clear_capture_metadata m, s)
     else if eos then (clear_capture_metadata m, commit_tentative_capture sj config clk m s)
     else (m, s))"
proof -
  have "(case body of None \<Rightarrow> False | Some b \<Rightarrow> list_ex (\<lambda>x. \<not> is_json_space x) b) \<longleftrightarrow>
      \<not> list_all is_json_space (body_bytes body)"
    by (cases body) (simp_all add: list_ex_iff list_all_iff)
  with assms show ?thesis
    by (simp add: handle_non_streaming_capture_def handle_pending_tentative_def Let_def)
qed

lemma holding_chunk:
  assumes laws: "json_text_laws sj" and h: "holding sj cluster p m" and sse: "m key_sse_capture_enabled = None"
    and run: "handle_non_streaming_capture sj config (body, False, clk) (m, s) = (m', s')"
  shows "s' = s \<and> capturing sj cluster (p @ body_bytes body) m'"
proof -
  obtain q ws v t w where q: "p = q @ ws" "list_all is_json_space ws" "is_complete (scan_bytes q)"
    "sj_from_slice sj q = Some v" "m key_tentative_json = Some t" "sj_from_str sj t = Some w"
    "json_shape w = json_shape v" and e: "m key_capture_enabled = Some ''true''" "m key_cluster = Some cluster"
    using h unfolding holding_def by blast
  show ?thesis
  proof (cases "list_all is_json_space (body_bytes body)")
    case True
    then have "m' = m" "s' = s" using run pending_eq [where m = m, OF q(5)] by simp_all
    moreover have "holding sj cluster (p @ body_bytes body) m"
      unfolding holding_def using q e True
      by (intro conjI exI [of _ q] exI [of _ "ws @ body_bytes body"] exI [of _ v] exI [of _ t] exI [of _ w]) simp_all
    ultimately show ?thesis using sse by (simp add: capturing_def)
  next
    case False
    then have "m' = clear_capture_metadata m" "s' = s" using run pending_eq [where m = m, OF q(5)] by simp_all
    moreover have "given_up sj (p @ body_bytes body) (clear_capture_metadata m)"
      using json_text_lawsD(4) [OF laws q(3)] False q(1) by (intro given_up_clear) simp
    ultimately show ?thesis using sse by (simp add: capturing_def sse_key_clear)
  qed
qed

text \<open>The last callback.\<close>

lemma collecting_end:
  assumes laws: "json_text_laws sj" and c: "collecting cluster p m"
    and "length (p @ body_bytes body) \<le> trc_max_response_body_bytes config"
    and "trc_max_response_body_bytes config \<le> u64_max"
  shows "snd (handle_non_streaming_capture sj config (body, True, clk) (m, s)) =
    route_from sj config cluster (p @ body_bytes body) clk s"
proof -
  let ?p = "p @ body_bytes body" and ?q = "scan_bytes (p @ body_bytes body)"
  obtain m1 where m1: "handle_non_streaming_capture sj config (body, True, clk) (m, s) =
      capture_scan sj config (body, True, clk) (m1, s)"
    and b: "buffered cluster ?p m1" and l: "load_json_balance_state m1 = scan_bytes p"
    using collecting_step [OF c assms(3,4)] by metis
  let ?m = "save_json_balance_state m1 ?q"
  have "buffered cluster ?p ?m" using b by (simp add: buffered_save)
  then have "parse_buffer sj ?m = sj_from_slice sj ?p" and cl: "?m key_cluster = Some cluster"
    using parse_buffer_eq [OF laws, of ?m ?p] by (auto simp: buffered_def)
  then show ?thesis using json_text_lawsD(3) [OF laws, of ?p "[]"]
    by (simp add: m1 capture_scan_eq [OF l] Let_def try_capture_from_buffer_def route_from_def split: option.split)
qed

lemma holding_end:
  assumes laws: "json_text_laws sj" and h: "holding sj cluster p m"
  shows "snd (handle_non_streaming_capture sj config (body, True, clk) (m, s)) =
    route_from sj config cluster (p @ body_bytes body) clk s"
proof -
  obtain q ws v t w where q: "p = q @ ws" "list_all is_json_space ws" "is_complete (scan_bytes q)"
    "sj_from_slice sj q = Some v" "m key_tentative_json = Some t" "sj_from_str sj t = Some w"
    "json_shape w = json_shape v" and e: "m key_cluster = Some cluster"
    using h unfolding holding_def by blast
  show ?thesis
  proof (cases "list_all is_json_space (body_bytes body)")
    case True
    have "sj_from_slice sj (p @ body_bytes body) = Some v"
      using json_text_lawsD(2) [OF laws, of "ws @ body_bytes body" q] q True by simp
    with True q e store_shape [OF q(7)] show ?thesis
      by (simp add: pending_eq [where m = m, OF q(5)] commit_tentative_capture_def route_from_def)
  next
    case False
    with json_text_lawsD(4) [OF laws q(3), of "ws @ body_bytes body"] q(1) show ?thesis
      by (simp add: pending_eq [where m = m, OF q(5)] route_from_def)
  qed
qed

section \<open>Whole responses\<close>

text \<open>The callbacks of a response: chunks in order, the stream ends with the last one.\<close>

fun response_run ::
  "(metadata \<Rightarrow> string \<Rightarrow> string option) \<Rightarrow> serde \<Rightarrow> task_routing_config \<Rightarrow>
   (bytes option \<times> clock) list \<Rightarrow> bytes option \<times> clock \<Rightarrow> capture_state \<Rightarrow> capture_state" where
  "response_run gm sj config [] (body, clk) ms = on_response_body gm sj config (body, True, clk) ms"
| "response_run gm sj config ((b, c) # cbs) end_cb ms =
     response_run gm sj config cbs end_cb (on_response_body gm sj config (b, False, c) ms)"

definition run_bytes :: "(bytes option \<times> clock) list \<Rightarrow> bytes option \<times> clock \<Rightarrow> bytes" where
  "run_bytes cbs end_cb = concat (map (\<lambda>cb. body_bytes (fst cb)) cbs) @ body_bytes (fst end_cb)"

lemma capturing_chunk:
  assumes "json_text_laws sj" and "capturing sj cluster p m" and "\<And>m k. gm m k = m k"
    and "length (p @ body_bytes body) \<le> trc_max_response_body_bytes config"
    and "trc_max_response_body_bytes config \<le> u64_max"
    and "on_response_body gm sj config (body, False, clk) (m, s) = (m', s')"
  shows "s' = s \<and> capturing sj cluster (p @ body_bytes body) m'"
proof -
  have sse: "m key_sse_capture_enabled = None" using assms(2) by (simp add: capturing_def)
  consider (c) "collecting cluster p m" | (h) "holding sj cluster p m" | (g) "given_up sj p m"
    using assms(2) unfolding capturing_def by blast
  then show ?thesis
  proof cases
    case c
    with collecting_chunk [OF assms(1) c assms(4,5) sse, of clk s m' s'] assms(3,6) show ?thesis
      by (simp add: on_response_body_def collecting_def)
  next
    case h
    with holding_chunk [OF assms(1) h sse, of config body clk s m' s'] assms(3,6) show ?thesis
      by (simp add: on_response_body_def holding_def)
  next
    case g
    then have "m' = m" "s' = s" using assms(3,6) sse by (simp_all add: on_response_body_def given_up_def)
    with g sse show ?thesis by (simp add: capturing_def given_up_def)
  qed
qed

lemma capturing_end:
  assumes "json_text_laws sj" and "capturing sj cluster p m" and "\<And>m k. gm m k = m k"
    and "length (p @ body_bytes body) \<le> trc_max_response_body_bytes config"
    and "trc_max_response_body_bytes config \<le> u64_max"
  shows "snd (on_response_body gm sj config (body, True, clk) (m, s)) =
    route_from sj config cluster (p @ body_bytes body) clk s"
proof -
  consider (c) "collecting cluster p m" | (h) "holding sj cluster p m" | (g) "given_up sj p m"
    using assms(2) unfolding capturing_def by blast
  then show ?thesis
  proof cases
    case c
    with collecting_end [OF assms(1) c assms(4,5)] assms(3) show ?thesis
      by (simp add: on_response_body_def collecting_def)
  next
    case h
    with holding_end [OF assms(1) h] assms(3) show ?thesis by (simp add: on_response_body_def holding_def)
  next
    case g
    with assms(2,3) show ?thesis by (simp add: on_response_body_def given_up_def capturing_def route_from_def)
  qed
qed

lemma capturing_run:
  assumes "json_text_laws sj" and "capturing sj cluster p m" and "\<And>m k. gm m k = m k"
    and "length (p @ run_bytes cbs end_cb) \<le> trc_max_response_body_bytes config"
    and "trc_max_response_body_bytes config \<le> u64_max"
  shows "snd (response_run gm sj config cbs end_cb (m, s)) =
    route_from sj config cluster (p @ run_bytes cbs end_cb) (snd end_cb) s"
  using assms(2,4)
proof (induction cbs arbitrary: p m)
  case Nil
  with capturing_end [where gm = gm, OF assms(1) _ assms(3) _ assms(5), of cluster p m "fst end_cb" "snd end_cb" s] show ?case
    by (cases end_cb) (simp add: run_bytes_def)
next
  case (Cons cb cbs)
  obtain b c where cb: "cb = (b, c)" by force
  obtain m' s' where r: "on_response_body gm sj config (b, False, c) (m, s) = (m', s')" by force
  have "length (p @ body_bytes b) \<le> trc_max_response_body_bytes config"
    using Cons.prems(2) by (simp add: run_bytes_def cb)
  from capturing_chunk [where gm = gm, OF assms(1) Cons.prems(1) assms(3) this assms(5) r]
  have "s' = s" "capturing sj cluster (p @ body_bytes b) m'" by simp_all
  with Cons.IH [of "p @ body_bytes b" m'] Cons.prems(2) show ?case
    by (simp add: cb r run_bytes_def)
qed

section \<open>Event streams\<close>

text \<open>
  The payloads of a stream with the clock readings they are recorded at: those of the callback that
  completes the payload, eight for each. \<open>record_payloads\<close> is the plain reading of such a list.
\<close>

fun timed :: "clock \<Rightarrow> bytes list \<Rightarrow> (bytes \<times> clock) list" where
  "timed clk [] = []"
| "timed clk (p # ps) = (p, clk) # timed (\<lambda>i. clk (i + 8)) ps"

definition record_payloads ::
  "serde \<Rightarrow> string \<Rightarrow> task_routing_config \<Rightarrow> (bytes \<times> clock) list \<Rightarrow> route_store \<Rightarrow> route_store" where
  "record_payloads sj cluster config =
     fold (\<lambda>(p, clk) s. case sj_from_slice sj p of None \<Rightarrow> s | Some v \<Rightarrow> store_task_route v cluster config clk s)"

lemma map_fst_timed [simp]: "map fst (timed clk ps) = ps"
  by (induction ps arbitrary: clk) simp_all

lemma timed_append: "timed clk (ps @ qs) = timed clk ps @ timed (\<lambda>i. clk (i + 8 * length ps)) qs"
  by (induction ps arbitrary: clk) (simp_all add: ac_simps)

lemma record_payloads_append:
  "record_payloads sj cluster config (ps @ qs) s = record_payloads sj cluster config qs (record_payloads sj cluster config ps s)"
  by (simp add: record_payloads_def)

lemma extract_recorded:
  "m key_cluster = Some cluster \<Longrightarrow>
   extract_payloads sj config m ps (s, clk) = (record_payloads sj cluster config (timed clk ps) s, \<lambda>i. clk (i + 8 * length ps))"
proof (induction ps arbitrary: s clk)
  case (Cons p ps)
  then show ?case
    by (simp add: record_payloads_def try_extract_task_from_sse_payload_def ac_simps split: option.split)
qed (simp add: record_payloads_def)

lemma scan_step_scratch: "ss_scratch_bytes s \<le> mx \<Longrightarrow> ss_scratch_bytes (fst (scan_step mx b (s, ps, n))) \<le> mx"
  by (auto simp: scan_step_def scan_phase_def scan_limit_def Let_def split: skip_phase.split prod.split)

lemma scan_fold_scratch: "ss_scratch_bytes (fst acc) \<le> mx \<Longrightarrow> ss_scratch_bytes (fst (fold (scan_step mx) bs acc)) \<le> mx"
proof (induction bs arbitrary: acc)
  case (Cons b bs)
  have "ss_scratch_bytes (fst (scan_step mx b acc)) \<le> mx"
    using scan_step_scratch [of "fst acc" mx b "fst (snd acc)" "snd (snd acc)"] Cons.prems by simp
  with Cons.IH show ?case by simp
qed simp

lemma scan_chunk_scratch:
  "ss_scratch_bytes st \<le> mx \<Longrightarrow> ss_scratch_bytes (fst (scan_sse_chunk st c mx)) \<le> mx"
  by (simp add: scan_sse_chunk_def scan_loop_fold scan_fold_scratch)

definition streaming :: "string \<Rightarrow> sse_scan_state \<Rightarrow> metadata \<Rightarrow> bool" where
  "streaming cluster st m \<longleftrightarrow>
     m key_sse_capture_enabled = Some ''true'' \<and> m key_capture_enabled = None \<and> m key_cluster = Some cluster \<and>
     load_sse_scan_state m = st"

lemma streaming_save:
  assumes "streaming cluster st m" and "ss_scratch_bytes st' \<le> u64_max"
  shows "streaming cluster st' (save_sse_scan_state m st')"
  using assms load_save_sse [OF assms(2)]
  by (simp add: streaming_def save_sse_scan_state_def set_hex_metadata_def)

text \<open>One chunk of a stream.\<close>

lemma streaming_chunk:
  assumes "streaming cluster st m" and "ss_scratch_bytes st \<le> mx" and "mx \<le> u64_max"
    and "mx = trc_max_response_body_bytes config" and "scan_sse_chunk st c mx = (st', ps, n)"
    and "process_sse_response_chunk sj config c (m, s, clk) = (m', s', clk')"
  shows "streaming cluster st' m' \<and> ss_scratch_bytes st' \<le> mx \<and>
    s' = record_payloads sj cluster config (timed clk ps) s \<and> clk' = (\<lambda>i. clk (i + 8 * length ps))"
proof -
  have l: "load_sse_scan_state m = st" "m key_cluster = Some cluster" using assms(1) by (simp_all add: streaming_def)
  have sc: "ss_scratch_bytes st' \<le> mx" using scan_chunk_scratch [OF assms(2), of c] assms(5) by simp
  have m': "m' = save_sse_scan_state m st'" "(s', clk') = extract_payloads sj config m ps (s, clk)"
    using assms(4-6) l by (simp_all add: process_sse_response_chunk_def)
  with streaming_save [OF assms(1)] sc assms(3) extract_recorded [where m = m, OF l(2)] show ?thesis by simp
qed

definition stream_payloads :: "nat \<Rightarrow> sse_scan_state \<Rightarrow> bytes list \<Rightarrow> bytes list" where
  "stream_payloads mx st cs =
     (case scan_feed mx st cs of (st', ps, _) \<Rightarrow> ps @ snd (flush_sse_state st' []))"

definition run_chunks :: "(bytes option \<times> clock) list \<Rightarrow> bytes option \<times> clock \<Rightarrow> bytes list" where
  "run_chunks cbs end_cb = List.map_filter fst (cbs @ [end_cb])"

lemma stream_payloads_Cons:
  "scan_sse_chunk st c mx = (st', ps, n) \<Longrightarrow> stream_payloads mx st (c # cs) = ps @ stream_payloads mx st' cs"
  by (simp add: stream_payloads_def split: prod.split)

text \<open>The payloads that each callback of a response completes, with their readings of the clock.\<close>

definition scan_body :: "nat \<Rightarrow> sse_scan_state \<Rightarrow> bytes option \<Rightarrow> sse_scan_state \<times> bytes list" where
  "scan_body mx st body =
     (case body of None \<Rightarrow> (st, []) | Some c \<Rightarrow> (case scan_sse_chunk st c mx of (st', ps, _) \<Rightarrow> (st', ps)))"

fun timed_payloads ::
  "nat \<Rightarrow> sse_scan_state \<Rightarrow> (bytes option \<times> clock) list \<Rightarrow> bytes option \<times> clock \<Rightarrow> (bytes \<times> clock) list" where
  "timed_payloads mx st [] (body, clk) =
     (case scan_body mx st body of (st', ps) \<Rightarrow> timed clk (ps @ snd (flush_sse_state st' [])))"
| "timed_payloads mx st ((body, clk) # cbs) end_cb =
     (case scan_body mx st body of (st', ps) \<Rightarrow> timed clk ps @ timed_payloads mx st' cbs end_cb)"

lemma timed_payloads_fst: "map fst (timed_payloads mx st cbs end_cb) = stream_payloads mx st (run_chunks cbs end_cb)"
proof (induction cbs arbitrary: st)
  case Nil
  obtain body clk where e: "end_cb = (body, clk)" by force
  show ?case by (cases body) (auto simp: e scan_body_def run_chunks_def map_filter_simps stream_payloads_def split: prod.split)
next
  case (Cons cb cbs)
  obtain body clk where cb: "cb = (body, clk)" by force
  show ?case
  proof (cases body)
    case None
    with Cons show ?thesis by (simp add: cb scan_body_def run_chunks_def map_filter_simps)
  next
    case (Some c)
    obtain st' ps n where sc: "scan_sse_chunk st c mx = (st', ps, n)" by (metis prod_cases3)
    from Some Cons [of st'] stream_payloads_Cons [OF sc] show ?thesis
      by (simp add: cb scan_body_def sc run_chunks_def map_filter_simps)
  qed
qed

lemma streaming_body:
  assumes "streaming cluster st m" and "ss_scratch_bytes st \<le> mx" and "mx \<le> u64_max"
    and "mx = trc_max_response_body_bytes config" and "scan_body mx st body = (st', ps)"
    and "(case body of None \<Rightarrow> (m, s, clk) | Some c \<Rightarrow> process_sse_response_chunk sj config c (m, s, clk)) = (m', s', clk')"
  shows "streaming cluster st' m' \<and> ss_scratch_bytes st' \<le> mx \<and>
    s' = record_payloads sj cluster config (timed clk ps) s \<and> clk' = (\<lambda>i. clk (i + 8 * length ps))"
proof (cases body)
  case None
  with assms show ?thesis by (auto simp: scan_body_def record_payloads_def)
next
  case (Some c)
  obtain st1 ps1 n where sc: "scan_sse_chunk st c mx = (st1, ps1, n)" by (metis prod_cases3)
  with assms(5) Some have "st1 = st'" "ps1 = ps" by (simp_all add: scan_body_def)
  with streaming_chunk [OF assms(1-4) sc, of sj s clk m' s' clk'] assms(6) Some show ?thesis by simp
qed

lemma streaming_run:
  assumes "mx = trc_max_response_body_bytes config" and "mx \<le> u64_max" and "\<And>m k. gm m k = m k"
    and "streaming cluster st m" and "ss_scratch_bytes st \<le> mx"
  shows "snd (response_run gm sj config cbs end_cb (m, s)) =
    record_payloads sj cluster config (timed_payloads mx st cbs end_cb) s"
  using assms(4,5)
proof (induction cbs arbitrary: st m s)
  case Nil
  obtain body clk where e: "end_cb = (body, clk)" by force
  obtain st' ps where sc: "scan_body mx st body = (st', ps)" by force
  obtain m' s' clk' where pr: "(case body of None \<Rightarrow> (m, s, clk) | Some c \<Rightarrow> process_sse_response_chunk sj config c (m, s, clk)) = (m', s', clk')"
    by (metis prod_cases3)
  note st = streaming_body [OF Nil.prems assms(2,1) sc pr]
  have "m key_capture_enabled = None" "m key_sse_capture_enabled = Some ''true''"
    using Nil.prems(1) by (simp_all add: streaming_def)
  then have "snd (on_response_body gm sj config (body, True, clk) (m, s)) = fst (flush_pending_sse_payloads sj config m' (s', clk'))"
    by (simp add: on_response_body_def assms(3) pr)
  also have "\<dots> = record_payloads sj cluster config (timed clk' (snd (flush_sse_state st' []))) s'"
    using st extract_recorded [of m' cluster sj config "snd (flush_sse_state st' [])" s' clk']
    by (simp add: streaming_def flush_pending_sse_payloads_def)
  finally show ?case using st by (simp add: e sc timed_append record_payloads_append)
next
  case (Cons cb cbs)
  obtain body clk where cb: "cb = (body, clk)" by force
  obtain st' ps where sc: "scan_body mx st body = (st', ps)" by force
  obtain m' s' clk' where pr: "(case body of None \<Rightarrow> (m, s, clk) | Some c \<Rightarrow> process_sse_response_chunk sj config c (m, s, clk)) = (m', s', clk')"
    by (metis prod_cases3)
  note st = streaming_body [OF Cons.prems assms(2,1) sc pr]
  have "m key_capture_enabled = None" "m key_sse_capture_enabled = Some ''true''"
    using Cons.prems(1) by (simp_all add: streaming_def)
  then have "on_response_body gm sj config (body, False, clk) (m, s) = (m', s')"
    by (simp add: on_response_body_def assms(3) pr)
  with Cons.IH [of st' m' s'] st show ?case by (simp add: cb sc record_payloads_append)
qed

lemma stream_payloads_concat:
  "[] \<notin> set cs \<Longrightarrow> [] \<notin> set ds \<Longrightarrow> concat cs = concat ds \<Longrightarrow> stream_payloads mx st cs = stream_payloads mx st ds"
  by (simp add: stream_payloads_def scan_feed_fold)

section \<open>A JSON library for the examples\<close>

text \<open>It knows one text, between any white space; this suffices to meet the laws.\<close>

definition demo_text :: string where
  \<open>demo_text = ''{"result":{"task":{"id":"t1"}}}''\<close>

definition demo_value :: json where
  "demo_value = JObject [(''result'', JObject [(''task'', JObject [(''id'', JString ''t1'')])])]"

definition demo_from_slice :: "bytes \<Rightarrow> json option" where
  "demo_from_slice bs =
     (let y = dropWhile is_json_space bs
      in if take (length demo_text) y = ascii demo_text \<and> list_all is_json_space (drop (length demo_text) y)
         then Some demo_value else None)"

definition demo_serde :: serde where
  "demo_serde =
     \<lparr>sj_from_slice = demo_from_slice,
      sj_from_str = (\<lambda>t. if t = demo_text then Some demo_value else None),
      sj_to_string = (\<lambda>v. if v = demo_value then Some demo_text else None)\<rparr>"

lemma demo_text_facts:
  "length demo_text = 31" "ascii demo_text \<noteq> []" "\<not> is_json_space (hd (ascii demo_text))"
  "\<not> is_json_space (last (ascii demo_text))"
  by (simp_all add: demo_text_def ascii_def is_json_space_def)

lemma demo_text_scan:
  "scan_bytes (ascii demo_text) = json_balance_default\<lparr>jb_started := True\<rparr>"
  "\<not> is_done (scan_bytes (take 30 (ascii demo_text)))"
  by (simp_all add: demo_text_def ascii_def scan_bytes_def scan_json_balance_def is_done_def is_complete_def
      json_balance_default_def balance_byte_def)

lemma demo_text_prefix: "k < 31 \<Longrightarrow> \<not> is_done (scan_bytes (take k (ascii demo_text)))"
proof
  assume k: "k < 31" and d: "is_done (scan_bytes (take k (ascii demo_text)))"
  have "take 30 (ascii demo_text) = take k (ascii demo_text) @ take (30 - k) (drop k (ascii demo_text))"
    using k by (simp flip: take_add)
  with d scan_bytes_append [of "take k (ascii demo_text)" "take (30 - k) (drop k (ascii demo_text))"] demo_text_scan(2)
  show False by (simp add: scan_json_balance_def)
qed

lemma dropWhile_all: "list_all P u \<Longrightarrow> dropWhile P (u @ v) = dropWhile P v"
  by (simp add: list_all_iff)

lemma demo_accepts:
  "demo_from_slice bs \<noteq> None \<longleftrightarrow>
     (\<exists>u w. bs = u @ ascii demo_text @ w \<and> list_all is_json_space u \<and> list_all is_json_space w)"
proof
  assume "demo_from_slice bs \<noteq> None"
  then have "take (length demo_text) (dropWhile is_json_space bs) = ascii demo_text"
    "list_all is_json_space (drop (length demo_text) (dropWhile is_json_space bs))"
    by (auto simp: demo_from_slice_def Let_def split: if_splits)
  then have "bs = takeWhile is_json_space bs @ ascii demo_text @ drop (length demo_text) (dropWhile is_json_space bs)"
    by (metis append_take_drop_id takeWhile_dropWhile_id)
  moreover have "list_all is_json_space (takeWhile is_json_space bs)" by (auto simp: list_all_iff dest: set_takeWhileD)
  ultimately show "\<exists>u w. bs = u @ ascii demo_text @ w \<and> list_all is_json_space u \<and> list_all is_json_space w"
    using \<open>list_all is_json_space (drop (length demo_text) (dropWhile is_json_space bs))\<close> by blast
next
  assume "\<exists>u w. bs = u @ ascii demo_text @ w \<and> list_all is_json_space u \<and> list_all is_json_space w"
  then obtain u w where b: "bs = u @ ascii demo_text @ w" "list_all is_json_space u" "list_all is_json_space w" by blast
  have "dropWhile is_json_space (ascii demo_text @ w) = ascii demo_text @ w"
    using demo_text_facts(2,3) by (cases "ascii demo_text") simp_all
  moreover have "length (ascii demo_text) = length demo_text" by (simp add: ascii_def)
  ultimately show "demo_from_slice bs \<noteq> None" using b(3)
    by (simp add: demo_from_slice_def b(1) dropWhile_all [OF b(2)])
qed

lemma demo_trailing_space:
  assumes "list_all is_json_space ws"
  shows "demo_from_slice (bs @ ws) = demo_from_slice bs"
proof -
  have "demo_from_slice (bs @ ws) \<noteq> None \<longleftrightarrow> demo_from_slice bs \<noteq> None"
  proof
    assume "demo_from_slice (bs @ ws) \<noteq> None"
    then obtain u w where b: "bs @ ws = u @ ascii demo_text @ w" "list_all is_json_space u" "list_all is_json_space w"
      unfolding demo_accepts by blast
    have "dropWhile is_json_space (rev bs) = dropWhile is_json_space (rev (bs @ ws))"
      using dropWhile_all [of is_json_space "rev ws"] assms by simp
    also have "\<dots> = dropWhile is_json_space (rev (ascii demo_text) @ rev u)"
      using dropWhile_all [of is_json_space "rev w"] b(3) by (simp add: b(1))
    also have "\<dots> = rev (ascii demo_text) @ rev u"
      using demo_text_facts(2,4) by (cases "ascii demo_text" rule: rev_cases) simp_all
    finally have "rev bs = takeWhile is_json_space (rev bs) @ rev (ascii demo_text) @ rev u"
      by (metis takeWhile_dropWhile_id)
    then have "bs = u @ ascii demo_text @ rev (takeWhile is_json_space (rev bs))"
      by (metis append.assoc rev_append rev_rev_ident)
    moreover have "list_all is_json_space (rev (takeWhile is_json_space (rev bs)))"
      by (auto simp: list_all_iff dest: set_takeWhileD)
    ultimately show "demo_from_slice bs \<noteq> None" unfolding demo_accepts using b(2) by blast
  next
    assume "demo_from_slice bs \<noteq> None"
    then show "demo_from_slice (bs @ ws) \<noteq> None"
      unfolding demo_accepts using assms by (auto simp flip: append_assoc) (metis append.assoc list_all_append)
  qed
  then show ?thesis by (auto simp: demo_from_slice_def Let_def split: if_splits)
qed

lemma scan_spaces: "list_all is_json_space u \<Longrightarrow> scan_bytes u = json_balance_default"
proof -
  have "list_all is_json_space u \<Longrightarrow> balance_loop json_balance_default u = json_balance_default"
    by (induction u) (auto simp: balance_byte_def json_balance_default_def is_json_space_def)
  then show "list_all is_json_space u \<Longrightarrow> scan_bytes u = json_balance_default"
    by (simp add: scan_bytes_def scan_json_balance_def)
qed

lemma demo_prefix:
  assumes "p @ r = u @ ascii demo_text @ w" and "list_all is_json_space u" and "list_all is_json_space w"
  shows "\<not> jb_invalid (scan_bytes p) \<and> (is_complete (scan_bytes p) \<longrightarrow> list_all is_json_space r)"
proof -
  let ?T = "ascii demo_text"
  have len: "length ?T = 31" using demo_text_facts(1) by (simp add: ascii_def)
  have p: "p = take (length p) (u @ ?T @ w)" and r: "r = drop (length p) (u @ ?T @ w)"
    by (simp_all flip: assms(1))
  consider (a) "length p \<le> length u" | (b) "length u < length p" "length p < length u + 31"
    | (c) "length u + 31 \<le> length p" by linarith
  then show ?thesis
  proof cases
    case a
    then have "p = take (length p) u" using p by simp
    then have "list_all is_json_space p" using assms(2) by (metis append_take_drop_id list_all_append)
    then show ?thesis by (simp add: scan_spaces json_balance_default_def is_complete_def)
  next
    case b
    define k where "k = length p - length u"
    have "p = u @ take k ?T" using p b len by (simp add: k_def)
    then have "scan_bytes p = scan_bytes (take k ?T)"
      using scan_bytes_append [of u "take k ?T"] scan_spaces [OF assms(2)] by (simp add: scan_bytes_def)
    moreover have "\<not> is_done (scan_bytes (take k ?T))" using b by (intro demo_text_prefix) (simp add: k_def)
    ultimately show ?thesis by (simp add: is_done_def)
  next
    case c
    then have "p = u @ ?T @ take (length p - length u - 31) w" "r = drop (length p - length u - 31) w"
      using p r len by simp_all
    moreover have "list_all is_json_space (drop n w)" for n using assms(3) by (metis append_take_drop_id list_all_append)
    moreover have "scan_bytes (u @ ?T @ v) = scan_bytes ?T" for v
    proof -
      have "scan_bytes (u @ ?T) = scan_bytes ?T"
        using scan_bytes_append [of u ?T] scan_spaces [OF assms(2)] by (simp add: scan_bytes_def)
      then show ?thesis using scan_bytes_append [of "u @ ?T" v] demo_text_scan(1)
        by (simp add: scan_json_balance_def is_done_def is_complete_def json_balance_default_def)
    qed
    moreover have "\<not> jb_invalid (scan_bytes ?T)" by (simp add: demo_text_scan(1) json_balance_default_def)
    ultimately show ?thesis by metis
  qed
qed

lemma demo_serde_laws: "json_text_laws demo_serde"
proof -
  have slice: "sj_from_slice demo_serde = demo_from_slice" by (simp add: demo_serde_def)
  have none: "demo_from_slice [] = None" by code_simp
  have scan: "\<not> jb_invalid (scan_bytes p) \<and> (is_complete (scan_bytes p) \<longrightarrow> list_all is_json_space r)"
    if "demo_from_slice (p @ r) \<noteq> None" for p r
    using that demo_prefix unfolding demo_accepts by blast
  have print: "\<exists>t w. sj_to_string demo_serde v = Some t \<and> sj_from_str demo_serde t = Some w \<and> json_shape w = json_shape v"
    if "demo_from_slice bs = Some v" for bs v
  proof -
    have "v = demo_value" using that by (simp add: demo_from_slice_def Let_def split: if_splits)
    then show ?thesis by (simp add: demo_serde_def)
  qed
  show ?thesis unfolding json_text_laws_def slice
    by (intro conjI allI impI)
      (rule none, erule demo_trailing_space, erule scan [THEN conjunct1],
       erule scan [THEN conjunct2, THEN mp], assumption, erule print)
qed

section \<open>Properties\<close>

text \<open>A request on which no response has been seen yet, and a response worth reading.\<close>

definition no_response_state :: "metadata \<Rightarrow> bool" where
  "no_response_state m \<longleftrightarrow>
     list_all (\<lambda>k. m k = None) (capture_keys @ sse_capture_keys @ [key_sse_dropped_tail])"

definition has_sse_body :: "response_head \<Rightarrow> bool" where
  "has_sse_body h = (case rh_content_type h of None \<Rightarrow> False | Some v \<Rightarrow> is_event_stream_content_type v)"

lemma on_response_body_start:
  assumes "no_response_state m" and "\<And>m k. gm m k = m k"
    and "m ''a2a.method'' \<in> {Some ''SendMessage'', Some ''SendStreamingMessage'', Some ''SubscribeToTask''}"
    and "rh_success h" and "\<not> has_sse_body h"
  shows "capturing sj cluster [] (on_response gm True (Some h) (Some cluster) m)"
proof -
  have "on_response gm True (Some h) (Some cluster) m = m(key_cluster \<mapsto> cluster, key_capture_enabled \<mapsto> ''true'')"
    using assms by (auto simp: on_response_def has_sse_body_def)
  then show ?thesis using assms(1)
    by (simp add: no_response_state_def capture_keys_def sse_capture_keys_def capturing_def collecting_def
        load_json_balance_state_def scan_bytes_Nil json_balance_default_def is_done_def is_complete_def)
qed

lemma on_response_stream_start:
  assumes "no_response_state m" and "\<And>m k. gm m k = m k"
    and "m ''a2a.method'' \<in> {Some ''SendStreamingMessage'', Some ''SubscribeToTask''}"
    and "rh_success h" and "has_sse_body h"
  shows "streaming cluster sse_scan_default (on_response gm True (Some h) (Some cluster) m)"
proof -
  have "on_response gm True (Some h) (Some cluster) m = m(key_sse_capture_enabled \<mapsto> ''true'', key_cluster \<mapsto> cluster)"
    using assms by (auto simp: on_response_def has_sse_body_def split: option.splits)
  then show ?thesis using assms(1)
    by (simp add: no_response_state_def capture_keys_def sse_capture_keys_def streaming_def
        load_sse_scan_state_def sse_scan_default_def skip_from_metadata_str_def tail_from_metadata_str_def)
qed

lemma body_capture:
  assumes "json_text_laws sj" and "\<And>m k. gm m k = m k" and "no_response_state m"
    and "m ''a2a.method'' \<in> {Some ''SendMessage'', Some ''SendStreamingMessage'', Some ''SubscribeToTask''}"
    and "rh_success h" and "\<not> has_sse_body h"
    and "length (run_bytes cbs end_cb) \<le> trc_max_response_body_bytes config"
    and "trc_max_response_body_bytes config \<le> u64_max"
  shows "snd (response_run gm sj config cbs end_cb (on_response gm True (Some h) (Some cluster) m, s)) =
    (case sj_from_slice sj (run_bytes cbs end_cb) of
       None \<Rightarrow> s
     | Some v \<Rightarrow> store_task_route v cluster config (snd end_cb) s)"
  using capturing_run [where gm = gm and cbs = cbs and end_cb = end_cb and s = s and cluster = cluster,
      OF assms(1) on_response_body_start [where gm = gm, OF assms(3,2,4-6)] assms(2) _ assms(8)] assms(7)
  by (simp add: route_from_def)

text \<open>
  C7. Ownership is read off the whole body. A successful JSON response to a message or subscription
  arrives in any chunks, within the size limit. When the stream has ended the route store holds
  exactly what recording the parsed body gives, and is untouched if the body does not parse: the
  early parse of a body that looks complete neither loses a route nor lets a valid prefix with
  trailing garbage create one, and the string encoding of the working state is exact.
\<close>

theorem body_capture_exact:
  assumes "json_text_laws sj" and "\<And>m k. gm m k = m k" and "no_response_state m"
    and "m ''a2a.method'' \<in> {Some ''SendMessage'', Some ''SendStreamingMessage'', Some ''SubscribeToTask''}"
    and "rh_success h" and "\<not> has_sse_body h"
    and "length (run_bytes cbs end_cb) \<le> trc_max_response_body_bytes config"
    and "trc_max_response_body_bytes config \<le> u64_max"
  shows "snd (response_run gm sj config cbs end_cb (on_response gm True (Some h) (Some cluster) m, s)) =
    (case sj_from_slice sj (run_bytes cbs end_cb) of
       None \<Rightarrow> s
     | Some v \<Rightarrow> store_task_route v cluster config (snd end_cb) s)"
  using assms by (rule body_capture)

definition demo_route_config :: task_routing_config where
  "demo_route_config = task_routing_default\<lparr>trc_enabled := True\<rparr>"

definition demo_head :: "string \<Rightarrow> response_head" where
  "demo_head ct = \<lparr>rh_success = True, rh_content_type = Some ct\<rparr>"

definition demo_request :: "string \<Rightarrow> metadata" where
  "demo_request method_name = [''a2a.method'' \<mapsto> method_name]"

definition demo_callbacks :: "(bytes option \<times> clock) list" where
  "demo_callbacks =
     [(Some (take 10 (ascii demo_text)), \<lambda>_. 5), (Some (drop 10 (ascii demo_text)), \<lambda>_. 6), (Some [0x0A], \<lambda>_. 7)]"

lemma demo_request_clean: "no_response_state (demo_request x)"
  by (simp add: no_response_state_def demo_request_def capture_keys_def sse_capture_keys_def key_capture_enabled_def
      key_buffer_hex_def key_buffer_bytes_def key_cluster_def key_json_stack_def key_json_started_def
      key_json_in_string_def key_json_escaped_def key_json_invalid_def key_tentative_json_def
      key_sse_capture_enabled_def key_sse_line_buf_hex_def key_sse_data_hex_def key_sse_has_data_def
      key_sse_prev_cr_def key_sse_scratch_bytes_def key_sse_skip_def key_sse_dropped_tail_def)

theorem body_capture_exact_witness:
  "fst (get_by_task_id
     (snd (response_run (\<lambda>m k. m k) demo_serde demo_route_config demo_callbacks (None, \<lambda>_. 8)
       (on_response (\<lambda>m k. m k) True (Some (demo_head ''application/json'')) (Some ''alpha'') (demo_request ''SendMessage''),
        route_store_new (\<lambda>_. 0)))) ''t1'' (\<lambda>_. 9)) = Some ''alpha''"
proof -
  have bytes: "run_bytes demo_callbacks (None, \<lambda>_. 8) = ascii demo_text @ [0x0A]"
    by (simp add: run_bytes_def demo_callbacks_def)
  have parse: "sj_from_slice demo_serde (ascii demo_text @ [0x0A]) = Some demo_value"
    by (simp add: demo_serde_def demo_from_slice_def demo_text_def ascii_def is_json_space_def)
  have len: "length (run_bytes demo_callbacks (None, \<lambda>_. 8)) \<le> trc_max_response_body_bytes demo_route_config"
    unfolding bytes using demo_text_facts(1)
    by (simp add: ascii_def demo_route_config_def task_routing_default_def)
  have cfg: "trc_max_response_body_bytes demo_route_config \<le> u64_max"
    by (simp add: demo_route_config_def task_routing_default_def u64_max_def)
  have head: "rh_success (demo_head ''application/json'')" "\<not> has_sse_body (demo_head ''application/json'')"
    by code_simp+
  have "fst (get_by_task_id (store_task_route demo_value ''alpha'' demo_route_config (\<lambda>_. 8) (route_store_new (\<lambda>_. 0)))
      ''t1'' (\<lambda>_. 9)) = Some ''alpha''" by code_simp
  then show ?thesis
    using body_capture_exact [where gm = "\<lambda>m k. m k", OF demo_serde_laws refl demo_request_clean _ head len cfg,
        of "''SendMessage''" "''alpha''" "route_store_new (\<lambda>_. 0)"] parse
    by (simp add: bytes demo_request_def)
qed

text \<open>
  C17. Ownership is read off the whole event stream. A successful event-stream response to a
  streaming method arrives in non-empty chunks, with or without data in the last callback. When it
  has ended, the store is the one obtained by recording, in order, each payload that the scanner
  finds in the unbroken stream and that parses, including a last event whose blank line is missing;
  a payload is recorded at the clock readings of the callback that completes it. So saving the
  scanner as strings between callbacks loses nothing.
\<close>

theorem stream_capture_exact:
  assumes "\<And>m k. gm m k = m k" and "no_response_state m"
    and "m ''a2a.method'' \<in> {Some ''SendStreamingMessage'', Some ''SubscribeToTask''}"
    and "rh_success h" and "has_sse_body h" and "[] \<notin> set (run_chunks cbs end_cb)"
    and "trc_max_response_body_bytes config \<le> u64_max"
    and "stream = concat (run_chunks cbs end_cb)" and "stream \<noteq> []"
    and "tps = timed_payloads (trc_max_response_body_bytes config) sse_scan_default cbs end_cb"
  shows "map fst tps = stream_payloads (trc_max_response_body_bytes config) sse_scan_default [stream] \<and>
    snd (response_run gm sj config cbs end_cb (on_response gm True (Some h) (Some cluster) m, s)) =
      record_payloads sj cluster config tps s"
proof -
  have "stream_payloads (trc_max_response_body_bytes config) sse_scan_default [stream] =
      stream_payloads (trc_max_response_body_bytes config) sse_scan_default (run_chunks cbs end_cb)"
    by (rule stream_payloads_concat) (use assms(6,8,9) in auto)
  then show ?thesis
    using streaming_run [where gm = gm, OF refl assms(7,1) on_response_stream_start [where gm = gm, OF assms(2,1,3-5)]]
      timed_payloads_fst
    by (simp add: assms(10)) (simp add: sse_scan_default_def)
qed

theorem stream_capture_exact_witness:
  "fst (get_by_task_id (snd (response_run (\<lambda>m k. m k) demo_serde demo_route_config [(Some (ascii ''da''), \<lambda>_. 5), (None, \<lambda>_. 6)]
       (Some (ascii ''ta: '' @ ascii demo_text @ [LF]), \<lambda>_. 8)
       (on_response (\<lambda>m k. m k) True (Some (demo_head ''text/event-stream; charset=utf-8'')) (Some ''alpha'')
          (demo_request ''SendStreamingMessage''), route_store_new (\<lambda>_. 0)))) ''t1'' (\<lambda>_. 9)) = Some ''alpha''"
proof -
  let ?cbs = "[(Some (ascii ''da''), \<lambda>_. 5), (None, \<lambda>_. 6)]" and ?fin = "(Some (ascii ''ta: '' @ ascii demo_text @ [LF]), \<lambda>_. 8)"
  have chunks: "run_chunks ?cbs ?fin = [ascii ''da'', ascii ''ta: '' @ ascii demo_text @ [LF]]"
    by (simp add: run_chunks_def map_filter_simps)
  have head: "rh_success (demo_head ''text/event-stream; charset=utf-8'')"
    "has_sse_body (demo_head ''text/event-stream; charset=utf-8'')" by code_simp+
  have cfg: "trc_max_response_body_bytes demo_route_config = 65536"
    by (simp add: demo_route_config_def task_routing_default_def)
  have payloads: "timed_payloads 65536 sse_scan_default ?cbs ?fin = [(ascii demo_text, \<lambda>_. 8)]"
    by (simp add: scan_body_def scan_chunk_fold scan_step_def scan_phase_def scan_limit_def
        sse_scan_default_def scan_process_line_def flush_sse_state_def demo_text_def ascii_def)
  have whole: "ascii ''data: '' @ ascii demo_text @ [LF] = concat (run_chunks ?cbs ?fin)"
    unfolding chunks by (simp add: ascii_def)
  have nonempty: "[] \<notin> set (run_chunks ?cbs ?fin)" "ascii ''data: '' @ ascii demo_text @ [LF] \<noteq> []"
    unfolding chunks by (simp_all add: ascii_def)
  have "demo_request ''SendStreamingMessage'' ''a2a.method'' \<in> {Some ''SendStreamingMessage'', Some ''SubscribeToTask''}"
    "trc_max_response_body_bytes demo_route_config \<le> u64_max"
    by (simp_all add: demo_request_def cfg u64_max_def)
  note capture = stream_capture_exact [where gm = "\<lambda>m k. m k" and cluster = "''alpha''" and sj = demo_serde
      and s = "route_store_new (\<lambda>_. 0)", OF refl demo_request_clean this(1) head nonempty(1) this(2) whole nonempty(2) refl,
      THEN conjunct2]
  have "record_payloads demo_serde ''alpha'' demo_route_config [(ascii demo_text, \<lambda>_. 8)] (route_store_new (\<lambda>_. 0)) =
      store_task_route demo_value ''alpha'' demo_route_config (\<lambda>_. 8) (route_store_new (\<lambda>_. 0))"
    by (simp add: record_payloads_def demo_serde_def demo_from_slice_def demo_text_def ascii_def is_json_space_def)
  moreover have "fst (get_by_task_id (store_task_route demo_value ''alpha'' demo_route_config (\<lambda>_. 8) (route_store_new (\<lambda>_. 0)))
      ''t1'' (\<lambda>_. 9)) = Some ''alpha''" by code_simp
  ultimately show ?thesis unfolding capture cfg payloads by simp
qed

end
