(* ===== verification/A2a_Filter.thy ===== *)
theory A2a_Filter
  imports A2a_Ownership
begin

text \<open>
  The request side of the agent-to-agent filter, \<^verbatim>\<open>filters/src/agentic/a2a/mod.rs\<close>: classification of a
  request into metadata, headers and filter results, and the route lookup that pins it to the
  cluster owning its task or context. What the proxy framework provides is the record \<open>praxis_api\<close>:
  the setter of metadata, the fallible setter of filter results and the bound on dynamic values.
  The last property closes the loop: what a response taught the filter decides where the next
  request of that task goes.
\<close>

section \<open>Operations\<close>

record 'r praxis_api =
  pa_set_metadata :: "metadata \<Rightarrow> string \<Rightarrow> string \<Rightarrow> metadata"
  pa_results_set :: "'r \<Rightarrow> string \<Rightarrow> string \<Rightarrow> filter_error + 'r"
  pa_max_dynamic_value_len :: nat

record json_rpc_envelope =
  je_method :: "string option"
  je_kind :: string

record 'r request_ctx =
  rq_metadata :: metadata
  rq_extra_request_headers :: "(string \<times> string) list"
  rq_results :: 'r

definition is_promotable :: "'r praxis_api \<Rightarrow> string \<Rightarrow> bool" where
  "is_promotable api v \<longleftrightarrow> \<not> contains_control_chars v \<and> length v \<le> pa_max_dynamic_value_len api"

definition set_safe_metadata :: "'r praxis_api \<Rightarrow> string \<Rightarrow> string option \<Rightarrow> metadata \<Rightarrow> metadata" where
  "set_safe_metadata api key v m =
     (case v of None \<Rightarrow> m | Some x \<Rightarrow> if is_promotable api x then pa_set_metadata api m key x else m)"

definition write_metadata :: "'r praxis_api \<Rightarrow> json_rpc_envelope \<Rightarrow> a2a_envelope \<Rightarrow> metadata \<Rightarrow> metadata" where
  "write_metadata api envelope a2a m =
     (let method_str = method_as_str (ae_method a2a);
          m1 = set_safe_metadata api ''json_rpc.method'' (je_method envelope) m;
          m2 = (if is_promotable api method_str then pa_set_metadata api m1 ''a2a.method'' method_str else m1);
          m3 = pa_set_metadata api m2 ''json_rpc.kind'' (je_kind envelope);
          m4 = set_safe_metadata api ''a2a.original_method'' (ae_original_method a2a) m3;
          m5 = pa_set_metadata api m4 ''a2a.family'' (family_as_str (ae_family a2a));
          m6 = pa_set_metadata api m5 ''a2a.streaming'' (show_bool (ae_streaming a2a));
          m7 = set_safe_metadata api ''a2a.context_id'' (ae_context_id a2a) m6;
          m8 = set_safe_metadata api ''a2a.task_id'' (ae_task_id a2a) m7
      in set_safe_metadata api ''a2a.version'' (ae_version a2a) m8)"

definition promote_optional_header ::
  "'r praxis_api \<Rightarrow> string option \<Rightarrow> string option \<Rightarrow> (string \<times> string) list \<Rightarrow> (string \<times> string) list" where
  "promote_optional_header api header_name v headers =
     (case (header_name, v) of
        (Some n, Some x) \<Rightarrow> if is_promotable api x then headers @ [(n, x)] else headers
      | _ \<Rightarrow> headers)"

definition push_header :: "string option \<Rightarrow> string \<Rightarrow> (string \<times> string) list \<Rightarrow> (string \<times> string) list" where
  "push_header header_name v headers = (case header_name of None \<Rightarrow> headers | Some n \<Rightarrow> headers @ [(n, v)])"

definition promote_a2a_headers ::
  "'r praxis_api \<Rightarrow> a2a_envelope \<Rightarrow> json_rpc_envelope \<Rightarrow> a2a_config \<Rightarrow> (string \<times> string) list \<Rightarrow> (string \<times> string) list" where
  "promote_a2a_headers api a2a envelope config headers =
     (let h = ac_headers config;
          method_str = method_as_str (ae_method a2a);
          hs1 = (if is_promotable api method_str then push_header (ah_method h) method_str headers else headers);
          hs2 = push_header (ah_family h) (family_as_str (ae_family a2a)) hs1;
          hs3 = promote_optional_header api (ah_context_id h) (ae_context_id a2a) hs2;
          hs4 = promote_optional_header api (ah_task_id h) (ae_task_id a2a) hs3;
          hs5 = push_header (ah_kind h) (je_kind envelope) hs4;
          hs6 = push_header (ah_streaming h) (show_bool (ae_streaming a2a)) hs5
      in promote_optional_header api (ah_version h) (ae_version a2a) hs6)"

definition set_optional_result :: "'r praxis_api \<Rightarrow> 'r \<Rightarrow> string \<Rightarrow> string option \<Rightarrow> filter_error + 'r" where
  "set_optional_result api results key v =
     (case v of None \<Rightarrow> Inr results
      | Some x \<Rightarrow> if is_promotable api x then pa_results_set api results key x else Inr results)"

text \<open>The results set before an error stay set: the pair of the error, if any, and the results.\<close>

fun set_results ::
  "('r \<Rightarrow> filter_error + 'r) list \<Rightarrow> 'r \<Rightarrow> filter_error option \<times> 'r" where
  "set_results [] results = (None, results)"
| "set_results (f # fs) results =
     (case f results of Inl e \<Rightarrow> (Some e, results) | Inr results' \<Rightarrow> set_results fs results')"

definition promote_filter_results ::
  "'r praxis_api \<Rightarrow> json_rpc_envelope \<Rightarrow> a2a_envelope \<Rightarrow> 'r \<Rightarrow> filter_error option \<times> 'r" where
  "promote_filter_results api envelope a2a results =
     (let method_str = method_as_str (ae_method a2a)
      in set_results
        ((if is_promotable api method_str then [\<lambda>r. pa_results_set api r ''method'' method_str] else []) @
         [\<lambda>r. pa_results_set api r ''family'' (family_as_str (ae_family a2a)),
          \<lambda>r. pa_results_set api r ''streaming'' (show_bool (ae_streaming a2a)),
          \<lambda>r. pa_results_set api r ''kind'' (je_kind envelope),
          \<lambda>r. set_optional_result api r ''context_id'' (ae_context_id a2a),
          \<lambda>r. set_optional_result api r ''task_id'' (ae_task_id a2a),
          \<lambda>r. set_optional_result api r ''version'' (ae_version a2a)])
        results)"

definition lookup_task_route ::
  "'r praxis_api \<Rightarrow> a2a_envelope \<Rightarrow> a2a_config \<Rightarrow> clock \<Rightarrow> 'r request_ctx \<times> route_store \<Rightarrow> 'r request_ctx \<times> route_store" where
  "lookup_task_route api a2a config clk cs =
     (case cs of (ctx, store) \<Rightarrow>
       (let task_id = (if is_task_routable (ae_method a2a) then ae_task_id a2a else None);
            context_id = (if is_context_routable (ae_method a2a) then ae_context_id a2a else None);
            set_meta = (\<lambda>k v ctx. ctx\<lparr>rq_metadata := pa_set_metadata api (rq_metadata ctx) k v\<rparr>)
        in if task_id = None \<and> context_id = None then (ctx, store)
           else
             (case attempt_route_lookup store task_id context_id clk of
                (Some (cluster, source), store') \<Rightarrow>
                  (set_meta ''a2a.route_cluster'' cluster
                    (set_meta ''a2a.route_source'' (route_source_as_str source)
                      (set_meta ''a2a.route_decision''
                        (case source of RouteSource_Task \<Rightarrow> ''task_route_hit'' | RouteSource_Context \<Rightarrow> ''context_route_hit'')
                        (ctx\<lparr>rq_extra_request_headers := rq_extra_request_headers ctx @
                               [(trc_route_cluster_header (ac_task_routing config), cluster)]\<rparr>))),
                   store')
              | (None, store') \<Rightarrow>
                  (set_meta ''a2a.route_decision''
                    (if task_id \<noteq> None then ''task_route_miss'' else ''context_route_miss'') ctx,
                   store'))))"

text \<open>What the parser of the framework made of the body: an action of its own, nothing yet, or a request.\<close>

record parsed_rpc =
  pr_value :: json
  pr_method :: string
  pr_envelope :: json_rpc_envelope

datatype 'a request_outcome = Req_Continue | Req_Release | Req_Parser 'a | Req_Error filter_error

definition on_request_body ::
  "'r praxis_api \<Rightarrow> a2a_config \<Rightarrow> (string \<Rightarrow> string option) \<Rightarrow> 'a + parsed_rpc option \<Rightarrow> clock \<Rightarrow>
   'r request_ctx \<times> route_store \<Rightarrow> 'a request_outcome \<times> 'r request_ctx \<times> route_store" where
  "on_request_body api config header_str parsed clk cs =
     (case cs of (ctx, store) \<Rightarrow>
       (case parsed of
          Inl action \<Rightarrow> (Req_Parser action, cs)
        | Inr None \<Rightarrow> (Req_Continue, cs)
        | Inr (Some p) \<Rightarrow>
            (let a2a = extract_a2a_envelope (pr_value p) (pr_method p) (ac_method_aliases config) header_str;
                 ctx1 = ctx\<lparr>rq_metadata := write_metadata api (pr_envelope p) a2a (rq_metadata ctx),
                            rq_extra_request_headers :=
                              promote_a2a_headers api a2a (pr_envelope p) config (rq_extra_request_headers ctx)\<rparr>
             in case promote_filter_results api (pr_envelope p) a2a (rq_results ctx1) of
                  (Some e, r) \<Rightarrow> (Req_Error e, ctx1\<lparr>rq_results := r\<rparr>, store)
                | (None, r) \<Rightarrow>
                    (Req_Release,
                     (if trc_enabled (ac_task_routing config)
                      then lookup_task_route api a2a config clk (ctx1\<lparr>rq_results := r\<rparr>, store)
                      else (ctx1\<lparr>rq_results := r\<rparr>, store))))))"

section \<open>Recording as store operations\<close>

definition capture_ops :: "json \<Rightarrow> string \<Rightarrow> task_routing_config \<Rightarrow> clock \<Rightarrow> route_op list" where
  "capture_ops v cluster config clk =
     (case extract_task_route v of
        None \<Rightarrow> []
      | Some ex \<Rightarrow>
          (if ex_terminal ex \<and> trc_terminal_ttl_seconds config = 0 then Remove_Task (ex_task_id ex)
           else Put_Task (ex_task_id ex) cluster (route_ttl (ex_terminal ex) config) clk) #
          (case ex_context_id ex of
             None \<Rightarrow> []
           | Some cid \<Rightarrow> [Put_Context cid cluster (duration_from_secs (trc_ttl_seconds config)) (\<lambda>i. clk (i + 4))]))"

lemma store_task_route_ops: "store_task_route v cluster config clk s = route_run (capture_ops v cluster config clk) s"
  by (simp add: store_task_route_def capture_ops_def route_run_def Let_def split: option.split)

lemma route_run_append: "route_run (xs @ ys) s = route_run ys (route_run xs s)"
  by (simp add: route_run_def)

lemma task_writes_append: "task_writes (xs @ ys) = task_writes xs @ task_writes ys"
  by (simp add: task_writes_def)

text \<open>Whether an operation writes a task.\<close>

fun writes_task :: "string \<Rightarrow> route_op \<Rightarrow> bool" where
  "writes_task k (Put_Task k' c ttl clk) \<longleftrightarrow> k' = k"
| "writes_task k (Remove_Task k') \<longleftrightarrow> k' = k"
| "writes_task k _ \<longleftrightarrow> False"

lemma last_write_frame:
  "list_all (\<lambda>x. \<not> writes_task k x) ops \<Longrightarrow> fold last_write (task_writes ops) sp k = sp k"
proof (induction ops arbitrary: sp)
  case (Cons x ops)
  then show ?case by (cases x) (auto simp: task_writes_def split: option.split)
qed (simp add: task_writes_def)

lemma captured_route:
  assumes "extract_task_route v = Some ex" and "\<not> ex_terminal ex"
    and "clk 0 + duration_from_secs (trc_ttl_seconds config) < duration_from_secs (2 ^ 63)"
  shows "fold last_write (task_writes (capture_ops v cluster config clk)) sp (ex_task_id ex) =
    Some \<lparr>tr_cluster = cluster, tr_expires_at = clk 0 + duration_from_secs (trc_ttl_seconds config)\<rparr>"
proof -
  have "validate_id (ex_task_id ex)"
    using assms(1) unfolding extract_task_route_def extract_from_task_object_def extract_from_status_update_def
      extract_from_artifact_update_def by (auto split: option.splits if_splits)
  then show ?thesis using assms
    by (auto simp: capture_ops_def task_writes_def try_route_def instant_checked_add_def route_ttl_def split: option.split)
qed

lemma owned_lookup:
  assumes "extract_task_route v = Some ex" and "\<not> ex_terminal ex"
    and "ops = ops1 @ capture_ops v cluster config clk @ ops2"
    and "list_all (\<lambda>x. \<not> writes_task (ex_task_id ex) x) ops2" and "list_all (read_before t) (task_writes ops)"
    and "length (keys_put (task_writes ops)) \<le> MAX_TASK_ROUTES"
    and "t < clk 0 + duration_from_secs (trc_ttl_seconds config)"
    and "clk 0 + duration_from_secs (trc_ttl_seconds config) < duration_from_secs (2 ^ 63)"
  shows "fst (route_read (rs_tasks (route_run ops (route_store_new c))) (ex_task_id ex) t) = Some cluster"
proof -
  have "fold last_write (task_writes ops) Map.empty (ex_task_id ex) =
      Some \<lparr>tr_cluster = cluster, tr_expires_at = clk 0 + duration_from_secs (trc_ttl_seconds config)\<rparr>"
    using captured_route [where clk = clk and config = config and cluster = cluster, OF assms(1,2,8)]
      last_write_frame [OF assms(4)]
    by (simp add: assms(3) task_writes_append)
  with table_run_lookup [OF assms(5,6), of "c 0" "ex_task_id ex"] assms(7) show ?thesis
    by (simp add: run_new_tasks route_at_def)
qed

lemma lookup_hit:
  assumes "is_task_routable (ae_method a2a)" and "ae_task_id a2a = Some tid"
    and "fst (route_read (rs_tasks store) tid (clk 0)) = Some cluster"
  shows "rq_extra_request_headers (fst (lookup_task_route api a2a config clk (ctx, store))) =
    rq_extra_request_headers ctx @ [(trc_route_cluster_header (ac_task_routing config), cluster)]"
proof -
  have "fst (get_by_task_id store tid clk) = Some cluster" using assms(3) by (simp add: get_by_task_id_read)
  then obtain s' where "get_by_task_id store tid clk = (Some cluster, s')" by (metis prod.collapse)
  with assms(1,2) show ?thesis
    by (simp add: lookup_task_route_def attempt_route_lookup_def Let_def)
qed

section \<open>Properties\<close>

text \<open>
  C4. Requests follow their task. A cluster answers a message or a subscription with a successful JSON
  body, in any chunks and within the size limit, that names a task which is not in a terminal state.
  Before it the store went through any run of other operations, and after it through any operations
  that do not write this task; over the whole run no more than \<open>MAX_TASK_ROUTES\<close> (50,000) different
  task ids are put, since a full table refuses new ones, and no reading of the clock is later than
  the request. Then a later request that names the task in a routable method, is not rejected and
  comes within the lifetime of the route leaves the filter with the route header naming that
  cluster as its last header.
\<close>

theorem task_follows_owner:
  assumes "json_text_laws sj" and "\<And>m k. gm m k = m k" and "no_response_state m"
    and "m ''a2a.method'' \<in> {Some ''SendMessage'', Some ''SendStreamingMessage'', Some ''SubscribeToTask''}"
    and "rh_success h" and "\<not> has_sse_body h"
    and "length (run_bytes cbs end_cb) \<le> trc_max_response_body_bytes config"
    and "trc_max_response_body_bytes config \<le> u64_max"
    and "sj_from_slice sj (run_bytes cbs end_cb) = Some v"
    and "extract_task_route v = Some ex" and "\<not> ex_terminal ex"
    and "s1 = snd (response_run gm sj config cbs end_cb (on_response gm True (Some h) (Some cluster) m,
           route_run ops1 (route_store_new c)))"
    and "ops = ops1 @ capture_ops v cluster config (snd end_cb) @ ops2"
    and "list_all (\<lambda>x. \<not> writes_task (ex_task_id ex) x) ops2" and "list_all (read_before t) (task_writes ops)"
    and "length (keys_put (task_writes ops)) \<le> MAX_TASK_ROUTES"
    and "t < snd end_cb 0 + duration_from_secs (trc_ttl_seconds config)"
    and "snd end_cb 0 + duration_from_secs (trc_ttl_seconds config) < duration_from_secs (2 ^ 63)"
    and "ac_task_routing acfg = config" and "trc_enabled config" and "clk 0 = t"
    and "is_task_routable (from_method_str (pr_method p) (ac_method_aliases acfg))"
    and "extract_task_id (pr_value p) (from_method_str (pr_method p) (ac_method_aliases acfg)) = Some (ex_task_id ex)"
    and "on_request_body api acfg hs (Inr (Some p)) clk (ctx, route_run ops2 s1) = (Req_Release, ctx', s')"
  shows "last (rq_extra_request_headers ctx') = (trc_route_cluster_header config, cluster)"
proof -
  let ?a2a = "extract_a2a_envelope (pr_value p) (pr_method p) (ac_method_aliases acfg) hs"
  have "s1 = store_task_route v cluster config (snd end_cb) (route_run ops1 (route_store_new c))"
    using body_capture [where gm = gm, OF assms(1-8)] assms(9,12) by simp
  then have "route_run ops2 s1 = route_run ops (route_store_new c)"
    by (simp add: assms(13) store_task_route_ops route_run_append)
  then have "fst (route_read (rs_tasks (route_run ops2 s1)) (ex_task_id ex) (clk 0)) = Some cluster"
    using owned_lookup [where clk = "snd end_cb", OF assms(10,11,13-18)] assms(21) by simp
  moreover have "is_task_routable (ae_method ?a2a)" "ae_task_id ?a2a = Some (ex_task_id ex)"
    using assms(22,23) by (simp_all add: extract_a2a_envelope_def Let_def)
  ultimately show ?thesis
    using assms(19,20,24) lookup_hit [where a2a = ?a2a and tid = "ex_task_id ex" and config = acfg and api = api
        and store = "route_run ops2 s1" and clk = clk and cluster = cluster]
    by (auto simp: on_request_body_def Let_def split: prod.splits option.splits) (metis fst_conv last_snoc)+
qed

definition demo_api :: "(string \<times> string) list praxis_api" where
  "demo_api =
     \<lparr>pa_set_metadata = (\<lambda>m k v. m(k \<mapsto> v)), pa_results_set = (\<lambda>r k v. Inr (r @ [(k, v)])),
      pa_max_dynamic_value_len = 256\<rparr>"

definition demo_follow_up :: parsed_rpc where
  "demo_follow_up =
     \<lparr>pr_value = JObject [(''params'', JObject [(''id'', JString ''t1'')])], pr_method = ''GetTask'',
      pr_envelope = \<lparr>je_method = Some ''GetTask'', je_kind = ''request''\<rparr>\<rparr>"

definition demo_ctx :: "(string \<times> string) list request_ctx" where
  "demo_ctx = \<lparr>rq_metadata = Map.empty, rq_extra_request_headers = [], rq_results = []\<rparr>"

definition demo_other_ops :: "route_op list" where
  "demo_other_ops = [Put_Task ''t2'' ''beta'' 100 (\<lambda>_. 8), Recheck_Task ''t1'' 8]"

lemma demo_released:
  "fst (on_request_body demo_api demo_a2a_config (\<lambda>_. None) (Inr (Some demo_follow_up)) clk (demo_ctx, s)) = Req_Release"
  by (simp add: on_request_body_def promote_filter_results_def set_optional_result_def demo_api_def Let_def
      split: option.split prod.split)

theorem task_follows_owner_witness:
  "last (rq_extra_request_headers (fst (snd (on_request_body demo_api demo_a2a_config (\<lambda>_. None) (Inr (Some demo_follow_up) :: unit + parsed_rpc option)
     (\<lambda>_. 9) (demo_ctx, route_run demo_other_ops (snd (response_run (\<lambda>m k. m k) demo_serde demo_route_config demo_callbacks
       (None, \<lambda>_. 8) (on_response (\<lambda>m k. m k) True (Some (demo_head ''application/json'')) (Some ''alpha'')
          (demo_request ''SendMessage''), route_run [] (route_store_new (\<lambda>_. 0)))))))))) =
   (''x-praxis-a2a-route-cluster'', ''alpha'')"
proof -
  let ?s = "snd (response_run (\<lambda>m k. m k) demo_serde demo_route_config demo_callbacks
       (None, \<lambda>_. 8) (on_response (\<lambda>m k. m k) True (Some (demo_head ''application/json'')) (Some ''alpha'')
          (demo_request ''SendMessage''), route_run [] (route_store_new (\<lambda>_. 0))))"
  let ?ops = "[] @ capture_ops demo_value ''alpha'' demo_route_config (snd (None :: bytes option, \<lambda>_. 8)) @ demo_other_ops"
  let ?r = "on_request_body demo_api demo_a2a_config (\<lambda>_. None) (Inr (Some demo_follow_up) :: unit + parsed_rpc option) (\<lambda>_. 9)
      (demo_ctx, route_run demo_other_ops ?s)"
  obtain ctx' s' where r: "?r = (Req_Release, ctx', s')" using demo_released by (metis prod.collapse)
  have bytes: "run_bytes demo_callbacks (None, \<lambda>_. 8) = ascii demo_text @ [0x0A]"
    by (simp add: run_bytes_def demo_callbacks_def)
  have parse: "sj_from_slice demo_serde (run_bytes demo_callbacks (None, \<lambda>_. 8)) = Some demo_value"
    by (simp add: bytes demo_serde_def demo_from_slice_def demo_text_def ascii_def is_json_space_def)
  have len: "length (run_bytes demo_callbacks (None, \<lambda>_. 8)) \<le> trc_max_response_body_bytes demo_route_config"
    "trc_max_response_body_bytes demo_route_config \<le> u64_max"
    unfolding bytes using demo_text_facts(1)
    by (simp_all add: ascii_def demo_route_config_def task_routing_default_def u64_max_def)
  have ex: "extract_task_route demo_value = Some \<lparr>ex_terminal = False, ex_task_id = ''t1'', ex_context_id = None\<rparr>"
    by code_simp
  have "last (rq_extra_request_headers ctx') = (trc_route_cluster_header demo_route_config, ''alpha'')"
  proof (rule task_follows_owner [where gm = "\<lambda>m k. m k" and ops = ?ops and t = 9, OF demo_serde_laws refl demo_request_clean _ _ _
      len parse ex _ refl refl _ _ _ _ _ _ _ _ _ _ r])
    show "length (keys_put (task_writes ?ops)) \<le> MAX_TASK_ROUTES" by code_simp
    show "list_all (read_before 9) (task_writes ?ops)" by code_simp
    show "rh_success (demo_head ''application/json'')" "\<not> has_sse_body (demo_head ''application/json'')" by code_simp+
    show "extract_task_id (pr_value demo_follow_up) (from_method_str (pr_method demo_follow_up) (ac_method_aliases demo_a2a_config)) =
      Some (ex_task_id \<lparr>ex_terminal = False, ex_task_id = ''t1'', ex_context_id = None\<rparr>)" by code_simp
    show "is_task_routable (from_method_str (pr_method demo_follow_up) (ac_method_aliases demo_a2a_config))" by code_simp
  qed (simp_all add: demo_request_def demo_other_ops_def demo_route_config_def demo_a2a_config_def task_routing_default_def
      duration_from_secs_def)
  moreover have "trc_route_cluster_header demo_route_config = ''x-praxis-a2a-route-cluster''"
    by (simp add: demo_route_config_def task_routing_default_def)
  ultimately show ?thesis unfolding r by simp
qed

end
