(* ===== verification/Route_Candidates.thy ===== *)
theory Route_Candidates
  imports Promotion
begin

text \<open>
  The candidates of intelligent routing: \<^verbatim>\<open>filters/src/routing/descriptor.rs\<close> and the credential references of
  \<^verbatim>\<open>filters/src/routing/metadata.rs\<close>. The parsers of header names and header values, and SHA-256, are
  code of other packages: the record \<open>route_lib\<close>, whose parsers return the message of their error.
  Shared strings (\<^verbatim>\<open>Arc<str>\<close>) are strings, 32-bit numbers are natural numbers.
\<close>

section \<open>Definitions\<close>

record route_lib =
  rl_header_value :: "string \<Rightarrow> string + unit"
  rl_header_name :: "string \<Rightarrow> string + string"
  rl_sha256 :: "bytes \<Rightarrow> bytes"

definition MAX_CANDIDATES :: nat where "MAX_CANDIDATES = 1024"
definition MAX_NAME_LEN :: nat where "MAX_NAME_LEN = 256"
definition MAX_PATHS_PER_CANDIDATE :: nat where "MAX_PATHS_PER_CANDIDATE = 16"

definition RESERVED_HEADER_PREFIXES :: "string list" where
  "RESERVED_HEADER_PREFIXES = [''x-praxis-'', ''x-mcp-'']"

datatype capability_kind = InferenceModel | McpTool

datatype admission_state = NewAndExisting | ExistingOnly | Excluded

definition admission_default :: admission_state where
  "admission_default = NewAndExisting"

fun admission_as_str :: "admission_state \<Rightarrow> string" where
  "admission_as_str NewAndExisting = ''new_and_existing''"
| "admission_as_str ExistingOnly = ''existing_only''"
| "admission_as_str Excluded = ''none''"

definition admission_from_overlay_str :: "string \<Rightarrow> string + admission_state" where
  "admission_from_overlay_str s =
     (if s = ''new_and_existing'' then Inr NewAndExisting
      else if s = ''existing_only'' then Inr ExistingOnly
      else if s = ''none'' then Inr Excluded
      else Inl (''unknown admission_state: '' @ s))"

fun kind_as_str :: "capability_kind \<Rightarrow> string" where
  "kind_as_str InferenceModel = ''inference_model''"
| "kind_as_str McpTool = ''mcp_tool''"

definition kind_from_overlay_str :: "string \<Rightarrow> filter_error + capability_kind" where
  "kind_from_overlay_str s =
     (if s = ''inference_model'' then Inr InferenceModel
      else if s = ''mcp_tool'' then Inr McpTool
      else Inl (''routing: unknown candidate kind: '' @ s))"

record credential_ref =
  cr_key :: string
  cr_name :: string
  cr_namespace :: string

record candidate_credential =
  cd_strategy :: string
  cd_secret_ref :: credential_ref

definition is_supported_strategy :: "string \<Rightarrow> bool" where
  "is_supported_strategy strategy \<longleftrightarrow> strategy = ''bearer_token'' \<or> strategy = ''apikey''"

record candidate_config =
  cc_cluster :: string
  cc_provider :: "string option"
  cc_target_model :: "string option"
  cc_paths :: "string list option"
  cc_catalog :: "string list option"
  cc_display_name :: "string option"
  cc_owned_by :: "string option"
  cc_created :: "int option"
  cc_credential :: "candidate_credential option"
  cc_fresh :: bool
  cc_kind :: capability_kind
  cc_name :: string
  cc_site :: string
  cc_traffic_weight :: "nat option"

record route_candidate =
  rc_admission_state :: admission_state
  rc_cluster :: string
  rc_provider :: "string option"
  rc_target_model :: "string option"
  rc_paths :: "string list option"
  rc_catalog :: "string list option"
  rc_display_name :: "string option"
  rc_owned_by :: "string option"
  rc_created :: "int option"
  rc_credential :: "candidate_credential option"
  rc_fresh :: bool
  rc_kind :: capability_kind
  rc_name :: string
  rc_rank :: "nat option"
  rc_selection_group :: "nat option"
  rc_traffic_weight :: "nat option"
  rc_selection_tier :: "string option"
  rc_site :: string
  rc_stable_id :: string

text \<open>\<^verbatim>\<open>len().to_be_bytes()\<close> of a 64-bit length.\<close>

definition usize_be_bytes :: "nat \<Rightarrow> bytes" where
  "usize_be_bytes n = map (\<lambda>i. word_of_nat (n div 256 ^ (7 - i))) [0..<8]"

definition default_stable_id :: "route_lib \<Rightarrow> capability_kind \<Rightarrow> string \<Rightarrow> string \<Rightarrow> string \<Rightarrow> string" where
  "default_stable_id lib kind name site cluster =
     (let readable = kind_as_str kind @ ''/'' @ name @ ''/'' @ site @ ''/'' @ cluster
      in if length readable \<le> 256 \<and> rl_header_value lib readable = Inr () then readable
         else ''sha256:'' @ encode_hex (rl_sha256 lib
                (concat (map (\<lambda>field. usize_be_bytes (length field) @ ascii field)
                             [kind_as_str kind, name, site, cluster]))))"

definition validate_name :: "string \<Rightarrow> string \<Rightarrow> filter_error + unit" where
  "validate_name field v =
     res_guard (is_blank v \<or> MAX_NAME_LEN < length v)
       (''routing: '' @ field @ '' must be 1-'' @ show_nat MAX_NAME_LEN @ '' non-blank characters'')"

definition validate_local_site :: "string \<Rightarrow> filter_error + unit" where
  "validate_local_site v = validate_name ''local_site'' v"

definition candidate_field :: "nat \<Rightarrow> string \<Rightarrow> string" where
  "candidate_field i f = ''candidates['' @ show_nat i @ ''].'' @ f"

fun validate_paths_from :: "nat \<Rightarrow> string list \<Rightarrow> string list \<Rightarrow> filter_error + string list" where
  "validate_paths_from i validated [] = Inr validated"
| "validate_paths_from i validated (path # paths) =
     (if \<not> starts_with path ''/'' \<or> CHR ''?'' \<in> set path \<or> CHR ''#'' \<in> set path \<or> 512 < length path
      then Inl (''routing: '' @ candidate_field i ''paths entry must be an absolute path without query or fragment'')
      else if path \<in> set validated then Inl (''routing: '' @ candidate_field i ''paths contains a duplicate path'')
      else validate_paths_from i (validated @ [path]) paths)"

definition validate_paths :: "nat \<Rightarrow> bool \<Rightarrow> string list option \<Rightarrow> filter_error + string list option" where
  "validate_paths i has_target_model paths =
     (case paths of
        None \<Rightarrow> Inr None
      | Some ps \<Rightarrow>
          if \<not> has_target_model then Inl (''routing: '' @ candidate_field i ''paths requires target_model'')
          else if ps = [] \<or> MAX_PATHS_PER_CANDIDATE < length ps
          then Inl (''routing: '' @ candidate_field i ''paths must contain 1-'' @
                    show_nat MAX_PATHS_PER_CANDIDATE @ '' paths'')
          else res_bind (validate_paths_from i [] ps) (\<lambda>v. Inr (Some v)))"

fun validate_catalog_from :: "nat \<Rightarrow> string list \<Rightarrow> string list \<Rightarrow> filter_error + string list" where
  "validate_catalog_from i validated [] = Inr validated"
| "validate_catalog_from i validated (v # vs) =
     (if v \<noteq> ''openai'' \<and> v \<noteq> ''anthropic''
      then Inl (''routing: '' @ candidate_field i ''catalog entry must be openai or anthropic'')
      else validate_catalog_from i (if v \<in> set validated then validated else validated @ [v]) vs)"

definition validate_catalog :: "nat \<Rightarrow> string list option \<Rightarrow> filter_error + string list option" where
  "validate_catalog i catalog =
     (case catalog of None \<Rightarrow> Inr None
      | Some vs \<Rightarrow> res_bind (validate_catalog_from i [] vs) (\<lambda>v. Inr (Some v)))"

definition validate_credential :: "nat \<Rightarrow> candidate_credential option \<Rightarrow> filter_error + unit" where
  "validate_credential i credential =
     (case credential of
        None \<Rightarrow> Inr ()
      | Some c \<Rightarrow>
          if \<not> is_supported_strategy (cd_strategy c)
          then Inl (''routing: '' @ candidate_field i ''credential.strategy is unsupported'')
          else
            res_bind (validate_name (candidate_field i ''credential.secretRef.name'') (cr_name (cd_secret_ref c))) (\<lambda>_.
            res_bind (validate_name (candidate_field i ''credential.secretRef.namespace'') (cr_namespace (cd_secret_ref c))) (\<lambda>_.
              validate_name (candidate_field i ''credential.secretRef.key'') (cr_key (cd_secret_ref c)))))"

definition validate_optional_name :: "string \<Rightarrow> string option \<Rightarrow> filter_error + unit" where
  "validate_optional_name field v = (case v of None \<Rightarrow> Inr () | Some x \<Rightarrow> validate_name field x)"

type_synonym identity = "capability_kind \<times> string \<times> string \<times> string"

definition config_identity :: "candidate_config \<Rightarrow> identity" where
  "config_identity c = (cc_kind c, cc_name c, cc_site c, cc_cluster c)"

definition validate_candidate ::
  "route_lib \<Rightarrow> identity set \<Rightarrow> nat \<Rightarrow> candidate_config \<Rightarrow> filter_error + route_candidate" where
  "validate_candidate lib seen i c =
     res_bind (validate_name (candidate_field i ''name'') (cc_name c)) (\<lambda>_.
     res_bind (validate_name (candidate_field i ''site'') (cc_site c)) (\<lambda>_.
     res_bind (validate_name (candidate_field i ''cluster'') (cc_cluster c)) (\<lambda>_.
     res_bind (validate_optional_name (candidate_field i ''provider'') (cc_provider c)) (\<lambda>_.
     res_bind (validate_optional_name (candidate_field i ''target_model'') (cc_target_model c)) (\<lambda>_.
     res_bind (validate_paths i (cc_target_model c \<noteq> None) (cc_paths c)) (\<lambda>paths.
     res_bind (validate_catalog i (cc_catalog c)) (\<lambda>catalog.
     res_bind (validate_credential i (cc_credential c)) (\<lambda>_.
     if config_identity c \<in> seen
     then Inl (''routing: duplicate candidate '' @ quoted (kind_as_str (cc_kind c) @ ''/'' @ cc_name c @ ''/'' @
               cc_site c @ '':'' @ cc_cluster c))
     else Inr
       \<lparr>rc_admission_state = admission_default, rc_cluster = cc_cluster c, rc_provider = cc_provider c,
        rc_target_model = cc_target_model c, rc_paths = paths, rc_catalog = catalog,
        rc_display_name = cc_display_name c, rc_owned_by = cc_owned_by c, rc_created = cc_created c,
        rc_credential = cc_credential c, rc_fresh = cc_fresh c, rc_kind = cc_kind c, rc_name = cc_name c,
        rc_rank = None, rc_selection_group = None, rc_traffic_weight = cc_traffic_weight c,
        rc_selection_tier = None, rc_site = cc_site c,
        rc_stable_id = default_stable_id lib (cc_kind c) (cc_name c) (cc_site c) (cc_cluster c)\<rparr>))))))))"

fun validate_candidates_from ::
  "route_lib \<Rightarrow> identity set \<Rightarrow> nat \<Rightarrow> candidate_config list \<Rightarrow> filter_error + route_candidate list" where
  "validate_candidates_from lib seen i [] = Inr []"
| "validate_candidates_from lib seen i (c # cs) =
     res_bind (validate_candidate lib seen i c) (\<lambda>r.
     res_bind (validate_candidates_from lib (insert (config_identity c) seen) (Suc i) cs) (\<lambda>rs. Inr (r # rs)))"

definition validate_candidates_with_empty ::
  "route_lib \<Rightarrow> candidate_config list \<Rightarrow> bool \<Rightarrow> filter_error + route_candidate list" where
  "validate_candidates_with_empty lib raw allow_empty =
     (if raw = [] \<and> \<not> allow_empty then Inl ''routing: candidates list must not be empty''
      else if MAX_CANDIDATES < length raw
      then Inl (''routing: candidates exceeds maximum of '' @ show_nat MAX_CANDIDATES)
      else validate_candidates_from lib {} 0 raw)"

definition validate_candidates :: "route_lib \<Rightarrow> candidate_config list \<Rightarrow> filter_error + route_candidate list" where
  "validate_candidates lib raw = validate_candidates_with_empty lib raw False"

definition validate_overlay_candidates :: "route_lib \<Rightarrow> candidate_config list \<Rightarrow> filter_error + route_candidate list" where
  "validate_overlay_candidates lib raw = validate_candidates_with_empty lib raw True"

definition validate_model_header :: "route_lib \<Rightarrow> string \<Rightarrow> filter_error + string" where
  "validate_model_header lib raw =
     (if is_blank raw then Inl ''routing: model_header must not be empty''
      else
        (case rl_header_name lib raw of
           Inl e \<Rightarrow> Inl (''routing: invalid model_header: '' @ e)
         | Inr header \<Rightarrow>
             if list_ex (starts_with header) RESERVED_HEADER_PREFIXES
             then Inl ''routing: model_header must not use a reserved internal header prefix''
             else Inr header))"

text \<open>The metadata of a request, and the credential reference in it; the setter is the framework's.\<close>

type_synonym set_metadata = "metadata \<Rightarrow> string \<Rightarrow> string \<Rightarrow> metadata"

definition credential_keys :: "string list" where
  "credential_keys =
     [''intelligent_route.credential.strategy'', ''intelligent_route.credential.name'',
      ''intelligent_route.credential.namespace'', ''intelligent_route.credential.key'']"

definition clear_credential_metadata :: "metadata \<Rightarrow> metadata" where
  "clear_credential_metadata m = m |` (- set credential_keys)"

definition set_credential_metadata :: "set_metadata \<Rightarrow> metadata \<Rightarrow> candidate_credential option \<Rightarrow> metadata" where
  "set_credential_metadata set_meta m credential =
     (let m0 = clear_credential_metadata m
      in case credential of
           None \<Rightarrow> m0
         | Some c \<Rightarrow>
             set_meta (set_meta (set_meta (set_meta m0
               ''intelligent_route.credential.strategy'' (cd_strategy c))
               ''intelligent_route.credential.name'' (cr_name (cd_secret_ref c)))
               ''intelligent_route.credential.namespace'' (cr_namespace (cd_secret_ref c)))
               ''intelligent_route.credential.key'' (cr_key (cd_secret_ref c)))"

section \<open>What validation guarantees\<close>

definition name_ok :: "string \<Rightarrow> bool" where
  "name_ok v \<longleftrightarrow> \<not> is_blank v \<and> length v \<le> MAX_NAME_LEN"

definition path_ok :: "string \<Rightarrow> bool" where
  "path_ok p \<longleftrightarrow> starts_with p ''/'' \<and> CHR ''?'' \<notin> set p \<and> CHR ''#'' \<notin> set p \<and> length p \<le> 512"

definition credential_ok :: "candidate_credential \<Rightarrow> bool" where
  "credential_ok c \<longleftrightarrow>
     is_supported_strategy (cd_strategy c) \<and> name_ok (cr_name (cd_secret_ref c)) \<and>
     name_ok (cr_namespace (cd_secret_ref c)) \<and> name_ok (cr_key (cd_secret_ref c))"

definition candidate_ok :: "route_candidate \<Rightarrow> bool" where
  "candidate_ok r \<longleftrightarrow>
     name_ok (rc_name r) \<and> name_ok (rc_site r) \<and> name_ok (rc_cluster r) \<and>
     pred_option name_ok (rc_provider r) \<and> pred_option name_ok (rc_target_model r) \<and>
     pred_option (\<lambda>ps. rc_target_model r \<noteq> None \<and> ps \<noteq> [] \<and> length ps \<le> MAX_PATHS_PER_CANDIDATE \<and> distinct ps \<and>
                       list_all path_ok ps) (rc_paths r) \<and>
     pred_option (\<lambda>vs. distinct vs \<and> set vs \<subseteq> {''openai'', ''anthropic''}) (rc_catalog r) \<and>
     pred_option credential_ok (rc_credential r)"

definition candidate_identity :: "route_candidate \<Rightarrow> identity" where
  "candidate_identity r = (rc_kind r, rc_name r, rc_site r, rc_cluster r)"

lemma validate_name_Inr [simp]: "validate_name field v = Inr u \<longleftrightarrow> name_ok v"
  by (auto simp: validate_name_def name_ok_def)

lemma validate_optional_name_Inr [simp]: "validate_optional_name field v = Inr u \<longleftrightarrow> pred_option name_ok v"
  by (cases v) (simp_all add: validate_optional_name_def)

lemma validate_paths_from_Inr:
  "validate_paths_from i acc ps = Inr qs \<Longrightarrow> distinct acc \<Longrightarrow>
   qs = acc @ ps \<and> distinct qs \<and> list_all path_ok ps"
  by (induction i "acc" ps rule: validate_paths_from.induct) (auto simp: path_ok_def split: if_splits)

lemma validate_paths_Inr:
  "validate_paths i t ps = Inr qs \<Longrightarrow>
   qs = ps \<and> pred_option (\<lambda>ps. t \<and> ps \<noteq> [] \<and> length ps \<le> MAX_PATHS_PER_CANDIDATE \<and> distinct ps \<and> list_all path_ok ps) ps"
  by (cases ps) (auto simp: validate_paths_def res_bind_Inr_iff split: if_splits dest!: validate_paths_from_Inr)

lemma validate_catalog_from_Inr:
  "validate_catalog_from i acc vs = Inr ws \<Longrightarrow> distinct acc \<Longrightarrow> set acc \<subseteq> {''openai'', ''anthropic''} \<Longrightarrow>
   distinct ws \<and> set ws \<subseteq> {''openai'', ''anthropic''}"
  by (induction i "acc" vs rule: validate_catalog_from.induct) (auto split: if_splits)

lemma validate_catalog_Inr:
  "validate_catalog i vs = Inr ws \<Longrightarrow> pred_option (\<lambda>vs. distinct vs \<and> set vs \<subseteq> {''openai'', ''anthropic''}) ws"
  by (cases vs) (auto simp: validate_catalog_def res_bind_Inr_iff dest!: validate_catalog_from_Inr)

lemma validate_credential_Inr [simp]: "validate_credential i c = Inr u \<longleftrightarrow> pred_option credential_ok c"
  by (cases c) (auto simp: validate_credential_def credential_ok_def res_bind_Inr_iff)

text \<open>A validated candidate carries the fields of its entry, unranked, ungrouped and admitted.\<close>

definition taken_from :: "route_lib \<Rightarrow> candidate_config \<Rightarrow> route_candidate \<Rightarrow> bool" where
  "taken_from lib c r \<longleftrightarrow>
     candidate_identity r = config_identity c \<and> rc_target_model r = cc_target_model c \<and> rc_paths r = cc_paths c \<and>
     rc_credential r = cc_credential c \<and> rc_provider r = cc_provider c \<and> rc_traffic_weight r = cc_traffic_weight c \<and>
     rc_admission_state r = NewAndExisting \<and> rc_rank r = None \<and> rc_selection_group r = None \<and>
     rc_stable_id r = default_stable_id lib (cc_kind c) (cc_name c) (cc_site c) (cc_cluster c)"

lemma validate_candidate_Inr:
  assumes "validate_candidate lib seen i c = Inr r"
  shows "candidate_ok r \<and> taken_from lib c r \<and> candidate_identity r \<notin> seen"
  using assms
  by (auto simp: validate_candidate_def res_bind_Inr_iff candidate_ok_def taken_from_def candidate_identity_def
      config_identity_def admission_default_def split: if_splits dest!: validate_paths_Inr validate_catalog_Inr)

lemma validate_candidates_from_Inr:
  "validate_candidates_from lib seen i cs = Inr rs \<Longrightarrow>
   list_all candidate_ok rs \<and> list_all2 (taken_from lib) cs rs \<and>
   distinct (map candidate_identity rs) \<and> candidate_identity ` set rs \<inter> seen = {}"
proof (induction cs arbitrary: seen i rs)
  case (Cons c cs)
  then obtain r rs' where r: "validate_candidate lib seen i c = Inr r"
    and rs: "validate_candidates_from lib (insert (config_identity c) seen) (Suc i) cs = Inr rs'" "rs = r # rs'"
    by (auto simp: res_bind_Inr_iff)
  from validate_candidate_Inr [OF r] Cons.IH [OF rs(1)] rs(2) show ?case
    by (auto simp: taken_from_def)
qed simp

lemma validate_candidates_Inr:
  assumes "validate_candidates_with_empty lib raw e = Inr rs"
  shows "list_all candidate_ok rs" "list_all2 (taken_from lib) raw rs" "distinct (map candidate_identity rs)"
    "length rs \<le> MAX_CANDIDATES" "rs = [] \<longrightarrow> e"
proof -
  have "validate_candidates_from lib {} 0 raw = Inr rs" and l: "length raw \<le> MAX_CANDIDATES" "raw = [] \<longrightarrow> e"
    using assms by (auto simp: validate_candidates_with_empty_def split: if_splits)
  note v = validate_candidates_from_Inr [OF this(1)]
  then show "list_all candidate_ok rs" "list_all2 (taken_from lib) raw rs" "distinct (map candidate_identity rs)"
    by simp_all
  from v l show "length rs \<le> MAX_CANDIDATES" "rs = [] \<longrightarrow> e"
    by (auto dest: list_all2_lengthD)
qed

text \<open>
  What the other packages document: a header value may hold any visible ASCII character, and a
  SHA-256 digest has 32 bytes. Then the generated identifiers can always travel in a header.
\<close>

definition is_visible :: "char \<Rightarrow> bool" where
  "is_visible c \<longleftrightarrow> 0x20 < (of_char c :: nat) \<and> (of_char c :: nat) < 0x7F"

definition route_lib_laws :: "route_lib \<Rightarrow> bool" where
  "route_lib_laws lib \<longleftrightarrow>
     (\<forall>s. list_all is_visible s \<longrightarrow> rl_header_value lib s = Inr ()) \<and> (\<forall>b. length (rl_sha256 lib b) = 32)"

definition stable_id_ok :: "route_lib \<Rightarrow> string \<Rightarrow> bool" where
  "stable_id_ok lib s \<longleftrightarrow> \<not> is_blank s \<and> length s \<le> 256 \<and> rl_header_value lib s = Inr ()"

lemma kind_not_blank [simp]: "\<not> is_blank (kind_as_str k @ s)"
  by (cases k) (simp_all add: not_blank_visible)

lemma hashed_id_ok:
  assumes "route_lib_laws lib"
  shows "stable_id_ok lib (''sha256:'' @ encode_hex (rl_sha256 lib b))"
proof -
  have "list_all is_visible (encode_hex (rl_sha256 lib b))"
    using encode_hex_lower by (rule list.pred_mono_strong) (auto simp: is_lower_hex_def is_visible_def)
  then have "list_all is_visible (''sha256:'' @ encode_hex (rl_sha256 lib b))" by (simp add: is_visible_def)
  with assms have "rl_header_value lib (''sha256:'' @ encode_hex (rl_sha256 lib b)) = Inr ()"
    unfolding route_lib_laws_def by blast
  moreover have "length (rl_sha256 lib b) = 32" using assms unfolding route_lib_laws_def by blast
  ultimately show ?thesis by (simp add: stable_id_ok_def not_blank_visible)
qed

lemma default_stable_id_ok: "route_lib_laws lib \<Longrightarrow> stable_id_ok lib (default_stable_id lib k n s c)"
  using hashed_id_ok [of lib] unfolding default_stable_id_def Let_def by (simp add: stable_id_ok_def)

text \<open>
  The readable identifier joins its fields with a slash without escaping: distinct candidates whose
  names contain one can share it. The hashed form writes the length of each field first.
\<close>

lemma readable_ids_collide:
  assumes "route_lib_laws lib"
  shows "default_stable_id lib k ''a/b'' ''c'' ''d'' = default_stable_id lib k ''a'' ''b/c'' ''d''"
proof -
  have "list_all is_visible (kind_as_str k @ ''/a/b/c/d'')" by (cases k) (simp_all add: is_visible_def)
  with assms have "rl_header_value lib (kind_as_str k @ ''/a/b/c/d'') = Inr ()" by (simp add: route_lib_laws_def)
  then show ?thesis by (cases k) (simp_all add: default_stable_id_def)
qed

end
