(* ===== verification/Route_Groups.thy ===== *)
theory Route_Groups
  imports Route_Candidates
begin

text \<open>
  Selection inside the groups a producer defines: the index of \<^verbatim>\<open>filters/src/routing/group_index.rs\<close>, the
  picker of \<^verbatim>\<open>filters/src/routing/picker.rs\<close>, and the check of \<^verbatim>\<open>overlay.rs\<close> that ties weights to the picker's mode. The two
  nested hash maps of the index are one map from capabilities. The counter of a group is part of
  the index, which a selection returns updated; \<^verbatim>\<open>fetch_add\<close> on it wraps at 64 bits. The random number
  generator is a parameter: what one call of \<^verbatim>\<open>random_range(0..n)\<close> returns for each \<^verbatim>\<open>n\<close>.
\<close>

section \<open>The index\<close>

type_synonym capability = "capability_kind \<times> string"

record weighted_entry =
  we_candidate_index :: nat
  we_cumulative_upper_bound :: nat

record selection_group =
  sg_number :: nat
  sg_admission_state :: admission_state
  sg_candidate_indexes :: "nat list"
  sg_weighted_entries :: "weighted_entry list"
  sg_total_weight :: nat
  sg_next :: nat

type_synonym group_index = "capability \<rightharpoonup> selection_group list"

definition capability_of :: "route_candidate \<Rightarrow> capability" where
  "capability_of c = (rc_kind c, rc_name c)"

definition at_candidate :: "nat \<Rightarrow> string \<Rightarrow> filter_error" where
  "at_candidate i msg = ''routing: candidate '' @ show_nat i @ '': '' @ msg"

definition append_weight :: "selection_group \<Rightarrow> nat \<Rightarrow> route_candidate \<Rightarrow> filter_error + selection_group" where
  "append_weight grp i candidate =
     (case rc_traffic_weight candidate of
        None \<Rightarrow> Inr grp
      | Some weight \<Rightarrow>
          if \<not> (1 \<le> weight \<and> weight \<le> 1000) then Inl (at_candidate i ''traffic_weight must be between 1 and 1000'')
          else
            res_bind (ok_or (checked_add (sg_total_weight grp) weight) ''routing: traffic weights overflow'') (\<lambda>total.
              Inr (grp\<lparr>sg_total_weight := total,
                         sg_weighted_entries := sg_weighted_entries grp @
                           [\<lparr>we_candidate_index = i, we_cumulative_upper_bound = total\<rparr>]\<rparr>)))"

text \<open>\<^verbatim>\<open>saturating_add(1)\<close> on the 32-bit number of a group.\<close>

definition next_number :: "nat \<Rightarrow> nat" where
  "next_number n = min (2 ^ 32 - 1) (n + 1)"

definition add_to_groups ::
  "selection_group list \<Rightarrow> nat \<Rightarrow> route_candidate \<Rightarrow> nat \<Rightarrow> filter_error + selection_group list" where
  "add_to_groups groups i candidate number =
     (let fresh = res_bind (append_weight
            \<lparr>sg_number = number, sg_admission_state = rc_admission_state candidate, sg_candidate_indexes = [i],
             sg_weighted_entries = [], sg_total_weight = 0, sg_next = 0\<rparr> i candidate) (\<lambda>g. Inr (groups @ [g]))
      in if groups = [] then
           (if number \<noteq> 0 then Inl (at_candidate i ''selection_group must start at 0'') else fresh)
         else
           (let grp = last groups
            in if sg_number grp = number then
                 (if sg_admission_state grp \<noteq> rc_admission_state candidate
                  then Inl (at_candidate i (''selection_group '' @ show_nat number @ '' mixes admission states''))
                  else res_bind (append_weight (grp\<lparr>sg_candidate_indexes := sg_candidate_indexes grp @ [i]\<rparr>) i candidate)
                         (\<lambda>g. Inr (butlast groups @ [g])))
               else if number \<noteq> next_number (sg_number grp)
               then Inl (at_candidate i ''selection_group must be contiguous and monotonic'')
               else fresh))"

fun build_from ::
  "nat \<Rightarrow> group_index \<Rightarrow> (capability \<rightharpoonup> bool) \<Rightarrow> route_candidate list \<Rightarrow> filter_error + group_index" where
  "build_from i index mode [] = Inr index"
| "build_from i index mode (candidate # rest) =
     (let key = capability_of candidate; grouped = rc_selection_group candidate \<noteq> None
      in if mode key = Some (\<not> grouped)
         then Inl (at_candidate i ''capability mixes grouped and ungrouped candidates'')
         else
           (case rc_selection_group candidate of
              None \<Rightarrow> build_from (Suc i) index (mode(key \<mapsto> grouped)) rest
            | Some number \<Rightarrow>
                res_bind (add_to_groups (case index key of None \<Rightarrow> [] | Some gs \<Rightarrow> gs) i candidate number) (\<lambda>gs.
                  build_from (Suc i) (index(key \<mapsto> gs)) (mode(key \<mapsto> grouped)) rest)))"

definition build :: "route_candidate list \<Rightarrow> filter_error + group_index" where
  "build candidates = build_from 0 Map.empty Map.empty candidates"

section \<open>The picker\<close>

datatype picker_policy = Deterministic | RoundRobin | Random | WeightedRandom

type_synonym random_range = "nat \<Rightarrow> nat"

text \<open>
  \<^verbatim>\<open>partition_point\<close> counts the leading entries that satisfy its predicate, on a slice where all of those
  come first; the upper bounds of a group grow, so this is the case here.
\<close>

definition weighted_index_for_draw :: "selection_group \<Rightarrow> nat \<Rightarrow> nat option" where
  "weighted_index_for_draw grp draw =
     (if sg_total_weight grp \<le> draw then None
      else
        (let bucket = length (takeWhile (\<lambda>e. we_cumulative_upper_bound e \<le> draw) (sg_weighted_entries grp))
         in if bucket < length (sg_weighted_entries grp)
            then Some (we_candidate_index (sg_weighted_entries grp ! bucket)) else None))"

definition choose_candidate_index ::
  "picker_policy \<Rightarrow> selection_group \<Rightarrow> random_range \<Rightarrow> nat option \<times> selection_group" where
  "choose_candidate_index policy grp rng =
     (let indexes = sg_candidate_indexes grp; len = length indexes;
          get = (\<lambda>k. if k < len then Some (indexes ! k) else None)
      in if len = 0 then (None, grp)
         else
           (case policy of
              Deterministic \<Rightarrow> (get 0, grp)
            | RoundRobin \<Rightarrow> (get (sg_next grp mod len), grp\<lparr>sg_next := wrap_add (sg_next grp) 1\<rparr>)
            | Random \<Rightarrow> (get (rng len), grp)
            | WeightedRandom \<Rightarrow>
                (if sg_total_weight grp = 0 then None
                 else weighted_index_for_draw grp (rng (sg_total_weight grp)), grp)))"

definition select_from_group ::
  "route_candidate list \<Rightarrow> selection_group \<Rightarrow> picker_policy \<Rightarrow> random_range \<Rightarrow> route_candidate option \<times> selection_group" where
  "select_from_group candidates grp policy rng =
     (if sg_admission_state grp \<noteq> NewAndExisting then (None, grp)
      else
        (case choose_candidate_index policy grp rng of
           (None, grp') \<Rightarrow> (None, grp')
         | (Some i, grp') \<Rightarrow> (if i < length candidates then Some (candidates ! i) else None, grp')))"

definition select_legacy :: "route_candidate list \<Rightarrow> capability_kind \<Rightarrow> string \<Rightarrow> route_candidate option" where
  "select_legacy candidates kind name =
     find (\<lambda>c. rc_kind c = kind \<and> rc_name c = name \<and> rc_admission_state c = NewAndExisting) candidates"

fun select_from_groups ::
  "route_candidate list \<Rightarrow> picker_policy \<Rightarrow> random_range \<Rightarrow> selection_group list \<Rightarrow>
   (route_candidate \<times> nat) option \<times> selection_group list" where
  "select_from_groups candidates policy rng [] = (None, [])"
| "select_from_groups candidates policy rng (grp # groups) =
     (case select_from_group candidates grp policy rng of
        (Some candidate, grp') \<Rightarrow> (Some (candidate, sg_number grp), grp' # groups)
      | (None, grp') \<Rightarrow>
          (case select_from_groups candidates policy rng groups of (r, groups') \<Rightarrow> (r, grp' # groups')))"

definition select_candidate ::
  "route_candidate list \<Rightarrow> group_index \<Rightarrow> capability_kind \<Rightarrow> string \<Rightarrow> picker_policy \<Rightarrow> random_range \<Rightarrow>
   (route_candidate \<times> nat option) option \<times> group_index" where
  "select_candidate candidates groups kind name policy rng =
     (case groups (kind, name) of
        Some capability_groups \<Rightarrow>
          (case select_from_groups candidates policy rng capability_groups of
             (r, gs) \<Rightarrow> (map_option (\<lambda>(c, n). (c, Some n)) r, groups((kind, name) \<mapsto> gs)))
      | None \<Rightarrow> (map_option (\<lambda>c. (c, None)) (select_legacy candidates kind name), groups))"

text \<open>The contract between the picker's mode and the weights.\<close>

definition validate_selection_mode :: "route_candidate list \<Rightarrow> picker_policy \<Rightarrow> filter_error + unit" where
  "validate_selection_mode candidates mode =
     (if mode \<noteq> WeightedRandom then
        res_guard (list_ex (\<lambda>c. rc_traffic_weight c \<noteq> None) candidates)
          ''routing: traffic_weight is only valid with weightedRandom selection''
      else
        res_guard (list_ex (\<lambda>c. rc_selection_group c = None \<or> rc_traffic_weight c = None) candidates)
          ''routing: weightedRandom requires selection_group and traffic_weight on every candidate'')"

section \<open>What the index is\<close>

text \<open>
  The reference: the positions of a capability's candidates in the list, the weights among them,
  and the buckets that lay these weights end to end.
\<close>

definition members :: "route_candidate list \<Rightarrow> nat \<Rightarrow> capability \<Rightarrow> nat list" where
  "members cs n cap = filter (\<lambda>i. capability_of (cs ! i) = cap) [0..<n]"

definition weights_of :: "route_candidate list \<Rightarrow> nat list \<Rightarrow> (nat \<times> nat) list" where
  "weights_of cs is = List.map_filter (\<lambda>i. map_option (Pair i) (rc_traffic_weight (cs ! i))) is"

fun cumulate :: "nat \<Rightarrow> (nat \<times> nat) list \<Rightarrow> weighted_entry list" where
  "cumulate t [] = []"
| "cumulate t ((i, w) # ws) = \<lparr>we_candidate_index = i, we_cumulative_upper_bound = t + w\<rparr> # cumulate (t + w) ws"

definition weighed :: "route_candidate list \<Rightarrow> nat list \<Rightarrow> selection_group \<Rightarrow> bool" where
  "weighed cs is g \<longleftrightarrow>
     sg_weighted_entries g = cumulate 0 (weights_of cs is) \<and>
     sg_total_weight g = (\<Sum>(i, w) \<leftarrow> weights_of cs is. w) \<and>
     list_all (\<lambda>(i, w). 1 \<le> w \<and> w \<le> 1000) (weights_of cs is)"

definition group_ok :: "route_candidate list \<Rightarrow> selection_group \<Rightarrow> bool" where
  "group_ok cs g \<longleftrightarrow>
     sg_candidate_indexes g \<noteq> [] \<and>
     (\<forall>i \<in> set (sg_candidate_indexes g). i < length cs \<and> rc_selection_group (cs ! i) = Some (sg_number g) \<and>
        rc_admission_state (cs ! i) = sg_admission_state g) \<and>
     weighed cs (sg_candidate_indexes g) g"

definition groups_ok :: "route_candidate list \<Rightarrow> nat list \<Rightarrow> selection_group list \<Rightarrow> bool" where
  "groups_ok cs is gs \<longleftrightarrow>
     list_all (group_ok cs) gs \<and> map sg_number gs = [0..<length gs] \<and> length gs \<le> 2 ^ 32 \<and>
     concat (map sg_candidate_indexes gs) = is"

definition index_ok :: "route_candidate list \<Rightarrow> nat \<Rightarrow> group_index \<Rightarrow> bool" where
  "index_ok cs n index \<longleftrightarrow>
     (\<forall>cap. (index cap = None \<longrightarrow> (\<forall>i \<in> set (members cs n cap). rc_selection_group (cs ! i) = None)) \<and>
            (\<forall>gs. index cap = Some gs \<longrightarrow> gs \<noteq> [] \<and> groups_ok cs (members cs n cap) gs))"

definition mode_ok :: "route_candidate list \<Rightarrow> nat \<Rightarrow> (capability \<rightharpoonup> bool) \<Rightarrow> bool" where
  "mode_ok cs n mode \<longleftrightarrow>
     (\<forall>i < n. mode (capability_of (cs ! i)) = Some (rc_selection_group (cs ! i) \<noteq> None))"

lemma members_Suc: "members cs (Suc n) cap = members cs n cap @ (if capability_of (cs ! n) = cap then [n] else [])"
  by (simp add: members_def)

lemma cumulate_append: "cumulate t (xs @ ys) = cumulate t xs @ cumulate (t + (\<Sum>(i, w) \<leftarrow> xs. w)) ys"
  by (induction t xs rule: cumulate.induct) (simp_all add: add.assoc)

lemma weights_of_append: "weights_of cs (is @ js) = weights_of cs is @ weights_of cs js"
  by (simp add: weights_of_def map_filter_def)

lemma append_weight_ok:
  assumes "append_weight g i (cs ! i) = Inr g'" "weighed cs is g"
  shows "weighed cs (is @ [i]) g' \<and> sg_number g' = sg_number g \<and> sg_admission_state g' = sg_admission_state g \<and>
         sg_candidate_indexes g' = sg_candidate_indexes g \<and> sg_next g' = sg_next g"
proof (cases "rc_traffic_weight (cs ! i)")
  case None
  then have "weights_of cs (is @ [i]) = weights_of cs is"
    unfolding weights_of_append by (simp add: weights_of_def map_filter_simps)
  with assms None show ?thesis by (simp add: append_weight_def weighed_def)
next
  case (Some w)
  have "weights_of cs [i] = [(i, w)]" using Some by (simp add: weights_of_def map_filter_simps)
  with assms Some show ?thesis
    by (auto simp: append_weight_def weighed_def weights_of_append cumulate_append res_bind_Inr_iff checked_add_def
        split: if_splits)
qed

lemma fresh_group_ok:
  assumes "append_weight \<lparr>sg_number = number, sg_admission_state = rc_admission_state (cs ! i), sg_candidate_indexes = [i],
             sg_weighted_entries = [], sg_total_weight = 0, sg_next = 0\<rparr> i (cs ! i) = Inr g"
    and "i < length cs" "rc_selection_group (cs ! i) = Some number"
  shows "group_ok cs g \<and> sg_number g = number \<and> sg_candidate_indexes g = [i]"
proof -
  have "weighed cs [] \<lparr>sg_number = number, sg_admission_state = rc_admission_state (cs ! i), sg_candidate_indexes = [i],
      sg_weighted_entries = [], sg_total_weight = 0, sg_next = 0\<rparr>"
    by (simp add: weighed_def weights_of_def map_filter_simps)
  from append_weight_ok [OF assms(1) this] assms(2,3) show ?thesis by (simp add: group_ok_def)
qed

lemma next_number_step: "number = next_number n \<Longrightarrow> number \<noteq> n \<Longrightarrow> n < 2 ^ 32 \<Longrightarrow> number = Suc n \<and> Suc n < 2 ^ 32"
  by (auto simp: next_number_def min_def split: if_splits)

lemma add_to_groups_ok:
  assumes add: "add_to_groups gs i (cs ! i) number = Inr gs'"
    and ok: "groups_ok cs is gs" and i: "i < length cs" "rc_selection_group (cs ! i) = Some number"
  shows "gs' \<noteq> [] \<and> groups_ok cs (is @ [i]) gs'"
proof (cases gs rule: rev_cases)
  case Nil
  with add ok i fresh_group_ok [of number cs i] show ?thesis
    by (auto simp: add_to_groups_def groups_ok_def res_bind_Inr_iff split: if_splits)
next
  case (snoc hs h)
  then have h: "group_ok cs h" "sg_number h = length hs" "length hs < 2 ^ 32" "map sg_number hs = [0..<length hs]"
    using ok by (auto simp: groups_ok_def)
  show ?thesis
  proof (cases "sg_number h = number")
    case True
    with add snoc obtain g where g: "append_weight (h\<lparr>sg_candidate_indexes := sg_candidate_indexes h @ [i]\<rparr>) i (cs ! i) = Inr g"
      and gs': "gs' = hs @ [g]" and a: "sg_admission_state h = rc_admission_state (cs ! i)"
      by (auto simp: add_to_groups_def res_bind_Inr_iff Let_def split: if_splits)
    have "weighed cs (sg_candidate_indexes h) (h\<lparr>sg_candidate_indexes := sg_candidate_indexes h @ [i]\<rparr>)"
      using h(1) by (simp add: group_ok_def weighed_def)
    from append_weight_ok [OF g this] have "group_ok cs g \<and> sg_number g = length hs \<and> sg_candidate_indexes g = sg_candidate_indexes h @ [i]"
      using h i True a by (auto simp: group_ok_def)
    with ok snoc gs' show ?thesis by (auto simp: groups_ok_def)
  next
    case False
    with add snoc obtain g where g: "append_weight \<lparr>sg_number = number, sg_admission_state = rc_admission_state (cs ! i),
        sg_candidate_indexes = [i], sg_weighted_entries = [], sg_total_weight = 0, sg_next = 0\<rparr> i (cs ! i) = Inr g"
      and gs': "gs' = gs @ [g]" and n: "number = next_number (sg_number h)"
      by (auto simp: add_to_groups_def res_bind_Inr_iff Let_def split: if_splits)
    from next_number_step [OF n] False h(2,3) have "number = length gs" "length gs < 2 ^ 32" using snoc by auto
    with fresh_group_ok [OF g i] ok gs' show ?thesis by (auto simp: groups_ok_def)
  qed
qed

lemma index_okD:
  assumes "index_ok cs n index"
  shows "index cap = None \<Longrightarrow> i \<in> set (members cs n cap) \<Longrightarrow> rc_selection_group (cs ! i) = None"
    and "index cap = Some gs \<Longrightarrow> gs \<noteq> [] \<and> groups_ok cs (members cs n cap) gs"
  using assms unfolding index_ok_def by blast+

lemma index_okI:
  assumes "\<And>cap i. index cap = None \<Longrightarrow> i \<in> set (members cs n cap) \<Longrightarrow> rc_selection_group (cs ! i) = None"
    and "\<And>cap gs. index cap = Some gs \<Longrightarrow> gs \<noteq> [] \<and> groups_ok cs (members cs n cap) gs"
  shows "index_ok cs n index"
  unfolding index_ok_def using assms by blast

lemma grouped_member:
  assumes "groups_ok cs is gs" "gs \<noteq> []"
  shows "\<exists>i \<in> set is. rc_selection_group (cs ! i) \<noteq> None"
proof -
  from assms have "group_ok cs (hd gs)" "hd gs \<in> set gs" by (auto simp: groups_ok_def list_all_iff)
  then obtain i where "i \<in> set (sg_candidate_indexes (hd gs))" "rc_selection_group (cs ! i) \<noteq> None"
    unfolding group_ok_def by (metis hd_in_set option.distinct(1))
  with assms \<open>hd gs \<in> set gs\<close> show ?thesis by (force simp: groups_ok_def)
qed

lemma build_from_ok:
  "build_from n index mode rest = Inr index' \<Longrightarrow> cs = pre @ rest \<Longrightarrow> n = length pre \<Longrightarrow>
   index_ok cs n index \<Longrightarrow> mode_ok cs n mode \<Longrightarrow> index_ok cs (length cs) index'"
proof (induction rest arbitrary: n index mode pre)
  case (Cons c rest)
  let ?key = "capability_of c" and ?gr = "rc_selection_group c \<noteq> None"
  have c: "cs ! n = c" "n < length cs" using Cons.prems by simp_all
  from Cons.prems(1) have m: "mode ?key \<noteq> Some (\<not> ?gr)" by (auto simp: Let_def split: if_splits)
  have same: "(rc_selection_group (cs ! i) \<noteq> None) = ?gr" if "i \<in> set (members cs n ?key)" for i
  proof -
    from that Cons.prems(5) have "mode ?key = Some (rc_selection_group (cs ! i) \<noteq> None)"
      by (auto simp: mode_ok_def members_def)
    with m show ?thesis by auto
  qed
  have mode: "mode_ok cs (Suc n) (mode(?key \<mapsto> ?gr))"
    using Cons.prems(5) same c by (auto simp: mode_ok_def members_def less_Suc_eq)
  have pre: "cs = (pre @ [c]) @ rest" "Suc n = length (pre @ [c])" using Cons.prems by simp_all
  show ?case
  proof (cases "rc_selection_group c")
    case None
    have "index ?key = None"
      using index_okD(2) [OF Cons.prems(4), of ?key] grouped_member same None by (cases "index ?key") blast+
    then have "index_ok cs (Suc n) index"
      using index_okD [OF Cons.prems(4)] None c by (intro index_okI) (auto simp: members_Suc split: if_splits)
    moreover have "build_from (Suc n) index (mode(?key \<mapsto> ?gr)) rest = Inr index'"
      using Cons.prems(1) None by (simp add: Let_def split: if_splits)
    ultimately show ?thesis using Cons.IH [OF _ pre _ mode] by blast
  next
    case (Some number)
    let ?gs = "case index ?key of None \<Rightarrow> [] | Some gs \<Rightarrow> gs"
    obtain gs where gs: "add_to_groups ?gs n (cs ! n) number = Inr gs"
      and rest: "build_from (Suc n) (index(?key \<mapsto> gs)) (mode(?key \<mapsto> ?gr)) rest = Inr index'"
      using Cons.prems(1) Some c by (auto simp: Let_def res_bind_Inr_iff split: if_splits)
    have "groups_ok cs (members cs n ?key) ?gs"
    proof (cases "index ?key")
      case None
      with index_okD(1) [OF Cons.prems(4)] same Some have "members cs n ?key = []" by (cases "members cs n ?key") auto
      with None show ?thesis by (simp add: groups_ok_def)
    next
      case (Some hs)
      with index_okD(2) [OF Cons.prems(4)] show ?thesis by simp
    qed
    from add_to_groups_ok [OF gs this] c Some have "gs \<noteq> [] \<and> groups_ok cs (members cs (Suc n) ?key) gs"
      by (simp add: members_Suc)
    then have "index_ok cs (Suc n) (index(?key \<mapsto> gs))"
      using index_okD [OF Cons.prems(4)] c by (intro index_okI) (auto simp: members_Suc split: if_splits)
    from Cons.IH [OF rest pre this mode] show ?thesis .
  qed
qed simp

lemma build_ok: "build cs = Inr index \<Longrightarrow> index_ok cs (length cs) index"
  using build_from_ok [of 0 Map.empty Map.empty cs index cs "[]"]
  by (simp add: build_def index_ok_def mode_ok_def members_def)

text \<open>The counters of a new index are at zero.\<close>

lemma append_weight_next: "append_weight g i c = Inr g' \<Longrightarrow> sg_next g' = sg_next g"
  by (auto simp: append_weight_def res_bind_Inr_iff split: option.splits if_splits)

lemma add_to_groups_next:
  "add_to_groups gs i c number = Inr gs' \<Longrightarrow> \<forall>g \<in> set gs. sg_next g = 0 \<Longrightarrow> \<forall>g \<in> set gs'. sg_next g = 0"
  by (cases gs rule: rev_cases)
     (auto simp: add_to_groups_def Let_def res_bind_Inr_iff split: if_splits dest!: append_weight_next)

definition fresh_index :: "group_index \<Rightarrow> bool" where
  "fresh_index index \<longleftrightarrow> (\<forall>cap gs. index cap = Some gs \<longrightarrow> (\<forall>g \<in> set gs. sg_next g = 0))"

lemma fresh_indexD: "fresh_index index \<Longrightarrow> index cap = Some gs \<Longrightarrow> g \<in> set gs \<Longrightarrow> sg_next g = 0"
  unfolding fresh_index_def by blast

lemma build_from_fresh: "build_from n index mode rest = Inr index' \<Longrightarrow> fresh_index index \<Longrightarrow> fresh_index index'"
proof (induction n index mode rest rule: build_from.induct)
  case (2 i index mode c rest)
  let ?mode = "mode(capability_of c \<mapsto> rc_selection_group c \<noteq> None)"
  have m: "mode (capability_of c) \<noteq> Some (\<not> rc_selection_group c \<noteq> None)"
    using "2.prems"(1) by (auto simp: Let_def split: if_splits)
  show ?case
  proof (cases "rc_selection_group c")
    case None
    then have "build_from (Suc i) index ?mode rest = Inr index'" using "2.prems"(1) by (simp add: Let_def split: if_splits)
    with "2.IH"(1) [OF refl refl m None] "2.prems"(2) show ?thesis by blast
  next
    case (Some number)
    then obtain gs where gs: "add_to_groups (case index (capability_of c) of None \<Rightarrow> [] | Some gs \<Rightarrow> gs) i c number = Inr gs"
      and rest: "build_from (Suc i) (index(capability_of c \<mapsto> gs)) ?mode rest = Inr index'"
      using "2.prems"(1) by (auto simp: Let_def res_bind_Inr_iff split: if_splits)
    have "\<forall>g \<in> set gs. sg_next g = 0"
      using fresh_indexD [OF "2.prems"(2), of "capability_of c"]
      by (intro add_to_groups_next [OF gs]) (cases "index (capability_of c)"; simp)
    then have "fresh_index (index(capability_of c \<mapsto> gs))" using "2.prems"(2) by (simp add: fresh_index_def)
    with "2.IH"(2) [OF refl refl m Some] rest show ?thesis by blast
  qed
qed simp

lemma build_fresh: "build cs = Inr index \<Longrightarrow> fresh_index index"
  using build_from_fresh [of 0 Map.empty Map.empty cs index] by (simp add: build_def fresh_index_def)

section \<open>Weighted draws\<close>

abbreviation total_of :: "(nat \<times> nat) list \<Rightarrow> nat" where
  "total_of ws \<equiv> \<Sum>(i, w) \<leftarrow> ws. w"

text \<open>The bucket of a draw, over weights laid end to end from an offset.\<close>

definition bucket :: "nat \<Rightarrow> (nat \<times> nat) list \<Rightarrow> nat \<Rightarrow> nat option" where
  "bucket t ws d =
     (let es = cumulate t ws; k = length (takeWhile (\<lambda>e. we_cumulative_upper_bound e \<le> d) es)
      in if k < length es then Some (we_candidate_index (es ! k)) else None)"

lemma bucket_Nil [simp]: "bucket t [] d = None"
  by (simp add: bucket_def)

lemma bucket_Cons [simp]: "bucket t ((i, w) # ws) d = (if d < t + w then Some i else bucket (t + w) ws d)"
  by (simp add: bucket_def Let_def)

lemma bucket_hit: "t \<le> d \<Longrightarrow> d < t + total_of ws \<Longrightarrow> \<exists>i \<in> fst ` set ws. bucket t ws d = Some i"
proof (induction ws arbitrary: t)
  case (Cons x ws)
  obtain i w where x: "x = (i, w)" by force
  show ?case
  proof (cases "d < t + w")
    case False
    with Cons.IH [of "t + w"] Cons.prems x show ?thesis by (simp add: add.assoc)
  qed (use x in simp)
qed simp

lemma bucket_card:
  "card {d. t \<le> d \<and> d < t + total_of ws \<and> bucket t ws d = Some i} = total_of (filter (\<lambda>x. fst x = i) ws)"
proof (induction ws arbitrary: t)
  case (Cons x ws)
  obtain j w where x: "x = (j, w)" by force
  let ?rest = "{d. t + w \<le> d \<and> d < t + w + total_of ws \<and> bucket (t + w) ws d = Some i}"
  have "{d. t \<le> d \<and> d < t + total_of (x # ws) \<and> bucket t (x # ws) d = Some i} =
      (if j = i then {t..<t + w} else {}) \<union> ?rest"
    using x by auto
  moreover have "finite ?rest" by (rule finite_subset [of _ "{..<t + w + total_of ws}"]) auto
  moreover have "{t..<t + w} \<inter> ?rest = {}" by auto
  ultimately show ?case using Cons.IH [of "t + w"] x by (simp add: card_Un_disjoint)
qed simp

lemma weighted_index_bucket:
  assumes "weighed cs is g"
  shows "weighted_index_for_draw g d =
    (if d < total_of (weights_of cs is) then bucket 0 (weights_of cs is) d else None)"
  using assms by (auto simp: weighted_index_for_draw_def weighed_def bucket_def Let_def)

lemma weights_of_mem: "(i, w) \<in> set (weights_of cs is) \<longleftrightarrow> i \<in> set is \<and> rc_traffic_weight (cs ! i) = Some w"
  by (induction "is") (auto simp: weights_of_def map_filter_simps split: option.splits)

lemma weights_of_single:
  "distinct is \<Longrightarrow> i \<in> set is \<Longrightarrow> rc_traffic_weight (cs ! i) = Some w \<Longrightarrow>
   filter (\<lambda>x. fst x = i) (weights_of cs is) = [(i, w)]"
proof (induction "is")
  case (Cons j js)
  have tl: "weights_of cs (j # js) = (case rc_traffic_weight (cs ! j) of None \<Rightarrow> [] | Some v \<Rightarrow> [(j, v)]) @ weights_of cs js"
    by (simp add: weights_of_def map_filter_simps split: option.splits)
  show ?case
  proof (cases "j = i")
    case True
    then have "filter (\<lambda>x. fst x = i) (weights_of cs js) = []"
      using Cons.prems by (auto simp: filter_empty_conv weights_of_mem)
    with True Cons.prems show ?thesis unfolding tl by simp
  next
    case False
    with Cons show ?thesis unfolding tl by (auto split: option.splits)
  qed
qed simp

lemma members_distinct: "distinct (members cs n cap)"
  by (simp add: members_def)

lemma group_indexes_distinct:
  assumes "groups_ok cs (members cs n cap) gs" "g \<in> set gs"
  shows "distinct (sg_candidate_indexes g)"
  using assms members_distinct [of cs n cap] unfolding groups_ok_def by (metis distinct_concat_iff in_set_conv_decomp image_eqI list.set_map distinct_concat)

text \<open>
  C20. Weighted selection is exactly proportional. Of the possible draws of a group, every one selects
  one of its members, and a member of weight w is selected by exactly w of them; there are as many
  draws as the weights of the group sum to. Uniform draws therefore select each candidate with the
  share of the traffic its weight asks for.
\<close>

theorem weighted_draws_proportional:
  assumes "build cs = Inr index" and "index (kind, name) = Some gs" and "g \<in> set gs"
    and "i \<in> set (sg_candidate_indexes g)" and "rc_traffic_weight (cs ! i) = Some w"
  shows "card {d. d < sg_total_weight g \<and> weighted_index_for_draw g d = Some i} = w \<and>
         sg_total_weight g = total_of (weights_of cs (sg_candidate_indexes g)) \<and>
         (\<forall>d < sg_total_weight g. \<exists>j \<in> set (sg_candidate_indexes g). weighted_index_for_draw g d = Some j)"
proof -
  let ?ws = "weights_of cs (sg_candidate_indexes g)"
  have gs: "groups_ok cs (members cs (length cs) (kind, name)) gs"
    using index_okD(2) [OF build_ok [OF assms(1)] assms(2)] by simp
  with assms(3) have g: "weighed cs (sg_candidate_indexes g) g" by (simp add: groups_ok_def list_all_iff group_ok_def)
  then have total: "sg_total_weight g = total_of ?ws" by (simp add: weighed_def)
  note draw = weighted_index_bucket [OF g]
  have "{d. d < sg_total_weight g \<and> weighted_index_for_draw g d = Some i} =
      {d. 0 \<le> d \<and> d < 0 + total_of ?ws \<and> bucket 0 ?ws d = Some i}"
    unfolding total draw by auto
  then have "card {d. d < sg_total_weight g \<and> weighted_index_for_draw g d = Some i} = w"
    by (simp only: bucket_card weights_of_single [OF group_indexes_distinct [OF gs assms(3)] assms(4,5)]) simp
  moreover have "\<exists>j \<in> set (sg_candidate_indexes g). weighted_index_for_draw g d = Some j" if "d < total_of ?ws" for d
    using bucket_hit [of 0 d ?ws] that unfolding draw by (auto simp: weights_of_mem)
  ultimately show ?thesis using total by simp
qed

section \<open>Selection\<close>

text \<open>What a random number generator promises, and a group up to its counter.\<close>

definition rng_ok :: "random_range \<Rightarrow> bool" where
  "rng_ok rng \<longleftrightarrow> (\<forall>n > 0. rng n < n)"

definition same_group :: "selection_group \<Rightarrow> selection_group \<Rightarrow> bool" where
  "same_group g h \<longleftrightarrow> h = g\<lparr>sg_next := sg_next h\<rparr>"

lemma same_group_fields:
  assumes "same_group g h"
  shows "sg_number h = sg_number g" "sg_admission_state h = sg_admission_state g"
    "sg_candidate_indexes h = sg_candidate_indexes g" "sg_weighted_entries h = sg_weighted_entries g"
    "sg_total_weight h = sg_total_weight g"
proof -
  from assms obtain n where "h = g\<lparr>sg_next := n\<rparr>" by (auto simp: same_group_def)
  then show "sg_number h = sg_number g" "sg_admission_state h = sg_admission_state g"
    "sg_candidate_indexes h = sg_candidate_indexes g" "sg_weighted_entries h = sg_weighted_entries g"
    "sg_total_weight h = sg_total_weight g" by simp_all
qed

lemma same_group_refl [simp]: "same_group g g"
  by (simp add: same_group_def)

lemma same_group_ok: "same_group g h \<Longrightarrow> group_ok cs h = group_ok cs g"
  by (simp add: group_ok_def weighed_def same_group_fields)

lemma same_groups_ok: "list_all2 same_group gs hs \<Longrightarrow> groups_ok cs is gs \<Longrightarrow> groups_ok cs is hs"
proof -
  assume same: "list_all2 same_group gs hs" and ok: "groups_ok cs is gs"
  from same have "map sg_number hs = map sg_number gs" "map sg_candidate_indexes hs = map sg_candidate_indexes gs"
    "list_all (group_ok cs) hs = list_all (group_ok cs) gs" "length hs = length gs"
    by (induction rule: list_all2_induct) (simp_all add: same_group_fields same_group_ok)
  with ok show "groups_ok cs is hs" by (simp only: groups_ok_def)
qed

lemma weight_le_total: "(i, w) \<in> set ws \<Longrightarrow> w \<le> total_of ws"
  using member_le_sum_list [of w "map (\<lambda>(i, w). w) ws"] by force

lemma weighted_total_pos:
  assumes "group_ok cs g" "validate_selection_mode cs WeightedRandom = Inr ()"
  shows "0 < sg_total_weight g"
proof -
  have ok: "weighed cs (sg_candidate_indexes g) g" using assms(1) by (simp add: group_ok_def)
  obtain i where i: "i \<in> set (sg_candidate_indexes g)" "i < length cs"
    using assms(1) unfolding group_ok_def by (metis list.set_sel(1))
  have "\<forall>c \<in> set cs. rc_traffic_weight c \<noteq> None"
    using assms(2) by (auto simp: validate_selection_mode_def list_ex_iff)
  with i(2) obtain w where "rc_traffic_weight (cs ! i) = Some w" using nth_mem by blast
  with i(1) have w: "(i, w) \<in> set (weights_of cs (sg_candidate_indexes g))" by (simp add: weights_of_mem)
  then have "1 \<le> w" using ok by (auto simp: weighed_def list_all_iff)
  with weight_le_total [OF w] ok show ?thesis by (simp add: weighed_def)
qed

text \<open>Every policy picks a member of the group; the first one, or the one at the counter, for two of them.\<close>

lemma choose_ok:
  assumes "group_ok cs g" "rng_ok rng" "validate_selection_mode cs policy = Inr ()"
  shows "\<exists>i g'. choose_candidate_index policy g rng = (Some i, g') \<and> i \<in> set (sg_candidate_indexes g) \<and> same_group g g' \<and>
           (policy = Deterministic \<longrightarrow> i = hd (sg_candidate_indexes g)) \<and>
           (policy = RoundRobin \<longrightarrow> i = sg_candidate_indexes g ! (sg_next g mod length (sg_candidate_indexes g)) \<and>
              sg_next g' = wrap_add (sg_next g) 1) \<and>
           (policy \<noteq> RoundRobin \<longrightarrow> g' = g)"
proof -
  have ne: "sg_candidate_indexes g \<noteq> []" using assms(1) by (simp add: group_ok_def)
  show ?thesis
  proof (cases policy)
    case WeightedRandom
    then have pos: "0 < sg_total_weight g" using weighted_total_pos assms by blast
    have w: "weighed cs (sg_candidate_indexes g) g" using assms(1) by (simp add: group_ok_def)
    have "rng (sg_total_weight g) < sg_total_weight g" using assms(2) pos by (simp add: rng_ok_def)
    then obtain i where "weighted_index_for_draw g (rng (sg_total_weight g)) = Some i" "i \<in> set (sg_candidate_indexes g)"
      using bucket_hit [of 0 "rng (sg_total_weight g)" "weights_of cs (sg_candidate_indexes g)"] w
      unfolding weighted_index_bucket [OF w] by (auto simp: weighed_def weights_of_mem)
    with WeightedRandom ne pos show ?thesis by (auto simp: choose_candidate_index_def Let_def)
  next
    case Random
    with ne assms(2) show ?thesis by (auto simp: choose_candidate_index_def Let_def rng_ok_def)
  qed (use ne in \<open>auto simp: choose_candidate_index_def Let_def same_group_def hd_conv_nth\<close>)
qed

lemma select_from_group_ok:
  assumes "group_ok cs g" "rng_ok rng" "validate_selection_mode cs policy = Inr ()" "sg_admission_state g = NewAndExisting"
  shows "\<exists>i g'. select_from_group cs g policy rng = (Some (cs ! i), g') \<and> i \<in> set (sg_candidate_indexes g) \<and> same_group g g' \<and>
           (policy = Deterministic \<longrightarrow> i = hd (sg_candidate_indexes g)) \<and>
           (policy = RoundRobin \<longrightarrow> i = sg_candidate_indexes g ! (sg_next g mod length (sg_candidate_indexes g)) \<and>
              sg_next g' = wrap_add (sg_next g) 1) \<and>
           (policy \<noteq> RoundRobin \<longrightarrow> g' = g)"
proof -
  obtain i g' where c: "choose_candidate_index policy g rng = (Some i, g')" "i \<in> set (sg_candidate_indexes g)"
    and rest: "same_group g g'" "policy = Deterministic \<longrightarrow> i = hd (sg_candidate_indexes g)"
      "policy = RoundRobin \<longrightarrow> i = sg_candidate_indexes g ! (sg_next g mod length (sg_candidate_indexes g)) \<and>
         sg_next g' = wrap_add (sg_next g) 1" "policy \<noteq> RoundRobin \<longrightarrow> g' = g"
    using choose_ok [OF assms(1-3)] by blast
  from c(2) assms(1) have "i < length cs" by (simp add: group_ok_def)
  with c(1) assms(4) have "select_from_group cs g policy rng = (Some (cs ! i), g')" by (simp add: select_from_group_def)
  with c(2) rest show ?thesis by blast
qed

text \<open>The groups before the first admitting one are passed over unchanged; that one serves the request.\<close>

lemma select_from_groups_skip:
  "list_all (\<lambda>g. sg_admission_state g \<noteq> NewAndExisting) pre \<Longrightarrow>
   select_from_groups cs policy rng (pre @ gs) = apsnd ((@) pre) (select_from_groups cs policy rng gs)"
  by (induction pre; cases "select_from_groups cs policy rng gs") (auto simp: select_from_group_def)

lemma first_admitting:
  obtains "list_all (\<lambda>g. sg_admission_state g \<noteq> NewAndExisting) gs"
  | pre g post where "gs = pre @ g # post" "list_all (\<lambda>g. sg_admission_state g \<noteq> NewAndExisting) pre"
      "sg_admission_state g = NewAndExisting"
proof (cases "list_all (\<lambda>g. sg_admission_state g \<noteq> NewAndExisting) gs")
  case False
  then have "\<exists>g \<in> set gs. sg_admission_state g = NewAndExisting" by (auto simp: list_all_iff)
  then obtain pre g post where "gs = pre @ g # post" "sg_admission_state g = NewAndExisting"
    "\<forall>h \<in> set pre. sg_admission_state h \<noteq> NewAndExisting"
    using split_list_first_prop [of gs "\<lambda>g. sg_admission_state g = NewAndExisting"] by blast
  then show ?thesis using that(2) by (simp add: list_all_iff)
qed (use that(1) in blast)

lemma select_from_groups_none:
  "list_all (\<lambda>g. sg_admission_state g \<noteq> NewAndExisting) gs \<Longrightarrow> select_from_groups cs policy rng gs = (None, gs)"
  using select_from_groups_skip [of gs cs policy rng "[]"] by simp

lemma select_from_groups_some:
  assumes "list_all (\<lambda>g. sg_admission_state g \<noteq> NewAndExisting) pre"
    and "select_from_group cs g policy rng = (Some c, g')"
  shows "select_from_groups cs policy rng (pre @ g # post) = (Some (c, sg_number g), pre @ g' # post)"
  using select_from_groups_skip [OF assms(1)] assms(2) by simp

text \<open>
  The reference of a selection: the candidates of the capability that admit new requests, in the
  order of the list. The choice is one of them, of the lowest group there is among them, and the
  first one if the policy is deterministic or the capability has no groups; there is no choice only
  if there is none of them.
\<close>

definition viable :: "route_candidate list \<Rightarrow> capability \<Rightarrow> route_candidate list" where
  "viable cs cap = filter (\<lambda>c. capability_of c = cap \<and> rc_admission_state c = NewAndExisting) cs"

definition best_choice ::
  "route_candidate list \<Rightarrow> picker_policy \<Rightarrow> capability \<Rightarrow> (route_candidate \<times> nat option) option \<Rightarrow> bool" where
  "best_choice cs policy cap r \<longleftrightarrow>
     (case r of
        None \<Rightarrow> viable cs cap = []
      | Some (c, n) \<Rightarrow>
          c \<in> set (viable cs cap) \<and> n = rc_selection_group c \<and>
          list_all (\<lambda>d. (case (n, rc_selection_group d) of
                           (None, None) \<Rightarrow> True | (Some m, Some m') \<Rightarrow> m \<le> m' | _ \<Rightarrow> False)) (viable cs cap) \<and>
          (policy = Deterministic \<or> n = None \<longrightarrow> c = hd (viable cs cap)))"

lemma viable_members:
  "viable cs cap = map ((!) cs) (filter (\<lambda>i. rc_admission_state (cs ! i) = NewAndExisting) (members cs (length cs) cap))"
proof -
  have "viable cs cap = filter (\<lambda>c. capability_of c = cap \<and> rc_admission_state c = NewAndExisting) (map ((!) cs) [0..<length cs])"
    by (simp add: viable_def map_nth)
  then show ?thesis unfolding members_def filter_map filter_filter by (simp add: comp_def conj_commute)
qed

lemma admitted_members:
  assumes "group_ok cs g"
  shows "filter (\<lambda>i. rc_admission_state (cs ! i) = NewAndExisting) (sg_candidate_indexes g) =
    (if sg_admission_state g = NewAndExisting then sg_candidate_indexes g else [])"
  using assms by (auto simp: group_ok_def filter_empty_conv filter_id_conv)

lemma viable_groups:
  assumes "groups_ok cs (members cs (length cs) cap) gs"
  shows "viable cs cap = map ((!) cs) (concat (map sg_candidate_indexes (filter (\<lambda>g. sg_admission_state g = NewAndExisting) gs)))"
proof -
  have "filter (\<lambda>i. rc_admission_state (cs ! i) = NewAndExisting) (concat (map sg_candidate_indexes gs)) =
      concat (map sg_candidate_indexes (filter (\<lambda>g. sg_admission_state g = NewAndExisting) gs))"
    if "list_all (group_ok cs) gs" for gs
    using that by (induction gs) (simp_all add: admitted_members)
  moreover have "members cs (length cs) cap = concat (map sg_candidate_indexes gs)" "list_all (group_ok cs) gs"
    using assms by (auto simp: groups_ok_def)
  ultimately show ?thesis unfolding viable_members by simp
qed

lemma later_groups:
  assumes "groups_ok cs is (pre @ g # post)" "h \<in> set (g # post)"
  shows "sg_number g \<le> sg_number h"
proof -
  have "map sg_number (pre @ g # post) = [0..<length (pre @ g # post)]" using assms(1) by (simp only: groups_ok_def)
  then have "sorted (map sg_number (pre @ g # post))" by (metis sorted_upt)
  with assms(2) show ?thesis by (auto simp: sorted_append)
qed

lemma best_in_groups:
  assumes gs: "groups_ok cs (members cs (length cs) cap) (pre @ g # post)"
    and pre: "list_all (\<lambda>g. sg_admission_state g \<noteq> NewAndExisting) pre" and g: "sg_admission_state g = NewAndExisting"
    and i: "i \<in> set (sg_candidate_indexes g)" "policy = Deterministic \<longrightarrow> i = hd (sg_candidate_indexes g)"
  shows "best_choice cs policy cap (Some (cs ! i, Some (sg_number g)))"
proof -
  let ?adm = "\<lambda>g. sg_admission_state g = NewAndExisting"
  have "filter ?adm pre = []" using pre by (simp add: filter_empty_conv list_all_iff)
  then have v: "viable cs cap = map ((!) cs) (sg_candidate_indexes g @ concat (map sg_candidate_indexes (filter ?adm post)))"
    using viable_groups [OF gs] g by simp
  have ok: "group_ok cs h" if "h \<in> set (g # post)" for h using gs that by (auto simp: groups_ok_def list_all_iff)
  have sel: "\<exists>m. rc_selection_group d = Some m \<and> sg_number g \<le> m" if "d \<in> set (viable cs cap)" for d
  proof -
    from that obtain h j where h: "h \<in> set (g # post)" "j \<in> set (sg_candidate_indexes h)" "d = cs ! j"
      unfolding v by auto
    with ok [OF h(1)] later_groups [OF gs h(1)] show ?thesis by (auto simp: group_ok_def)
  qed
  have ne: "sg_candidate_indexes g \<noteq> []" using ok [of g] by (simp add: group_ok_def)
  have "cs ! i \<in> set (viable cs cap)" using i(1) unfolding v by simp
  moreover have "rc_selection_group (cs ! i) = Some (sg_number g)" using ok [of g] i(1) by (simp add: group_ok_def)
  moreover have "policy = Deterministic \<longrightarrow> cs ! i = hd (viable cs cap)" using i(2) ne unfolding v by (simp add: list.map_sel hd_append)
  ultimately show ?thesis using sel by (fastforce simp: best_choice_def list_all_iff)
qed

lemma best_without_groups:
  assumes "index_ok cs (length cs) index" "index (kind, name) = None"
  shows "best_choice cs policy (kind, name) (map_option (\<lambda>c. (c, None)) (select_legacy cs kind name))"
proof -
  have eq: "select_legacy cs kind name = (if viable cs (kind, name) = [] then None else Some (hd (viable cs (kind, name))))"
    unfolding select_legacy_def viable_def capability_of_def
    by (induction cs) auto
  have "rc_selection_group d = None" if "d \<in> set (viable cs (kind, name))" for d
    using that index_okD(1) [OF assms] unfolding viable_members by auto
  then show ?thesis unfolding eq by (auto simp: best_choice_def list_all_iff)
qed

lemma select_candidate_ok:
  assumes ok: "index_ok cs (length cs) index" and rng: "rng_ok rng" and mode: "validate_selection_mode cs policy = Inr ()"
  shows "best_choice cs policy (kind, name) (fst (select_candidate cs index kind name policy rng))"
    and "index_ok cs (length cs) (snd (select_candidate cs index kind name policy rng))"
proof -
  let ?s = "select_candidate cs index kind name policy rng"
  have "best_choice cs policy (kind, name) (fst ?s) \<and> index_ok cs (length cs) (snd ?s)"
  proof (cases "index (kind, name)")
    case None
    with best_without_groups [OF ok None] ok show ?thesis by (simp add: select_candidate_def)
  next
    case (Some gs)
    note gs = index_okD(2) [OF ok Some]
    show ?thesis
    proof (cases gs rule: first_admitting)
      case 1
      then have "viable cs (kind, name) = []"
        using viable_groups [of cs "(kind, name)" gs] gs by (simp add: filter_False list_all_iff)
      moreover have "index((kind, name) \<mapsto> gs) = index" using Some by (simp add: fun_upd_idem)
      ultimately show ?thesis
        using Some ok select_from_groups_none [OF 1] by (simp add: select_candidate_def best_choice_def)
    next
      case (2 pre g post)
      from gs 2 have "group_ok cs g" by (simp add: groups_ok_def)
      from select_from_group_ok [OF this rng mode 2(3)] obtain i g' where
        i: "select_from_group cs g policy rng = (Some (cs ! i), g')" "i \<in> set (sg_candidate_indexes g)" "same_group g g'"
          "policy = Deterministic \<longrightarrow> i = hd (sg_candidate_indexes g)" by blast
      have "list_all2 same_group gs (pre @ g' # post)"
        unfolding 2(1) using i(3) by (simp add: list_all2_append list_all2_refl)
      then have "index_ok cs (length cs) (index((kind, name) \<mapsto> pre @ g' # post))"
        using same_groups_ok gs index_okD [OF ok] by (intro index_okI) (auto split: if_splits)
      moreover have "best_choice cs policy (kind, name) (Some (cs ! i, Some (sg_number g)))"
        using best_in_groups gs 2 i by blast
      ultimately show ?thesis
        using select_from_groups_some [OF 2(2) i(1)] Some 2(1) by (simp add: select_candidate_def)
    qed
  qed
  then show "best_choice cs policy (kind, name) (fst ?s)" "index_ok cs (length cs) (snd ?s)" by simp_all
qed

section \<open>Sequences of requests\<close>

type_synonym selection_request = "capability \<times> random_range"

fun select_run ::
  "route_candidate list \<Rightarrow> picker_policy \<Rightarrow> selection_request list \<Rightarrow> group_index \<Rightarrow>
   (capability \<times> (route_candidate \<times> nat option) option) list" where
  "select_run cs policy [] index = []"
| "select_run cs policy (((kind, name), rng) # reqs) index =
     (case select_candidate cs index kind name policy rng of
        (r, index') \<Rightarrow> ((kind, name), r) # select_run cs policy reqs index')"

lemma select_run_Cons:
  "select_run cs policy (((kind, name), rng) # reqs) index =
     ((kind, name), fst (select_candidate cs index kind name policy rng)) #
     select_run cs policy reqs (snd (select_candidate cs index kind name policy rng))"
  by (simp split: prod.splits)

declare select_run.simps(2) [simp del] select_run_Cons [simp]

text \<open>
  C8. Selection serves the best candidate. On an index built from the candidates, for any sequence of
  requests and any draws, each request is given a candidate of the capability it names that admits
  new requests, from the lowest group that has one; the first of them under the deterministic
  policy or without groups. It is refused only if no candidate of the capability admits new requests.
\<close>

theorem selection_serves_best:
  assumes "build cs = Inr index" and "validate_selection_mode cs policy = Inr ()"
    and "\<forall>(cap, rng) \<in> set reqs. rng_ok rng"
  shows "list_all (\<lambda>(cap, r). best_choice cs policy cap r) (select_run cs policy reqs index) \<and>
         map fst (select_run cs policy reqs index) = map fst reqs"
proof -
  have "index_ok cs (length cs) index \<Longrightarrow>
      list_all (\<lambda>(cap, r). best_choice cs policy cap r) (select_run cs policy reqs index) \<and>
      map fst (select_run cs policy reqs index) = map fst reqs"
    using assms(3)
  proof (induction reqs arbitrary: index)
    case (Cons x reqs)
    obtain kind name rng where x: "x = ((kind, name), rng)" by (metis prod.exhaust)
    with Cons.prems have rng: "rng_ok rng" by simp
    note sel = select_candidate_ok [OF Cons.prems(1) rng assms(2), of kind name]
    from Cons.IH [OF sel(2)] Cons.prems(2) sel(1) x show ?case by simp
  qed simp
  with build_ok [OF assms(1)] show ?thesis by blast
qed

text \<open>The requests of a capability move only the counter of its first admitting group.\<close>

definition picks :: "capability \<Rightarrow> (capability \<times> (route_candidate \<times> nat option) option) list \<Rightarrow>
    (route_candidate \<times> nat option) option list" where
  "picks cap rs = map snd (filter (\<lambda>x. fst x = cap) rs)"

lemma select_other: "cap \<noteq> (kind, name) \<Longrightarrow> snd (select_candidate cs index kind name policy rng) cap = index cap"
  by (auto simp: select_candidate_def split: option.splits prod.splits)

lemma round_robin_picks:
  assumes mode: "validate_selection_mode cs RoundRobin = Inr ()"
    and g: "sg_admission_state g = NewAndExisting" and pre: "list_all (\<lambda>g. sg_admission_state g \<noteq> NewAndExisting) pre"
    and len: "len = length (sg_candidate_indexes g)"
  shows "index_ok cs (length cs) index \<Longrightarrow> index cap = Some (pre @ g\<lparr>sg_next := start\<rparr> # post) \<Longrightarrow>
    \<forall>(c, rng) \<in> set reqs. rng_ok rng \<Longrightarrow> start + length (filter (\<lambda>x. fst x = cap) reqs) \<le> 2 ^ 64 \<Longrightarrow>
    picks cap (select_run cs RoundRobin reqs index) =
      map (\<lambda>k. Some (cs ! (sg_candidate_indexes g ! (k mod len)), Some (sg_number g)))
          [start..<start + length (filter (\<lambda>x. fst x = cap) reqs)]"
proof (induction reqs arbitrary: index start)
  case (Cons x reqs)
  obtain kind name rng where x: "x = ((kind, name), rng)" by (metis prod.exhaust)
  with Cons.prems have rng: "rng_ok rng" by simp
  let ?index = "snd (select_candidate cs index kind name RoundRobin rng)"
  note ok = select_candidate_ok(2) [OF Cons.prems(1) rng mode, of kind name]
  show ?case
  proof (cases "cap = (kind, name)")
    case False
    then have "?index cap = Some (pre @ g\<lparr>sg_next := start\<rparr> # post)" using select_other Cons.prems(2) by metis
    from Cons.IH [OF ok this] Cons.prems x False show ?thesis by (simp add: picks_def)
  next
    case True
    let ?g = "g\<lparr>sg_next := start\<rparr>"
    have "group_ok cs ?g" "sg_admission_state ?g = NewAndExisting"
      using index_okD(2) [OF Cons.prems(1,2)] g by (simp_all add: groups_ok_def)
    from select_from_group_ok [OF this(1) rng mode this(2)] obtain g' where
      sel: "select_from_group cs ?g RoundRobin rng = (Some (cs ! (sg_candidate_indexes g ! (start mod len))), g')"
      and g': "same_group ?g g'" "sg_next g' = wrap_add start 1"
      by (auto simp: len)
    let ?n = "length (filter (\<lambda>x. fst x = cap) reqs)"
    have n: "Suc start + ?n \<le> 2 ^ 64" using Cons.prems(4) x True by simp
    note some = select_from_groups_some [OF pre sel, of post]
    have idx: "?index cap = Some (pre @ g\<lparr>sg_next := Suc start mod 2 ^ 64\<rparr> # post)"
      and fst: "fst (select_candidate cs index kind name RoundRobin rng) =
         Some (cs ! (sg_candidate_indexes g ! (start mod len)), Some (sg_number g))"
      using some Cons.prems(2) True g' by (simp_all add: select_candidate_def same_group_def wrap_add_def)
    have "picks cap (select_run cs RoundRobin reqs ?index) =
        map (\<lambda>k. Some (cs ! (sg_candidate_indexes g ! (k mod len)), Some (sg_number g))) [Suc start..<Suc start + ?n]"
    proof (cases "Suc start < 2 ^ 64")
      case True
      then have "Suc start mod 2 ^ 64 = Suc start" by simp
      from Cons.IH [OF ok idx [unfolded this]] Cons.prems(3) n show ?thesis by simp
    next
      case False
      have "Suc start = 2 ^ 64" and z: "?n = 0" using n False by linarith+
      then have "Suc start mod 2 ^ 64 = 0" by simp
      with z Cons.IH [OF ok idx] Cons.prems(3) show ?thesis by simp
    qed
    moreover have "[start..<start + Suc ?n] = start # [Suc start..<Suc start + ?n]" by (simp add: upt_conv_Cons del: upt_Suc)
    ultimately show ?thesis using fst x True by (simp add: picks_def del: upt_Suc)
  qed
qed (simp add: picks_def)

lemma mod_count: "0 < len \<Longrightarrow> p < len \<Longrightarrow> card {k. k < m \<and> k mod len = p} = m div len + (if p < m mod len then 1 else 0)" for m :: nat
proof (induction m)
  case (Suc m)
  have fin: "finite {k. k < m \<and> k mod len = p}" by simp
  have "{k. k < Suc m \<and> k mod len = p} = (if m mod len = p then insert m else id) {k. k < m \<and> k mod len = p}"
    by (auto simp: less_Suc_eq)
  then have "card {k. k < Suc m \<and> k mod len = p} = card {k. k < m \<and> k mod len = p} + (if m mod len = p then 1 else 0)"
    using fin by simp
  moreover have "Suc m mod len = (if Suc (m mod len) = len then 0 else Suc (m mod len))"
    "Suc m div len = (if Suc (m mod len) = len then Suc (m div len) else m div len)"
    by (simp_all add: mod_Suc div_Suc)
  ultimately show ?case using Suc by auto
qed simp

text \<open>
  C19. Round robin is fair, exactly. On a fresh index, after any sequence of requests, of which at most
  as many as the counter can count name a capability, its requests have all been served by its first
  admitting group, and the candidate in position p of the n of that group has served its exact share:
  of m requests, m div n of them, and one more if p comes before m mod n. Requests for other
  capabilities, whatever their number and place in the sequence, change nothing.
\<close>

theorem round_robin_fair:
  assumes "build cs = Inr index" and "distinct (map candidate_identity cs)" and "validate_selection_mode cs RoundRobin = Inr ()"
    and "index cap = Some (pre @ g # post)"
    and "list_all (\<lambda>g. sg_admission_state g \<noteq> NewAndExisting) pre" and "sg_admission_state g = NewAndExisting"
    and "\<forall>(c, rng) \<in> set reqs. rng_ok rng" and "m = length (filter (\<lambda>x. fst x = cap) reqs)" and "m \<le> 2 ^ 64"
    and "p < length (sg_candidate_indexes g)"
  shows "length (filter (\<lambda>r. r = Some (cs ! (sg_candidate_indexes g ! p), Some (sg_number g)))
                  (picks cap (select_run cs RoundRobin reqs index))) =
           m div length (sg_candidate_indexes g) + (if p < m mod length (sg_candidate_indexes g) then 1 else 0) \<and>
         length (picks cap (select_run cs RoundRobin reqs index)) = m"
proof -
  let ?is = "sg_candidate_indexes g" and ?len = "length (sg_candidate_indexes g)"
  have ok: "index_ok cs (length cs) index" using build_ok [OF assms(1)] .
  note gs = index_okD(2) [OF ok assms(4)]
  have "g\<lparr>sg_next := 0\<rparr> = g" using fresh_indexD [OF build_fresh [OF assms(1)] assms(4)] by simp
  then have picks: "picks cap (select_run cs RoundRobin reqs index) =
      map (\<lambda>k. Some (cs ! (?is ! (k mod ?len)), Some (sg_number g))) [0..<m]"
    using round_robin_picks [OF assms(3,6,5) refl ok, of cap 0 post reqs] assms(4,7,8,9) by simp
  have len: "0 < ?len" using assms(10) by linarith
  have "distinct ?is" using group_indexes_distinct gs by simp
  moreover have "\<forall>i \<in> set ?is. i < length cs" using gs by (simp add: groups_ok_def group_ok_def)
  moreover have "distinct cs" using assms(2) by (simp add: distinct_map)
  moreover have "k mod ?len < ?len" for k using len by (rule mod_less_divisor)
  ultimately have same: "(cs ! (?is ! (k mod ?len)) = cs ! (?is ! p)) = (k mod ?len = p)" for k
    using assms(10) by (metis nth_eq_iff_index_eq nth_mem)
  have "length (filter (\<lambda>r. r = Some (cs ! (?is ! p), Some (sg_number g))) (picks cap (select_run cs RoundRobin reqs index))) =
      length (filter (\<lambda>k. k mod ?len = p) [0..<m])"
    unfolding picks filter_map by (simp add: comp_def same)
  also have "\<dots> = card {k. k < m \<and> k mod ?len = p}"
    by (subst distinct_card [symmetric]) (auto intro: arg_cong [of _ _ card])
  finally show ?thesis using mod_count [of ?len p m] len assms(10) picks by simp
qed

section \<open>Witnesses\<close>

text \<open>A model with a drained group before a weighted one, and the same without weights.\<close>

definition demo_candidate :: "string \<Rightarrow> admission_state \<Rightarrow> nat \<Rightarrow> nat option \<Rightarrow> route_candidate" where
  "demo_candidate site state grp weight =
     \<lparr>rc_admission_state = state, rc_cluster = ''c-'' @ site, rc_provider = None, rc_target_model = None, rc_paths = None,
      rc_catalog = None, rc_display_name = None, rc_owned_by = None, rc_created = None, rc_credential = None,
      rc_fresh = True, rc_kind = InferenceModel, rc_name = ''m'', rc_rank = None, rc_selection_group = Some grp,
      rc_traffic_weight = weight, rc_selection_tier = None, rc_site = site, rc_stable_id = ''id-'' @ site\<rparr>"

definition demo_weighted :: "route_candidate list" where
  "demo_weighted = [demo_candidate ''a'' ExistingOnly 0 (Some 5), demo_candidate ''b'' NewAndExisting 1 (Some 3),
                    demo_candidate ''c'' NewAndExisting 1 (Some 1)]"

definition demo_plain :: "route_candidate list" where
  "demo_plain = [demo_candidate ''a'' ExistingOnly 0 None, demo_candidate ''b'' NewAndExisting 1 None,
                 demo_candidate ''c'' NewAndExisting 1 None]"

definition built_index :: "route_candidate list \<Rightarrow> group_index" where
  "built_index cs = (case build cs of Inr index \<Rightarrow> index | Inl _ \<Rightarrow> Map.empty)"

definition demo_group :: "nat \<Rightarrow> admission_state \<Rightarrow> nat list \<Rightarrow> weighted_entry list \<Rightarrow> nat \<Rightarrow> selection_group" where
  "demo_group n state is es t =
     \<lparr>sg_number = n, sg_admission_state = state, sg_candidate_indexes = is, sg_weighted_entries = es,
      sg_total_weight = t, sg_next = 0\<rparr>"

lemma demo_built: "build demo_weighted = Inr (built_index demo_weighted)" "build demo_plain = Inr (built_index demo_plain)"
proof -
  have "\<not> isl (build demo_weighted)" "\<not> isl (build demo_plain)" by code_simp+
  then show "build demo_weighted = Inr (built_index demo_weighted)" "build demo_plain = Inr (built_index demo_plain)"
    by (auto simp: built_index_def split: sum.splits)
qed

lemma demo_groups:
  "built_index demo_weighted (InferenceModel, ''m'') =
     Some [demo_group 0 ExistingOnly [0] [\<lparr>we_candidate_index = 0, we_cumulative_upper_bound = 5\<rparr>] 5,
           demo_group 1 NewAndExisting [1, 2] [\<lparr>we_candidate_index = 1, we_cumulative_upper_bound = 3\<rparr>,
             \<lparr>we_candidate_index = 2, we_cumulative_upper_bound = 4\<rparr>] 4]"
  "built_index demo_plain (InferenceModel, ''m'') = Some [demo_group 0 ExistingOnly [0] [] 0, demo_group 1 NewAndExisting [1, 2] [] 0]"
  by code_simp+

theorem weighted_draws_proportional_witness:
  "card {d. d < 4 \<and> weighted_index_for_draw (demo_group 1 NewAndExisting [1, 2]
      [\<lparr>we_candidate_index = 1, we_cumulative_upper_bound = 3\<rparr>, \<lparr>we_candidate_index = 2, we_cumulative_upper_bound = 4\<rparr>] 4) d =
      Some 1} = 3"
proof -
  let ?g = "demo_group 1 NewAndExisting [1, 2]
      [\<lparr>we_candidate_index = 1, we_cumulative_upper_bound = 3\<rparr>, \<lparr>we_candidate_index = 2, we_cumulative_upper_bound = 4\<rparr>] 4"
  have "1 \<in> set (sg_candidate_indexes ?g)" "rc_traffic_weight (demo_weighted ! 1) = Some 3" by code_simp+
  from weighted_draws_proportional [OF demo_built(1) demo_groups(1) _ this]
  show ?thesis by (simp add: demo_group_def)
qed

definition demo_requests :: "selection_request list" where
  "demo_requests = [((InferenceModel, ''m''), \<lambda>n. 0), ((McpTool, ''m''), \<lambda>n. n - 1), ((InferenceModel, ''m''), \<lambda>n. n - 1)]"

lemma demo_rng_ok: "rng_ok (\<lambda>n. 0)" "rng_ok (\<lambda>n. n - 1)"
  by (simp_all add: rng_ok_def)

theorem selection_serves_best_witness:
  "list_all (\<lambda>(cap, r). best_choice demo_weighted WeightedRandom cap r)
     (select_run demo_weighted WeightedRandom demo_requests (built_index demo_weighted)) \<and>
   map (map_option (rc_site \<circ> fst) \<circ> snd) (select_run demo_weighted WeightedRandom demo_requests (built_index demo_weighted)) =
     [Some ''b'', None, Some ''c'']"
proof -
  have "validate_selection_mode demo_weighted WeightedRandom = Inr ()" by code_simp
  moreover have "\<forall>(cap, rng) \<in> set demo_requests. rng_ok rng" using demo_rng_ok by (simp add: demo_requests_def)
  ultimately have "list_all (\<lambda>(cap, r). best_choice demo_weighted WeightedRandom cap r)
     (select_run demo_weighted WeightedRandom demo_requests (built_index demo_weighted))"
    using selection_serves_best [OF demo_built(1)] by blast
  moreover have "map (map_option (rc_site \<circ> fst) \<circ> snd) (select_run demo_weighted WeightedRandom demo_requests (built_index demo_weighted)) =
     [Some ''b'', None, Some ''c'']" by code_simp
  ultimately show ?thesis by blast
qed

theorem round_robin_fair_witness:
  "length (filter (\<lambda>r. r = Some (demo_plain ! 1, Some 1))
     (picks (InferenceModel, ''m'') (select_run demo_plain RoundRobin (demo_requests @ demo_requests @ demo_requests) (built_index demo_plain)))) = 3"
proof -
  let ?g = "demo_group 1 NewAndExisting [1, 2] [] 0" and ?cap = "(InferenceModel, ''m'')"
  let ?reqs = "demo_requests @ demo_requests @ demo_requests"
  have "distinct (map candidate_identity demo_plain)" "validate_selection_mode demo_plain RoundRobin = Inr ()"
    "list_all (\<lambda>g. sg_admission_state g \<noteq> NewAndExisting) [demo_group 0 ExistingOnly [0] [] 0]"
    "sg_admission_state ?g = NewAndExisting" by code_simp+
  moreover have "6 = length (filter (\<lambda>x. fst x = ?cap) ?reqs)" by (simp add: demo_requests_def)
  moreover have "\<forall>(c, rng) \<in> set ?reqs. rng_ok rng" using demo_rng_ok by (simp add: demo_requests_def)
  moreover have "built_index demo_plain ?cap = Some ([demo_group 0 ExistingOnly [0] [] 0] @ ?g # [])"
    using demo_groups(2) by simp
  ultimately show ?thesis
    using round_robin_fair [OF demo_built(2), of ?cap "[demo_group 0 ExistingOnly [0] [] 0]" ?g "[]" ?reqs 6 0]
    by (simp add: demo_group_def flip: numeral_2_eq_2)
qed

end
