(* ===== verification/Route_Overlay.thy ===== *)
theory Route_Overlay
  imports Json Route_Groups
begin

text \<open>
  The routing overlay, \<^verbatim>\<open>filters/src/routing/overlay.rs\<close>: validation of the versioned envelope and of the
  legacy document, conversion to candidates, the snapshot a gateway serves from, and the hot reload
  that replaces it. Parsing of JSON into values and into the documents, canonical JSON, and the
  parser of timestamps belong to other packages: the record \<open>overlay_lib\<close>. The watched file is given by
  what reading it returns at each event.
\<close>

section \<open>Documents\<close>

definition MAX_OVERLAY_SIZE :: nat where "MAX_OVERLAY_SIZE = 2 * 1024 * 1024"
definition MAX_ENVELOPE_FIELD_LEN :: nat where "MAX_ENVELOPE_FIELD_LEN = 256"
definition SUPPORTED_SCHEMA_VERSION :: string where "SUPPORTED_SCHEMA_VERSION = ''1.0.0''"

datatype contract_format = Envelope | Legacy

record revision_field =
  rv_kind :: string
  rv_algorithm :: string
  rv_value :: string

record digest_field =
  dg_algorithm :: string
  dg_value :: string

record scope_field =
  sc_network :: string
  sc_gateway :: string
  sc_namespace :: string
  sc_local_site :: string

record provenance_field =
  pv_producer :: string
  pv_producer_version :: string
  pv_source_name :: string
  pv_source_uid :: string
  pv_source_generation :: nat
  pv_rendered_at :: string

record expected_overlay_scope =
  ex_network :: "string option"
  ex_gateway :: "string option"
  ex_namespace :: "string option"
  ex_local_site :: "string option"

record overlay_secret_ref =
  os_name :: string
  os_namespace :: string
  os_key :: string

record overlay_credential =
  oc_strategy :: string
  oc_secret_ref :: overlay_secret_ref

record overlay_candidate =
  oy_admission_state :: "string option"
  oy_cluster :: string
  oy_provider :: "string option"
  oy_target_model :: "string option"
  oy_paths :: "string list option"
  oy_catalog :: "string list option"
  oy_display_name :: "string option"
  oy_owned_by :: "string option"
  oy_created :: "int option"
  oy_credential :: "overlay_credential option"
  oy_fresh :: bool
  oy_kind :: string
  oy_name :: string
  oy_rank :: "nat option"
  oy_selection_group :: "nat option"
  oy_traffic_weight :: "nat option"
  oy_selection_tier :: "string option"
  oy_site :: string
  oy_stable_id :: "string option"

record overlay_document =
  od_local_site :: string
  od_candidates :: "overlay_candidate list"
  od_generated_at :: "string option"
  od_network :: "string option"
  od_selection_policy :: "picker_policy option"

record envelope_document =
  ed_schema_version :: string
  ed_revision :: revision_field
  ed_content_digest :: digest_field
  ed_scope :: scope_field
  ed_provenance :: provenance_field
  ed_overlay :: overlay_document

record route_snapshot =
  rs_candidates :: "route_candidate list"
  rs_group_index :: group_index
  rs_selection_mode :: picker_policy
  rs_contract_format :: contract_format
  rs_content_hash :: bytes
  rs_generated_at :: "string option"
  rs_local_site :: string
  rs_schema_version :: "string option"
  rs_semantic_revision :: "string option"

record overlay_lib =
  ol_route :: route_lib
  ol_parse_value :: "bytes \<Rightarrow> string + json"
  ol_parse_envelope :: "bytes \<Rightarrow> string + envelope_document"
  ol_parse_overlay :: "bytes \<Rightarrow> string + overlay_document"
  ol_canonical :: "json \<Rightarrow> string + bytes"
  ol_parse_rfc3339 :: "string \<Rightarrow> string + unit"

definition picker_as_str :: "picker_policy \<Rightarrow> string" where
  "picker_as_str p =
     (case p of Deterministic \<Rightarrow> ''deterministic'' | RoundRobin \<Rightarrow> ''round_robin'' | Random \<Rightarrow> ''random''
      | WeightedRandom \<Rightarrow> ''weighted_random'')"

section \<open>Validation\<close>

text \<open>\<^verbatim>\<open>map_err(|e| format!("..{e}"))\<close>\<close>

definition res_err :: "(string \<Rightarrow> filter_error) \<Rightarrow> string + 'a \<Rightarrow> filter_error + 'a" where
  "res_err f r = (case r of Inl e \<Rightarrow> Inl (f e) | Inr v \<Rightarrow> Inr v)"

definition double_quoted :: "string \<Rightarrow> string" where
  "double_quoted s = CHR 0x22 # s @ [CHR 0x22]"

definition ENVELOPE_SIGNAL_FIELDS :: "string list" where
  "ENVELOPE_SIGNAL_FIELDS = [''schema_version'', ''revision'', ''content_digest'', ''scope'', ''provenance'']"

definition has_envelope_signal :: "json \<Rightarrow> bool" where
  "has_envelope_signal v \<longleftrightarrow> list_ex (\<lambda>f. json_get v f \<noteq> None) ENVELOPE_SIGNAL_FIELDS"

definition validate_hex_value :: "string \<Rightarrow> string \<Rightarrow> filter_error + unit" where
  "validate_hex_value v name =
     (if length v \<noteq> 64 then Inl (''routing: envelope '' @ name @ ''.value must be 64 hex characters'')
      else if \<not> list_all is_lower_hex v then Inl (''routing: envelope '' @ name @ ''.value must be lowercase hex'')
      else Inr ())"

definition validate_revision_shape :: "revision_field \<Rightarrow> string \<Rightarrow> filter_error + unit" where
  "validate_revision_shape field name =
     (if rv_kind field \<noteq> ''content_addressed''
      then Inl (''routing: envelope '' @ name @ ''.kind must be '' @ double_quoted ''content_addressed'')
      else if rv_algorithm field \<noteq> ''sha256''
      then Inl (''routing: envelope '' @ name @ ''.algorithm must be '' @ double_quoted ''sha256'')
      else validate_hex_value (rv_value field) name)"

definition validate_revision_shape_digest :: "digest_field \<Rightarrow> string \<Rightarrow> filter_error + unit" where
  "validate_revision_shape_digest field name =
     (if dg_algorithm field \<noteq> ''sha256''
      then Inl (''routing: envelope '' @ name @ ''.algorithm must be '' @ double_quoted ''sha256'')
      else validate_hex_value (dg_value field) name)"

definition validate_bounded_nonblank :: "string \<Rightarrow> string \<Rightarrow> nat \<Rightarrow> filter_error + unit" where
  "validate_bounded_nonblank field v max_len =
     res_guard (is_blank v \<or> max_len < length v)
       (''routing: envelope '' @ field @ '' must be 1-'' @ show_nat max_len @ '' non-blank bytes'')"

definition validate_envelope_metadata :: "overlay_lib \<Rightarrow> envelope_document \<Rightarrow> filter_error + unit" where
  "validate_envelope_metadata lib envelope =
     res_bind (each_ok (\<lambda>(name, v). validate_bounded_nonblank name v MAX_ENVELOPE_FIELD_LEN)
       [(''scope.network'', sc_network (ed_scope envelope)),
        (''scope.gateway'', sc_gateway (ed_scope envelope)),
        (''scope.namespace'', sc_namespace (ed_scope envelope)),
        (''scope.local_site'', sc_local_site (ed_scope envelope)),
        (''provenance.producer'', pv_producer (ed_provenance envelope)),
        (''provenance.producer_version'', pv_producer_version (ed_provenance envelope)),
        (''provenance.source_name'', pv_source_name (ed_provenance envelope)),
        (''provenance.source_uid'', pv_source_uid (ed_provenance envelope)),
        (''provenance.rendered_at'', pv_rendered_at (ed_provenance envelope))]) (\<lambda>_.
     if pv_source_generation (ed_provenance envelope) = 0
     then Inl ''routing: envelope provenance.source_generation must be positive''
     else res_err (\<lambda>e. ''routing: envelope provenance.rendered_at is not RFC 3339: '' @ e)
            (ol_parse_rfc3339 lib (pv_rendered_at (ed_provenance envelope))))"

definition semantic_value :: "json \<Rightarrow> json" where
  "semantic_value overlay =
     JObject (List.map_filter (\<lambda>k. map_option (Pair k) (json_get overlay k))
       [''candidates'', ''local_site'', ''network'', ''selection_policy''])"

definition compute_semantic_digest :: "overlay_lib \<Rightarrow> json \<Rightarrow> filter_error + string" where
  "compute_semantic_digest lib overlay =
     res_bind (res_err (\<lambda>e. ''routing: canonicalization error: '' @ e) (ol_canonical lib (semantic_value overlay))) (\<lambda>canonical.
       Inr (encode_hex (rl_sha256 (ol_route lib) canonical)))"

definition validate_expected_scope :: "expected_overlay_scope \<Rightarrow> scope_field \<Rightarrow> filter_error + unit" where
  "validate_expected_scope expected scope =
     each_ok (\<lambda>(name, want, got).
         case want of None \<Rightarrow> Inr ()
         | Some w \<Rightarrow> if w \<noteq> got then Inl (''routing: expected scope.'' @ name @ ''='' @ w @ '', got '' @ got) else Inr ())
       [(''network'', ex_network expected, sc_network scope),
        (''gateway'', ex_gateway expected, sc_gateway scope),
        (''namespace'', ex_namespace expected, sc_namespace scope),
        (''local_site'', ex_local_site expected, sc_local_site scope)]"

section \<open>Candidates\<close>

definition overlay_to_config :: "overlay_candidate \<Rightarrow> filter_error + candidate_config" where
  "overlay_to_config oc =
     res_bind (kind_from_overlay_str (oy_kind oc)) (\<lambda>kind. Inr
       \<lparr>cc_cluster = oy_cluster oc, cc_provider = oy_provider oc, cc_target_model = oy_target_model oc,
        cc_paths = oy_paths oc, cc_catalog = oy_catalog oc, cc_display_name = oy_display_name oc,
        cc_owned_by = oy_owned_by oc, cc_created = oy_created oc,
        cc_credential = map_option (\<lambda>c. \<lparr>cd_strategy = oc_strategy c,
          cd_secret_ref = \<lparr>cr_key = os_key (oc_secret_ref c), cr_name = os_name (oc_secret_ref c),
                           cr_namespace = os_namespace (oc_secret_ref c)\<rparr>\<rparr>) (oy_credential oc),
        cc_fresh = oy_fresh oc, cc_kind = kind, cc_name = oy_name oc, cc_site = oy_site oc,
        cc_traffic_weight = oy_traffic_weight oc\<rparr>)"

definition enrich_candidate ::
  "route_lib \<Rightarrow> nat \<Rightarrow> route_candidate \<Rightarrow> overlay_candidate \<Rightarrow> filter_error + route_candidate" where
  "enrich_candidate lib i c oc =
     res_bind (case oy_admission_state oc of
                 None \<Rightarrow> Inr c
               | Some s \<Rightarrow> res_bind (res_err (at_candidate i) (admission_from_overlay_str s)) (\<lambda>a.
                   Inr (c\<lparr>rc_admission_state := a\<rparr>))) (\<lambda>c1.
     let c2 = c1\<lparr>rc_rank := oy_rank oc, rc_selection_group := oy_selection_group oc\<rparr>
     in res_bind (case oy_selection_tier oc of
                    None \<Rightarrow> Inr c2
                  | Some t \<Rightarrow>
                      if is_blank t \<or> 128 < length t
                      then Inl (at_candidate i ''selection_tier must be 1-128 non-blank bytes'')
                      else Inr (c2\<lparr>rc_selection_tier := Some t\<rparr>)) (\<lambda>c3.
     case oy_stable_id oc of
       None \<Rightarrow> Inr c3
     | Some s \<Rightarrow>
         if is_blank s \<or> 256 < length s \<or> rl_header_value lib s \<noteq> Inr ()
         then Inl (at_candidate i ''stable_id must be a valid 1-256 byte header value'')
         else Inr (c3\<lparr>rc_stable_id := s\<rparr>)))"

fun enrich_from ::
  "route_lib \<Rightarrow> nat \<Rightarrow> route_candidate list \<Rightarrow> overlay_candidate list \<Rightarrow> filter_error + route_candidate list" where
  "enrich_from lib i (c # cs) (oc # ocs) =
     res_bind (enrich_candidate lib i c oc) (\<lambda>c'. res_bind (enrich_from lib (Suc i) cs ocs) (\<lambda>cs'. Inr (c' # cs')))"
| "enrich_from lib i cs [] = Inr cs"
| "enrich_from lib i [] ocs = Inr []"

definition enrich_from_overlay ::
  "route_lib \<Rightarrow> route_candidate list \<Rightarrow> overlay_candidate list \<Rightarrow> filter_error + route_candidate list" where
  "enrich_from_overlay lib candidates overlay = enrich_from lib 0 candidates overlay"

fun unique_ids_from :: "string set \<Rightarrow> nat \<Rightarrow> route_candidate list \<Rightarrow> filter_error + unit" where
  "unique_ids_from seen i [] = Inr ()"
| "unique_ids_from seen i (c # cs) =
     (if rc_stable_id c \<in> seen then Inl (at_candidate i (''duplicate stable_id '' @ quoted (rc_stable_id c)))
      else unique_ids_from (insert (rc_stable_id c) seen) (Suc i) cs)"

definition validate_unique_stable_ids :: "route_candidate list \<Rightarrow> filter_error + unit" where
  "validate_unique_stable_ids candidates = unique_ids_from {} 0 candidates"

definition overlay_to_candidates :: "route_lib \<Rightarrow> overlay_document \<Rightarrow> bool \<Rightarrow> filter_error + route_candidate list" where
  "overlay_to_candidates lib doc allow_empty =
     res_bind (res_map overlay_to_config (od_candidates doc)) (\<lambda>raw.
     res_bind (if allow_empty then validate_overlay_candidates lib raw else validate_candidates lib raw) (\<lambda>candidates.
     res_bind (enrich_from_overlay lib candidates (od_candidates doc)) (\<lambda>enriched.
     res_bind (validate_unique_stable_ids enriched) (\<lambda>_. Inr enriched))))"

section \<open>Snapshots\<close>

text \<open>The end of both constructors: from the document to the snapshot.\<close>

definition snapshot_of ::
  "route_lib \<Rightarrow> overlay_document \<Rightarrow> contract_format \<Rightarrow> bytes \<Rightarrow> string option \<Rightarrow> string option \<Rightarrow> filter_error + route_snapshot" where
  "snapshot_of lib doc format content_hash schema_version semantic_revision =
     (let selection_mode = (case od_selection_policy doc of None \<Rightarrow> Deterministic | Some mode \<Rightarrow> mode)
      in res_bind (validate_local_site (od_local_site doc)) (\<lambda>_.
         res_bind (overlay_to_candidates lib doc (format = Envelope)) (\<lambda>candidates.
         res_bind (validate_selection_mode candidates selection_mode) (\<lambda>_.
         res_bind (build candidates) (\<lambda>index.
         Inr \<lparr>rs_candidates = candidates, rs_group_index = index, rs_selection_mode = selection_mode,
              rs_contract_format = format, rs_content_hash = content_hash, rs_generated_at = od_generated_at doc,
              rs_local_site = od_local_site doc, rs_schema_version = schema_version,
              rs_semantic_revision = semantic_revision\<rparr>)))))"

definition from_legacy :: "overlay_lib \<Rightarrow> bytes \<Rightarrow> bytes \<Rightarrow> filter_error + route_snapshot" where
  "from_legacy lib content content_hash =
     res_bind (res_err (\<lambda>e. ''routing: overlay parse error: '' @ e) (ol_parse_overlay lib content)) (\<lambda>doc.
       snapshot_of (ol_route lib) doc Legacy content_hash None None)"

definition check_digest :: "overlay_lib \<Rightarrow> json \<Rightarrow> envelope_document \<Rightarrow> filter_error + unit" where
  "check_digest lib v envelope =
     (if rv_value (ed_revision envelope) \<noteq> dg_value (ed_content_digest envelope)
      then Inl ''routing: envelope revision and content_digest disagree''
      else
        res_bind (ok_or (json_get v ''overlay'') ''routing: envelope missing overlay field'') (\<lambda>overlay_value.
        res_bind (compute_semantic_digest lib overlay_value) (\<lambda>recomputed.
        if recomputed \<noteq> dg_value (ed_content_digest envelope)
        then Inl (''routing: envelope digest mismatch: expected '' @ dg_value (ed_content_digest envelope) @
                  '', computed '' @ recomputed)
        else Inr ())))"

definition check_scope :: "envelope_document \<Rightarrow> expected_overlay_scope option \<Rightarrow> filter_error + unit" where
  "check_scope envelope expected_scope =
     (let scope = ed_scope envelope; overlay = ed_overlay envelope
      in res_bind (ok_or (od_network overlay) ''routing: envelope overlay.network is required'') (\<lambda>overlay_network.
         if overlay_network \<noteq> sc_network scope
         then Inl (''routing: envelope scope.network ('' @ sc_network scope @ '') != overlay.network ('' @ overlay_network @ '')'')
         else if sc_local_site scope \<noteq> od_local_site overlay
         then Inl (''routing: envelope scope.local_site ('' @ sc_local_site scope @ '') != overlay.local_site ('' @
                   od_local_site overlay @ '')'')
         else if pv_source_name (ed_provenance envelope) \<noteq> sc_network scope
         then Inl (''routing: envelope provenance.source_name ('' @ pv_source_name (ed_provenance envelope) @
                   '') != scope.network ('' @ sc_network scope @ '')'')
         else (case expected_scope of None \<Rightarrow> Inr () | Some expected \<Rightarrow> validate_expected_scope expected scope)))"

definition from_envelope ::
  "overlay_lib \<Rightarrow> bytes \<Rightarrow> bytes \<Rightarrow> json \<Rightarrow> expected_overlay_scope option \<Rightarrow> filter_error + route_snapshot" where
  "from_envelope lib content content_hash v expected_scope =
     res_bind (res_err (\<lambda>e. ''routing: envelope parse error: '' @ e) (ol_parse_envelope lib content)) (\<lambda>envelope.
     if ed_schema_version envelope \<noteq> SUPPORTED_SCHEMA_VERSION
     then Inl (''routing: unsupported envelope schema version: '' @ ed_schema_version envelope)
     else
       res_bind (validate_envelope_metadata lib envelope) (\<lambda>_.
       res_bind (validate_revision_shape (ed_revision envelope) ''revision'') (\<lambda>_.
       res_bind (validate_revision_shape_digest (ed_content_digest envelope) ''content_digest'') (\<lambda>_.
       res_bind (check_digest lib v envelope) (\<lambda>_.
       res_bind (check_scope envelope expected_scope) (\<lambda>_.
         snapshot_of (ol_route lib) (ed_overlay envelope) Envelope content_hash
           (Some (ed_schema_version envelope)) (Some (rv_value (ed_revision envelope)))))))))"

definition from_overlay_with_scope ::
  "overlay_lib \<Rightarrow> bytes \<Rightarrow> expected_overlay_scope option \<Rightarrow> filter_error + route_snapshot" where
  "from_overlay_with_scope lib content expected_scope =
     (let content_hash = rl_sha256 (ol_route lib) content
      in res_bind (res_err (\<lambda>e. ''routing: overlay parse error: '' @ e) (ol_parse_value lib content)) (\<lambda>v.
         if has_envelope_signal v then from_envelope lib content content_hash v expected_scope
         else if expected_scope \<noteq> None
         then Inl ''routing: expected envelope format (expected_overlay_scope is configured) but received legacy payload''
         else from_legacy lib content content_hash))"

definition from_static :: "route_candidate list \<Rightarrow> string \<Rightarrow> route_snapshot" where
  "from_static candidates local_site =
     \<lparr>rs_candidates = candidates, rs_group_index = Map.empty, rs_selection_mode = Deterministic,
      rs_contract_format = Legacy, rs_content_hash = replicate 32 0, rs_generated_at = None,
      rs_local_site = local_site, rs_schema_version = None, rs_semantic_revision = None\<rparr>"

section \<open>Hot reload\<close>

text \<open>What opening and reading the file returns: an error, or the bytes it holds.\<close>

type_synonym file_read = "string + bytes"

definition read_overlay_bounded :: "file_read \<Rightarrow> string + bytes" where
  "read_overlay_bounded file =
     res_bind file (\<lambda>data.
       let limit = MAX_OVERLAY_SIZE + 1; buf = take limit data
       in if MAX_OVERLAY_SIZE < length buf
          then Inl (''overlay file exceeds '' @ show_nat MAX_OVERLAY_SIZE @ '' byte limit'') else Inr buf)"

definition is_semantically_unchanged :: "route_snapshot \<Rightarrow> route_snapshot \<Rightarrow> bool" where
  "is_semantically_unchanged current candidate \<longleftrightarrow>
     rs_semantic_revision current \<noteq> None \<and> rs_semantic_revision candidate = rs_semantic_revision current"

definition handle_overlay_reload ::
  "overlay_lib \<Rightarrow> expected_overlay_scope option \<Rightarrow> file_read \<Rightarrow> route_snapshot \<Rightarrow> route_snapshot" where
  "handle_overlay_reload lib expected_scope file snapshot =
     (case read_overlay_bounded file of
        Inl _ \<Rightarrow> snapshot
      | Inr content \<Rightarrow>
          if rl_sha256 (ol_route lib) content = rs_content_hash snapshot then snapshot
          else
            (case from_overlay_with_scope lib content expected_scope of
               Inl _ \<Rightarrow> snapshot
             | Inr new_snap \<Rightarrow> if is_semantically_unchanged snapshot new_snap then snapshot else new_snap))"

text \<open>
  The events of the watcher: a change, with whether shutdown came during the debounce and what the
  file holds after it, or a shutdown. The loop ends at a shutdown.
\<close>

datatype watch_event = Changed bool file_read | Shutdown

fun run_event_loop ::
  "overlay_lib \<Rightarrow> expected_overlay_scope option \<Rightarrow> watch_event list \<Rightarrow> route_snapshot \<Rightarrow> route_snapshot" where
  "run_event_loop lib expected_scope [] snapshot = snapshot"
| "run_event_loop lib expected_scope (Shutdown # events) snapshot = snapshot"
| "run_event_loop lib expected_scope (Changed cancelled file # events) snapshot =
     (if cancelled then snapshot
      else run_event_loop lib expected_scope events (handle_overlay_reload lib expected_scope file snapshot))"

definition watch_loop ::
  "overlay_lib \<Rightarrow> expected_overlay_scope option \<Rightarrow> file_read \<Rightarrow> watch_event list \<Rightarrow> route_snapshot \<Rightarrow> route_snapshot" where
  "watch_loop lib expected_scope file events snapshot =
     run_event_loop lib expected_scope events (handle_overlay_reload lib expected_scope file snapshot)"

section \<open>What an accepted overlay is\<close>

definition snapshot_ok :: "route_lib \<Rightarrow> route_snapshot \<Rightarrow> bool" where
  "snapshot_ok lib snap \<longleftrightarrow>
     list_all candidate_ok (rs_candidates snap) \<and> list_all (stable_id_ok lib) (map rc_stable_id (rs_candidates snap)) \<and>
     distinct (map candidate_identity (rs_candidates snap)) \<and> distinct (map rc_stable_id (rs_candidates snap)) \<and>
     length (rs_candidates snap) \<le> MAX_CANDIDATES \<and> name_ok (rs_local_site snap) \<and>
     build (rs_candidates snap) = Inr (rs_group_index snap) \<and>
     validate_selection_mode (rs_candidates snap) (rs_selection_mode snap) = Inr ()"

definition scope_matches :: "expected_overlay_scope \<Rightarrow> scope_field \<Rightarrow> bool" where
  "scope_matches expected scope \<longleftrightarrow>
     ex_network expected \<in> {None, Some (sc_network scope)} \<and> ex_gateway expected \<in> {None, Some (sc_gateway scope)} \<and>
     ex_namespace expected \<in> {None, Some (sc_namespace scope)} \<and> ex_local_site expected \<in> {None, Some (sc_local_site scope)}"

text \<open>
  The envelope behind a snapshot: its revision is the digest of the semantic part of the overlay
  that the same bytes hold, and its scope is that of the overlay, of its provenance, and the expected one.
\<close>

definition envelope_verified ::
  "overlay_lib \<Rightarrow> bytes \<Rightarrow> expected_overlay_scope option \<Rightarrow> route_snapshot \<Rightarrow> envelope_document \<Rightarrow> json \<Rightarrow> bytes \<Rightarrow> bool" where
  "envelope_verified lib content expected snap envelope overlay canonical \<longleftrightarrow>
     ol_parse_envelope lib content = Inr envelope \<and>
     (\<exists>v. ol_parse_value lib content = Inr v \<and> json_get v ''overlay'' = Some overlay) \<and>
     ol_canonical lib (semantic_value overlay) = Inr canonical \<and>
     rs_semantic_revision snap = Some (encode_hex (rl_sha256 (ol_route lib) canonical)) \<and>
     rs_schema_version snap = Some ''1.0.0'' \<and> rs_local_site snap = sc_local_site (ed_scope envelope) \<and>
     od_network (ed_overlay envelope) = Some (sc_network (ed_scope envelope)) \<and>
     pv_source_name (ed_provenance envelope) = sc_network (ed_scope envelope) \<and>
     0 < pv_source_generation (ed_provenance envelope) \<and>
     pred_option (\<lambda>e. scope_matches e (ed_scope envelope)) expected"

lemma res_err_Inr [simp]: "res_err f r = Inr v \<longleftrightarrow> r = Inr v"
  by (cases r) (simp_all add: res_err_def)

lemma enrich_candidate_cases:
  assumes "enrich_candidate lib i c oc = Inr c'"
  obtains a r g t s where "c' = c\<lparr>rc_admission_state := a, rc_rank := r, rc_selection_group := g, rc_selection_tier := t,
      rc_stable_id := s\<rparr>" "s = rc_stable_id c \<or> stable_id_ok lib s"
proof -
  from assms obtain c1 c3 where c1: "(case oy_admission_state oc of None \<Rightarrow> Inr c
      | Some s \<Rightarrow> res_bind (res_err (at_candidate i) (admission_from_overlay_str s)) (\<lambda>a. Inr (c\<lparr>rc_admission_state := a\<rparr>))) = Inr c1"
    and c3: "(case oy_selection_tier oc of None \<Rightarrow> Inr (c1\<lparr>rc_rank := oy_rank oc, rc_selection_group := oy_selection_group oc\<rparr>)
      | Some t \<Rightarrow> if is_blank t \<or> 128 < length t then Inl (at_candidate i ''selection_tier must be 1-128 non-blank bytes'')
          else Inr (c1\<lparr>rc_rank := oy_rank oc, rc_selection_group := oy_selection_group oc, rc_selection_tier := Some t\<rparr>)) = Inr c3"
    and c': "(case oy_stable_id oc of None \<Rightarrow> Inr c3
      | Some s \<Rightarrow> if is_blank s \<or> 256 < length s \<or> rl_header_value lib s \<noteq> Inr ()
          then Inl (at_candidate i ''stable_id must be a valid 1-256 byte header value'') else Inr (c3\<lparr>rc_stable_id := s\<rparr>)) = Inr c'"
    unfolding enrich_candidate_def res_bind_Inr_iff Let_def by blast
  from c1 obtain a where a: "c1 = c\<lparr>rc_admission_state := a\<rparr>"
    by (cases "oy_admission_state oc") (auto simp: res_bind_Inr_iff intro: that [of "rc_admission_state c"])
  from c3 obtain t where t: "c3 = c1\<lparr>rc_rank := oy_rank oc, rc_selection_group := oy_selection_group oc, rc_selection_tier := t\<rparr>"
    by (cases "oy_selection_tier oc") (auto split: if_splits intro: that [of "rc_selection_tier c1"])
  from c' obtain s where "c' = c3\<lparr>rc_stable_id := s\<rparr>" "s = rc_stable_id c3 \<or> stable_id_ok lib s"
    by (cases "oy_stable_id oc") (auto simp: stable_id_ok_def split: if_splits intro: that [of "rc_stable_id c3"])
  with a t that show ?thesis by simp
qed

lemma enrich_candidate_Inr:
  assumes "enrich_candidate lib i c oc = Inr c'" "stable_id_ok lib (rc_stable_id c)"
  shows "candidate_ok c' = candidate_ok c \<and> candidate_identity c' = candidate_identity c \<and> stable_id_ok lib (rc_stable_id c')"
proof -
  from enrich_candidate_cases [OF assms(1)] obtain a r g t s where
    "c' = c\<lparr>rc_admission_state := a, rc_rank := r, rc_selection_group := g, rc_selection_tier := t, rc_stable_id := s\<rparr>"
    "s = rc_stable_id c \<or> stable_id_ok lib s" .
  with assms(2) show ?thesis by (auto simp: candidate_ok_def candidate_identity_def)
qed

lemma enrich_from_Inr:
  "enrich_from lib i cs ocs = Inr cs' \<Longrightarrow> list_all (\<lambda>c. stable_id_ok lib (rc_stable_id c)) cs \<Longrightarrow>
   list_all candidate_ok cs' = list_all candidate_ok cs \<and> map candidate_identity cs' = map candidate_identity cs \<and>
   list_all (\<lambda>c. stable_id_ok lib (rc_stable_id c)) cs'"
proof (induction lib i cs ocs arbitrary: cs' rule: enrich_from.induct)
  case (1 lib i c cs oc ocs)
  then obtain c' ds where c': "enrich_candidate lib i c oc = Inr c'" and ds: "enrich_from lib (Suc i) cs ocs = Inr ds" "cs' = c' # ds"
    by (auto simp: res_bind_Inr_iff)
  from enrich_candidate_Inr [OF c'] "1.IH" [OF ds(1)] "1.prems" ds(2) show ?case by simp
qed simp_all

lemma unique_ids_from_Inr:
  "unique_ids_from seen i cs = Inr () \<longleftrightarrow> distinct (map rc_stable_id cs) \<and> (\<forall>c \<in> set cs. rc_stable_id c \<notin> seen)"
proof (induction cs arbitrary: seen i)
  case (Cons c cs)
  show ?case
  proof (cases "rc_stable_id c \<in> seen")
    case False
    then show ?thesis using Cons.IH [of "insert (rc_stable_id c) seen" "Suc i"] by (simp add: image_iff) metis
  qed simp
qed simp

lemma validate_by_flag:
  "(if e then validate_overlay_candidates lib raw else validate_candidates lib raw) = validate_candidates_with_empty lib raw e"
  by (simp add: validate_overlay_candidates_def validate_candidates_def)

lemma overlay_to_candidates_Inr:
  assumes "overlay_to_candidates lib doc e = Inr cs" "route_lib_laws lib"
  shows "list_all candidate_ok cs" "list_all (stable_id_ok lib) (map rc_stable_id cs)"
    "distinct (map candidate_identity cs)" "distinct (map rc_stable_id cs)" "length cs \<le> MAX_CANDIDATES"
proof -
  obtain raw ds where ds: "validate_candidates_with_empty lib raw e = Inr ds"
    and cs: "enrich_from lib 0 ds (od_candidates doc) = Inr cs" "unique_ids_from {} 0 cs = Inr ()"
    using assms(1) unfolding overlay_to_candidates_def res_bind_Inr_iff validate_by_flag
    by (auto simp: enrich_from_overlay_def validate_unique_stable_ids_def)
  have "list_all2 (taken_from lib) raw ds" using validate_candidates_Inr(2) [OF ds] .
  then have "list_all (\<lambda>c. stable_id_ok lib (rc_stable_id c)) ds"
    by (induction rule: list_all2_induct) (simp_all add: taken_from_def default_stable_id_ok [OF assms(2)])
  from enrich_from_Inr [OF cs(1) this] validate_candidates_Inr [OF ds] cs(2)
  show "list_all candidate_ok cs" "list_all (stable_id_ok lib) (map rc_stable_id cs)"
    "distinct (map candidate_identity cs)" "distinct (map rc_stable_id cs)" "length cs \<le> MAX_CANDIDATES"
    by (simp_all add: unique_ids_from_Inr list.pred_map comp_def) (metis length_map)
qed

lemma snapshot_of_Inr:
  assumes "snapshot_of lib doc format h schema revision = Inr snap" "route_lib_laws lib"
  shows "snapshot_ok lib snap \<and> rs_contract_format snap = format \<and> rs_content_hash snap = h \<and>
         rs_schema_version snap = schema \<and> rs_semantic_revision snap = revision \<and> rs_local_site snap = od_local_site doc"
proof -
  from assms(1) obtain cs where "overlay_to_candidates lib doc (format = Envelope) = Inr cs"
    and snap: "rs_candidates snap = cs" "name_ok (rs_local_site snap)" "build cs = Inr (rs_group_index snap)"
      "validate_selection_mode cs (rs_selection_mode snap) = Inr ()" "rs_contract_format snap = format"
      "rs_content_hash snap = h" "rs_schema_version snap = schema" "rs_semantic_revision snap = revision"
      "rs_local_site snap = od_local_site doc"
    by (auto simp: snapshot_of_def res_bind_Inr_iff Let_def validate_local_site_def)
  from overlay_to_candidates_Inr [OF this(1) assms(2)] snap show ?thesis by (simp add: snapshot_ok_def)
qed

lemma validate_expected_scope_Inr: "validate_expected_scope expected scope = Inr () \<longleftrightarrow> scope_matches expected scope"
  by (auto simp: validate_expected_scope_def scope_matches_def each_ok_Inr split: option.splits)

lemma check_scope_Inr:
  "check_scope envelope expected = Inr () \<Longrightarrow>
   od_network (ed_overlay envelope) = Some (sc_network (ed_scope envelope)) \<and>
   sc_local_site (ed_scope envelope) = od_local_site (ed_overlay envelope) \<and>
   pv_source_name (ed_provenance envelope) = sc_network (ed_scope envelope) \<and>
   pred_option (\<lambda>e. scope_matches e (ed_scope envelope)) expected"
  by (auto simp: check_scope_def Let_def res_bind_Inr_iff validate_expected_scope_Inr split: if_splits option.splits)

lemma check_digest_Inr:
  "check_digest lib v envelope = Inr () \<Longrightarrow>
   \<exists>overlay canonical. json_get v ''overlay'' = Some overlay \<and> ol_canonical lib (semantic_value overlay) = Inr canonical \<and>
     rv_value (ed_revision envelope) = encode_hex (rl_sha256 (ol_route lib) canonical)"
  by (auto simp: check_digest_def compute_semantic_digest_def res_bind_Inr_iff split: if_splits)

lemma from_envelope_Inr:
  assumes "from_envelope lib content h v expected = Inr snap" "route_lib_laws (ol_route lib)" "ol_parse_value lib content = Inr v"
  shows "snapshot_ok (ol_route lib) snap \<and> rs_contract_format snap = Envelope \<and> rs_content_hash snap = h \<and>
         (\<exists>envelope overlay canonical. envelope_verified lib content expected snap envelope overlay canonical)"
proof -
  from assms(1) obtain envelope where env: "ol_parse_envelope lib content = Inr envelope"
    "ed_schema_version envelope = ''1.0.0''" "0 < pv_source_generation (ed_provenance envelope)"
    and dg: "check_digest lib v envelope = Inr ()" and sc: "check_scope envelope expected = Inr ()"
    and snap: "snapshot_of (ol_route lib) (ed_overlay envelope) Envelope h (Some (ed_schema_version envelope))
        (Some (rv_value (ed_revision envelope))) = Inr snap"
    by (auto simp: from_envelope_def res_bind_Inr_iff validate_envelope_metadata_def SUPPORTED_SCHEMA_VERSION_def
        split: if_splits)
  from check_digest_Inr [OF dg] obtain overlay canonical where
    "json_get v ''overlay'' = Some overlay" "ol_canonical lib (semantic_value overlay) = Inr canonical"
    "rv_value (ed_revision envelope) = encode_hex (rl_sha256 (ol_route lib) canonical)" by blast
  with env check_scope_Inr [OF sc] snapshot_of_Inr [OF snap assms(2)] assms(3)
  have "envelope_verified lib content expected snap envelope overlay canonical" by (simp add: envelope_verified_def)
  with snapshot_of_Inr [OF snap assms(2)] show ?thesis by blast
qed

text \<open>
  C10. An overlay is accepted only if everything in it checks. The snapshot of an accepted file has
  bounded, distinct, well-formed candidates whose identifiers are distinct and fit a header, groups
  and weights that fit its selection mode, and the hash of the file. If it came from an envelope, its
  revision is the recomputed digest of the overlay in the same bytes and its scope is consistent and
  the expected one; if a scope is expected, nothing but an envelope is accepted.
\<close>

theorem accepted_overlay_verified:
  assumes "from_overlay_with_scope lib content expected = Inr snap" and "route_lib_laws (ol_route lib)"
  shows "snapshot_ok (ol_route lib) snap \<and> rs_content_hash snap = rl_sha256 (ol_route lib) content \<and>
         (expected \<noteq> None \<longrightarrow> rs_contract_format snap = Envelope) \<and>
         (case rs_contract_format snap of
            Legacy \<Rightarrow> rs_semantic_revision snap = None
          | Envelope \<Rightarrow> \<exists>envelope overlay canonical. envelope_verified lib content expected snap envelope overlay canonical)"
proof -
  from assms(1) obtain v where v: "ol_parse_value lib content = Inr v"
    and s: "if has_envelope_signal v then from_envelope lib content (rl_sha256 (ol_route lib) content) v expected = Inr snap
      else expected = None \<and> from_legacy lib content (rl_sha256 (ol_route lib) content) = Inr snap"
    by (auto simp: from_overlay_with_scope_def Let_def res_bind_Inr_iff split: if_splits)
  show ?thesis
  proof (cases "has_envelope_signal v")
    case True
    with from_envelope_Inr [OF _ assms(2) v] s show ?thesis by simp
  next
    case False
    with s obtain doc where "snapshot_of (ol_route lib) doc Legacy (rl_sha256 (ol_route lib) content) None None = Inr snap"
      and "expected = None" by (auto simp: from_legacy_def res_bind_Inr_iff)
    with snapshot_of_Inr [OF _ assms(2)] show ?thesis by force
  qed
qed

section \<open>What a gateway serves\<close>

text \<open>
  The files a watcher reads, in order, until it is shut down, and the contents among them that are
  accepted. A snapshot agrees with an accepted content if it has its hash or its revision.
\<close>

fun files_read :: "watch_event list \<Rightarrow> file_read list" where
  "files_read [] = []"
| "files_read (Shutdown # events) = []"
| "files_read (Changed cancelled file # events) = (if cancelled then [] else file # files_read events)"

definition accepted_content :: "overlay_lib \<Rightarrow> expected_overlay_scope option \<Rightarrow> file_read \<Rightarrow> bytes option" where
  "accepted_content lib expected file =
     (case read_overlay_bounded file of
        Inl _ \<Rightarrow> None
      | Inr content \<Rightarrow> if isl (from_overlay_with_scope lib content expected) then None else Some content)"

definition agrees :: "overlay_lib \<Rightarrow> expected_overlay_scope option \<Rightarrow> bytes \<Rightarrow> route_snapshot \<Rightarrow> bool" where
  "agrees lib expected content snap \<longleftrightarrow>
     rl_sha256 (ol_route lib) content = rs_content_hash snap \<or>
     (case from_overlay_with_scope lib content expected of Inl _ \<Rightarrow> False | Inr s \<Rightarrow> is_semantically_unchanged snap s)"

lemma run_event_loop_fold:
  "run_event_loop lib expected events snap = fold (handle_overlay_reload lib expected) (files_read events) snap"
  by (induction lib expected events snap rule: run_event_loop.induct) simp_all

lemma from_overlay_hash: "from_overlay_with_scope lib content expected = Inr s \<Longrightarrow> rs_content_hash s = rl_sha256 (ol_route lib) content"
  by (auto simp: from_overlay_with_scope_def from_envelope_def from_legacy_def snapshot_of_def Let_def res_bind_Inr_iff
      split: if_splits)

lemma accepted_agrees: "from_overlay_with_scope lib content expected = Inr s \<Longrightarrow> agrees lib expected content s"
  by (simp add: agrees_def from_overlay_hash)

lemma reload_cases:
  "handle_overlay_reload lib expected file snap = snap \<and>
     (\<forall>content. accepted_content lib expected file = Some content \<longrightarrow> agrees lib expected content snap) \<or>
   (\<exists>content. accepted_content lib expected file = Some content \<and>
     from_overlay_with_scope lib content expected = Inr (handle_overlay_reload lib expected file snap))"
  by (auto simp: handle_overlay_reload_def accepted_content_def agrees_def isl_def split: sum.splits)

lemma reload_fold:
  "from_overlay_with_scope lib c expected = Inr s \<Longrightarrow> c \<in> set cs \<Longrightarrow> cs \<noteq> [] \<Longrightarrow> agrees lib expected (last cs) s \<Longrightarrow>
   (\<exists>c \<in> set (cs @ List.map_filter (accepted_content lib expected) files).
      from_overlay_with_scope lib c expected = Inr (fold (handle_overlay_reload lib expected) files s)) \<and>
   agrees lib expected (last (cs @ List.map_filter (accepted_content lib expected) files))
     (fold (handle_overlay_reload lib expected) files s)"
proof (induction files arbitrary: c cs s)
  case (Cons f fs)
  let ?s = "handle_overlay_reload lib expected f s"
  show ?case
  proof (cases "accepted_content lib expected f")
    case None
    with reload_cases [of lib expected f s] have "?s = s" by auto
    with Cons None show ?thesis by (simp add: map_filter_simps)
  next
    case (Some content)
    have "\<exists>d \<in> set (cs @ [content]). from_overlay_with_scope lib d expected = Inr ?s"
      using reload_cases [of lib expected f s] Some Cons.prems(1,2) by auto
    moreover have "agrees lib expected content ?s"
      using reload_cases [of lib expected f s] Some accepted_agrees by auto
    ultimately have "(\<exists>c \<in> set ((cs @ [content]) @ List.map_filter (accepted_content lib expected) fs).
        from_overlay_with_scope lib c expected = Inr (fold (handle_overlay_reload lib expected) fs ?s)) \<and>
      agrees lib expected (last ((cs @ [content]) @ List.map_filter (accepted_content lib expected) fs))
        (fold (handle_overlay_reload lib expected) fs ?s)"
      using Cons.IH [of _ ?s "cs @ [content]"] by auto
    then show ?thesis using Some by (simp add: map_filter_simps)
  qed
qed (auto simp: map_filter_simps)

text \<open>
  C18. Hot reload keeps the last good overlay. A gateway that started from an accepted content serves,
  after any sequence of changes of the file, a snapshot of the start or of one of the contents that
  were read and accepted, never of a rejected, oversized or unreadable one; and the snapshot it serves
  agrees, in hash or in revision, with the last content accepted.
\<close>

theorem reload_keeps_last_good:
  assumes "from_overlay_with_scope lib c0 expected = Inr s0"
    and "accepted = c0 # List.map_filter (accepted_content lib expected) (file # files_read events)"
  shows "(\<exists>c \<in> set accepted. from_overlay_with_scope lib c expected = Inr (watch_loop lib expected file events s0)) \<and>
         agrees lib expected (last accepted) (watch_loop lib expected file events s0)"
proof -
  have "agrees lib expected c0 s0" using accepted_agrees [OF assms(1)] .
  with reload_fold [OF assms(1), of "[c0]" "file # files_read events"] show ?thesis
    unfolding assms(2) watch_loop_def run_event_loop_fold by simp
qed

section \<open>Witnesses\<close>

text \<open>
  Three contents: an envelope with the candidates of a model, the same envelope written anew, and a
  legacy document. The canonical form keeps the number of fields, the digest is padding.
\<close>

definition demo_entry :: "string \<Rightarrow> nat option \<Rightarrow> overlay_candidate" where
  "demo_entry site grp =
     \<lparr>oy_admission_state = None, oy_cluster = ''c-'' @ site, oy_provider = None, oy_target_model = None, oy_paths = None,
      oy_catalog = None, oy_display_name = None, oy_owned_by = None, oy_created = None, oy_credential = None,
      oy_fresh = True, oy_kind = ''inference_model'', oy_name = ''m'', oy_rank = None, oy_selection_group = grp,
      oy_traffic_weight = None, oy_selection_tier = None, oy_site = site, oy_stable_id = None\<rparr>"

definition demo_overlay :: overlay_document where
  "demo_overlay = \<lparr>od_local_site = ''s'', od_candidates = [demo_entry ''a'' (Some 0), demo_entry ''b'' (Some 1)],
     od_generated_at = None, od_network = Some ''n'', od_selection_policy = Some RoundRobin\<rparr>"

definition demo_envelope :: envelope_document where
  "demo_envelope =
     \<lparr>ed_schema_version = ''1.0.0'',
      ed_revision = \<lparr>rv_kind = ''content_addressed'', rv_algorithm = ''sha256'', rv_value = replicate 64 (CHR ''0'')\<rparr>,
      ed_content_digest = \<lparr>dg_algorithm = ''sha256'', dg_value = replicate 64 (CHR ''0'')\<rparr>,
      ed_scope = \<lparr>sc_network = ''n'', sc_gateway = ''g'', sc_namespace = ''ns'', sc_local_site = ''s''\<rparr>,
      ed_provenance = \<lparr>pv_producer = ''p'', pv_producer_version = ''1'', pv_source_name = ''n'', pv_source_uid = ''u'',
        pv_source_generation = 1, pv_rendered_at = ''2026-01-01T00:00:00Z''\<rparr>,
      ed_overlay = demo_overlay\<rparr>"

definition demo_route_lib :: route_lib where
  "demo_route_lib = \<lparr>rl_header_value = (\<lambda>s. if list_all (\<lambda>c. is_visible c \<or> c = CHR '' '') s then Inr () else Inl ''invalid''),
     rl_header_name = (\<lambda>s. Inr (to_ascii_lowercase s)), rl_sha256 = (\<lambda>b. take 32 (b @ replicate 32 0))\<rparr>"

definition demo_overlay_lib :: overlay_lib where
  "demo_overlay_lib = \<lparr>ol_route = demo_route_lib,
     ol_parse_value = (\<lambda>c. if c = [1] \<or> c = [2] then Inr (JObject [(''schema_version'', JString ''1.0.0''), (''overlay'', JObject [])])
        else if c = [3] then Inr (JObject []) else Inl ''syntax''),
     ol_parse_envelope = (\<lambda>c. if c = [1] \<or> c = [2] then Inr demo_envelope else Inl ''syntax''),
     ol_parse_overlay = (\<lambda>c. if c = [3] then Inr (demo_overlay\<lparr>od_selection_policy := None\<rparr>) else Inl ''syntax''),
     ol_canonical = (\<lambda>v. Inr []), ol_parse_rfc3339 = (\<lambda>s. Inr ())\<rparr>"

definition demo_snapshot :: "bytes \<Rightarrow> route_snapshot" where
  "demo_snapshot c = (case from_overlay_with_scope demo_overlay_lib c None of Inr s \<Rightarrow> s | Inl _ \<Rightarrow> from_static [] [])"

definition demo_scope :: expected_overlay_scope where
  "demo_scope = \<lparr>ex_network = Some ''n'', ex_gateway = None, ex_namespace = None, ex_local_site = Some ''s''\<rparr>"

lemma demo_route_lib_laws: "route_lib_laws demo_route_lib"
  by (auto simp: route_lib_laws_def demo_route_lib_def list_all_iff)

lemma demo_overlay_accepted: "c \<in> {[1], [3]} \<Longrightarrow> from_overlay_with_scope demo_overlay_lib c None = Inr (demo_snapshot c)"
proof -
  have "\<not> isl (from_overlay_with_scope demo_overlay_lib [1] None)" "\<not> isl (from_overlay_with_scope demo_overlay_lib [3] None)"
    by code_simp+
  then show "c \<in> {[1], [3]} \<Longrightarrow> from_overlay_with_scope demo_overlay_lib c None = Inr (demo_snapshot c)"
    by (auto simp: demo_snapshot_def isl_def split: sum.splits)
qed

theorem accepted_overlay_verified_witness:
  "\<exists>snap. from_overlay_with_scope demo_overlay_lib [1] (Some demo_scope) = Inr snap \<and> snapshot_ok demo_route_lib snap \<and>
     (\<exists>envelope overlay canonical. envelope_verified demo_overlay_lib [1] (Some demo_scope) snap envelope overlay canonical)"
proof -
  have "\<not> isl (from_overlay_with_scope demo_overlay_lib [1] (Some demo_scope))" by code_simp
  then obtain snap where snap: "from_overlay_with_scope demo_overlay_lib [1] (Some demo_scope) = Inr snap"
    by (cases "from_overlay_with_scope demo_overlay_lib [1] (Some demo_scope)") simp_all
  have r: "ol_route demo_overlay_lib = demo_route_lib" by (simp add: demo_overlay_lib_def)
  from accepted_overlay_verified [OF snap, unfolded r, OF demo_route_lib_laws] snap show ?thesis by auto
qed

definition demo_events :: "watch_event list" where
  "demo_events = [Changed False (Inr [9]), Changed False (Inr [2]), Changed False (Inl ''gone''), Changed True (Inr [3])]"

theorem reload_keeps_last_good_witness:
  "agrees demo_overlay_lib None [2] (watch_loop demo_overlay_lib None (Inr [1]) demo_events (demo_snapshot [3])) \<and>
   rs_selection_mode (watch_loop demo_overlay_lib None (Inr [1]) demo_events (demo_snapshot [3])) = RoundRobin"
proof -
  have "[[3], [1], [2]] = [3] # List.map_filter (accepted_content demo_overlay_lib None) (Inr [1] # files_read demo_events)"
    by code_simp
  from reload_keeps_last_good [OF demo_overlay_accepted [of "[3]"] this]
  have "agrees demo_overlay_lib None [2] (watch_loop demo_overlay_lib None (Inr [1]) demo_events (demo_snapshot [3]))" by simp
  moreover have "rs_selection_mode (watch_loop demo_overlay_lib None (Inr [1]) demo_events (demo_snapshot [3])) = RoundRobin"
    by code_simp
  ultimately show ?thesis by blast
qed

end
