(* ===== verification/Intelligent_Route.thy ===== *)
theory Intelligent_Route
  imports Route_Overlay
begin

text \<open>
  The filter that routes a request to a candidate, \<^verbatim>\<open>filters/src/routing/intelligent_route.rs\<close>: its configuration,
  the lookup of the capability a request names, session affinity, the decision and what it writes.
  What the proxy framework and other packages provide is the record \<open>route_api\<close>: header values, the
  setter of metadata, and JSON. A header of the request is absent, present but not readable as a
  string, or its string. Each call is given its clock readings, its random draws and the identifier
  the framework generates for a provider hop. Telemetry is left out.
\<close>

section \<open>Configuration\<close>

definition MAX_HEADER_VALUE_LEN :: nat where "MAX_HEADER_VALUE_LEN = 256"
definition MAX_BINDINGS :: nat where "MAX_BINDINGS = 10000"
definition MAX_TTL_SECS :: nat where "MAX_TTL_SECS = 86400"
definition MAX_SKIP_PATHS :: nat where "MAX_SKIP_PATHS = 64"
definition MAX_SKIP_PATH_LEN :: nat where "MAX_SKIP_PATH_LEN = 256"

record session_affinity_config =
  sac_cookie :: "string option"
  sac_enabled :: bool
  sac_header :: "string option"
  sac_ttl_secs :: nat

record reload_config =
  rlc_enabled :: bool
  rlc_debounce_ms :: nat

definition reload_default :: reload_config where
  "reload_default = \<lparr>rlc_enabled = True, rlc_debounce_ms = 500\<rparr>"

text \<open>The path of the overlay comes with what reading it returns.\<close>

record intelligent_route_config =
  irc_candidates :: "candidate_config list option"
  irc_local_site :: "string option"
  irc_model_header :: string
  irc_body_authoritative :: bool
  irc_skip_paths :: "string list"
  irc_management_cluster :: "string option"
  irc_provider_hop_clusters :: "string list"
  irc_expected_overlay_scope :: "expected_overlay_scope option"
  irc_overlay_file :: "(string \<times> file_read) option"
  irc_reload :: "reload_config option"
  irc_session_affinity :: "session_affinity_config option"

record binding =
  bd_expires :: nat
  bd_stable_id :: string

record session_affinity =
  sa_bindings :: "(string \<times> binding) list"
  sa_cookie :: "string option"
  sa_header :: "string option"
  sa_ttl :: nat

record route_filter =
  rf_provider_hop_clusters :: "string set"
  rf_model_header :: string
  rf_body_authoritative :: bool
  rf_skip_paths :: "string list"
  rf_management_cluster :: "string option"
  rf_watched :: bool
  rf_session_affinity :: "session_affinity option"
  rf_snapshot :: route_snapshot

definition ir_error :: "string \<Rightarrow> filter_error" where
  "ir_error msg = ''intelligent_route: '' @ msg"

fun validate_hop_clusters_from :: "string set \<Rightarrow> string list \<Rightarrow> filter_error + string set" where
  "validate_hop_clusters_from validated [] = Inr validated"
| "validate_hop_clusters_from validated (cluster # clusters) =
     res_bind (validate_name ''provider_hop_clusters'' cluster) (\<lambda>_.
     if cluster \<in> validated then Inl (ir_error ''duplicate provider_hop_clusters entry'')
     else validate_hop_clusters_from (insert cluster validated) clusters)"

definition validate_provider_hop_clusters :: "string list \<Rightarrow> filter_error + string set" where
  "validate_provider_hop_clusters clusters = validate_hop_clusters_from {} clusters"

definition validate_management_cluster :: "string option \<Rightarrow> string list \<Rightarrow> filter_error + string option" where
  "validate_management_cluster management_cluster skip_paths =
     (case management_cluster of
        None \<Rightarrow> Inr None
      | Some cluster \<Rightarrow>
          res_bind (validate_name ''management_cluster'' cluster) (\<lambda>_.
          if skip_paths = [] then Inl (ir_error ''management_cluster requires a non-empty skip_paths'')
          else Inr (Some cluster)))"

definition strip_trailing_slash :: "string \<Rightarrow> string" where
  "strip_trailing_slash s = (if s \<noteq> [] \<and> last s = CHR ''/'' then butlast s else s)"

fun validate_skip_paths_from :: "string list \<Rightarrow> string list \<Rightarrow> filter_error + string list" where
  "validate_skip_paths_from out [] = Inr out"
| "validate_skip_paths_from out (path # paths) =
     (if path = [] \<or> MAX_SKIP_PATH_LEN < length path
      then Inl (ir_error (''skip_paths entry must be 1-'' @ show_nat MAX_SKIP_PATH_LEN @ '' characters''))
      else if \<not> starts_with path ''/'' then Inl (ir_error (''skip_paths entry '' @ quoted path @ '' must start with '' @ quoted ''/''))
      else if any_char space_width path \<or> any_char control_width path \<or> CHR ''?'' \<in> set path \<or> CHR ''#'' \<in> set path
      then Inl (ir_error (''skip_paths entry '' @ quoted path @ '' must not contain whitespace, control characters, '' @
                quoted ''?'' @ '', or '' @ quoted ''#''))
      else
        (let normalized = strip_trailing_slash path
         in validate_skip_paths_from (if normalized \<in> set out then out else out @ [normalized]) paths))"

definition validate_skip_paths :: "string list \<Rightarrow> filter_error + string list" where
  "validate_skip_paths raw =
     (if MAX_SKIP_PATHS < length raw
      then Inl (ir_error (''skip_paths must not exceed '' @ show_nat MAX_SKIP_PATHS @ '' entries''))
      else validate_skip_paths_from [] raw)"

definition strip_prefix :: "string \<Rightarrow> string \<Rightarrow> string option" where
  "strip_prefix s p = (if starts_with s p then Some (drop (length p) s) else None)"

definition path_is_management :: "string \<Rightarrow> string list \<Rightarrow> bool" where
  "path_is_management path skip_paths \<longleftrightarrow>
     list_ex (\<lambda>prefix. case strip_prefix path prefix of
        Some rest \<Rightarrow> rest = [] \<or> starts_with rest ''/'' | None \<Rightarrow> False) skip_paths"

definition validate_session_affinity_config :: "session_affinity_config \<Rightarrow> filter_error + unit" where
  "validate_session_affinity_config cfg =
     (let has = (\<lambda>v. case v of None \<Rightarrow> False | Some h \<Rightarrow> \<not> is_blank h)
      in if \<not> has (sac_header cfg) \<and> \<not> has (sac_cookie cfg)
         then Inl (ir_error ''session_affinity requires at least one of header or cookie'')
         else if sac_ttl_secs cfg = 0 \<or> MAX_TTL_SECS < sac_ttl_secs cfg
         then Inl (ir_error (''session_affinity.ttl_secs must be 1-'' @ show_nat MAX_TTL_SECS))
         else Inr ())"

definition not_blank :: "string option \<Rightarrow> string option" where
  "not_blank v = (case v of None \<Rightarrow> None | Some s \<Rightarrow> if is_blank s then None else Some s)"

definition build_session_affinity ::
  "route_lib \<Rightarrow> session_affinity_config option \<Rightarrow> filter_error + session_affinity option" where
  "build_session_affinity lib config =
     (case config of
        None \<Rightarrow> Inr None
      | Some cfg \<Rightarrow>
          if \<not> sac_enabled cfg then Inr None
          else
            res_bind (validate_session_affinity_config cfg) (\<lambda>_.
            res_bind (case not_blank (sac_header cfg) of
                        None \<Rightarrow> Inr None
                      | Some h \<Rightarrow> res_bind (res_err (\<lambda>e. ir_error (''invalid session_affinity.header: '' @ e)) (rl_header_name lib h))
                                    (\<lambda>n. Inr (Some n))) (\<lambda>header.
            Inr (Some \<lparr>sa_bindings = [], sa_cookie = not_blank (sac_cookie cfg), sa_header = header,
                       sa_ttl = duration_from_secs (sac_ttl_secs cfg)\<rparr>))))"

definition build_static_snapshot :: "route_lib \<Rightarrow> candidate_config list \<Rightarrow> string option \<Rightarrow> filter_error + route_snapshot" where
  "build_static_snapshot lib candidates_raw local_site =
     res_bind (ok_or local_site (ir_error ''local_site is required when candidates is set'')) (\<lambda>site.
     res_bind (validate_local_site site) (\<lambda>_.
     if list_ex (\<lambda>c. cc_traffic_weight c \<noteq> None) candidates_raw
     then Inl (ir_error ''traffic_weight requires overlay mode with selection_policy.mode=weightedRandom'')
     else res_bind (validate_candidates lib candidates_raw) (\<lambda>candidates. Inr (from_static candidates site))))"

text \<open>With the snapshot comes whether a watcher was started; starting it is up to the operating system.\<close>

definition build_overlay_snapshot ::
  "overlay_lib \<Rightarrow> (string + unit) \<Rightarrow> string \<times> file_read \<Rightarrow> reload_config \<Rightarrow> expected_overlay_scope option \<Rightarrow>
   filter_error + route_snapshot \<times> bool" where
  "build_overlay_snapshot lib spawn file reload expected_scope =
     res_bind (res_err (\<lambda>e. ir_error (''failed to read overlay file '' @ fst file @ '': '' @ e)) (read_overlay_bounded (snd file))) (\<lambda>content.
     res_bind (from_overlay_with_scope lib content expected_scope) (\<lambda>snap.
     if rlc_enabled reload then res_bind spawn (\<lambda>_. Inr (snap, True)) else Inr (snap, False)))"

definition build_route_snapshot ::
  "overlay_lib \<Rightarrow> (string + unit) \<Rightarrow> intelligent_route_config \<Rightarrow> filter_error + route_snapshot \<times> bool" where
  "build_route_snapshot lib spawn cfg =
     (if irc_overlay_file cfg \<noteq> None \<and> irc_candidates cfg \<noteq> None
      then Inl (ir_error ''cannot set both overlay_file and candidates'')
      else if irc_overlay_file cfg = None \<and> irc_expected_overlay_scope cfg \<noteq> None
      then Inl (ir_error ''expected_overlay_scope requires envelope overlay_file mode'')
      else
        (case irc_overlay_file cfg of
           Some file \<Rightarrow>
             build_overlay_snapshot lib spawn file
               (case irc_reload cfg of None \<Rightarrow> reload_default | Some r \<Rightarrow> r) (irc_expected_overlay_scope cfg)
         | None \<Rightarrow>
             (case irc_candidates cfg of
                Some candidates_raw \<Rightarrow>
                  if irc_reload cfg \<noteq> None then Inl (ir_error ''reload block is not valid with static candidates'')
                  else res_bind (build_static_snapshot (ol_route lib) candidates_raw (irc_local_site cfg)) (\<lambda>snap. Inr (snap, False))
              | None \<Rightarrow> Inl (ir_error ''either overlay_file or candidates must be set''))))"

definition from_config ::
  "overlay_lib \<Rightarrow> (string + unit) \<Rightarrow> intelligent_route_config \<Rightarrow> filter_error + route_filter" where
  "from_config lib spawn cfg =
     res_bind (validate_model_header (ol_route lib) (irc_model_header cfg)) (\<lambda>model_header.
     res_bind (validate_skip_paths (irc_skip_paths cfg)) (\<lambda>skip_paths.
     res_bind (validate_management_cluster (irc_management_cluster cfg) skip_paths) (\<lambda>management_cluster.
     res_bind (build_route_snapshot lib spawn cfg) (\<lambda>(snapshot, watched).
     res_bind (build_session_affinity (ol_route lib) (irc_session_affinity cfg)) (\<lambda>session_affinity.
     res_bind (validate_provider_hop_clusters (irc_provider_hop_clusters cfg)) (\<lambda>provider_hop_clusters.
     Inr \<lparr>rf_provider_hop_clusters = provider_hop_clusters, rf_model_header = model_header,
          rf_body_authoritative = irc_body_authoritative cfg, rf_skip_paths = skip_paths,
          rf_management_cluster = management_cluster, rf_watched = watched,
          rf_session_affinity = session_affinity, rf_snapshot = snapshot\<rparr>))))))"

section \<open>Requests\<close>

record route_api =
  ra_lib :: route_lib
  ra_set_metadata :: set_metadata
  ra_from_slice :: "bytes \<Rightarrow> json option"
  ra_to_vec :: "json \<Rightarrow> string + bytes"

record route_ctx =
  rx_cluster :: "string option"
  rx_metadata :: metadata
  rx_headers :: "string \<Rightarrow> string option option"
  rx_path :: string
  rx_rewritten_path :: "string option"
  rx_headers_to_remove :: "string list"
  rx_headers_to_set :: "(string \<times> string) list"

record route_inputs =
  ri_clk :: clock
  ri_rng :: random_range
  ri_hop_id :: string

datatype filter_action = Continue | Reject nat

definition set_meta :: "route_api \<Rightarrow> string \<Rightarrow> string \<Rightarrow> route_ctx \<Rightarrow> route_ctx" where
  "set_meta api key v ctx = ctx\<lparr>rx_metadata := ra_set_metadata api (rx_metadata ctx) key v\<rparr>"

definition push_set :: "string \<Rightarrow> string \<Rightarrow> route_ctx \<Rightarrow> route_ctx" where
  "push_set name v ctx = ctx\<lparr>rx_headers_to_set := rx_headers_to_set ctx @ [(name, v)]\<rparr>"

definition try_management_skip :: "route_api \<Rightarrow> route_filter \<Rightarrow> route_ctx \<Rightarrow> (filter_action \<times> route_ctx) option" where
  "try_management_skip api flt ctx =
     (let path = (case rx_rewritten_path ctx of Some p \<Rightarrow> p | None \<Rightarrow> rx_path ctx)
      in if \<not> path_is_management path (rf_skip_paths flt) then None
         else if rx_cluster ctx \<noteq> None then Some (Continue, ctx)
         else
           (case rf_management_cluster flt of
              Some cluster \<Rightarrow> Some (Continue, ctx\<lparr>rx_cluster := Some cluster\<rparr>)
            | None \<Rightarrow> Some (Continue, set_meta api ''intelligent_route.management_skip'' ''true'' ctx)))"

subsection \<open>The capability a request names\<close>

datatype lookup = Lookup_Route capability_kind string | Lookup_Skip | Lookup_Invalid

definition extract_mcp_lookup :: "route_ctx \<Rightarrow> string \<Rightarrow> lookup" where
  "extract_mcp_lookup ctx method =
     (if method \<noteq> ''tools/call'' then Lookup_Skip
      else
        (case rx_metadata ctx ''mcp.name'' of
           None \<Rightarrow> Lookup_Invalid
         | Some name \<Rightarrow>
             if is_blank name \<or> MAX_HEADER_VALUE_LEN < length name then Lookup_Invalid else Lookup_Route McpTool name))"

definition extract_model_lookup :: "route_ctx \<Rightarrow> string \<Rightarrow> lookup" where
  "extract_model_lookup ctx model_header =
     (case rx_headers ctx model_header of
        None \<Rightarrow> Lookup_Skip
      | Some None \<Rightarrow> Lookup_Invalid
      | Some (Some model) \<Rightarrow>
          if is_blank model \<or> MAX_HEADER_VALUE_LEN < length model then Lookup_Invalid else Lookup_Route InferenceModel model)"

definition extract_lookup :: "route_ctx \<Rightarrow> string \<Rightarrow> lookup" where
  "extract_lookup ctx model_header =
     (case rx_metadata ctx ''mcp.method'' of
        Some mcp_method \<Rightarrow> extract_mcp_lookup ctx mcp_method
      | None \<Rightarrow> extract_model_lookup ctx model_header)"

definition extract_body_model_lookup :: "route_api \<Rightarrow> bytes option \<Rightarrow> lookup" where
  "extract_body_model_lookup api body =
     (case Option.bind body (ra_from_slice api) of
        None \<Rightarrow> Lookup_Skip
      | Some v \<Rightarrow>
          (case Option.bind (json_get v ''model'') json_as_str of
             None \<Rightarrow> Lookup_Skip
           | Some model \<Rightarrow>
               if is_blank model \<or> MAX_HEADER_VALUE_LEN < length model then Lookup_Invalid
               else Lookup_Route InferenceModel model))"

subsection \<open>Session affinity\<close>

datatype affinity_outcome = Inactive | NoKey | New | Failover | Reused route_candidate

fun split_on :: "char \<Rightarrow> string \<Rightarrow> string list" where
  "split_on c [] = [[]]"
| "split_on c (x # xs) =
     (if x = c then [] # split_on c xs
      else (case split_on c xs of [] \<Rightarrow> [[x]] | part # parts \<Rightarrow> (x # part) # parts))"

fun first_cookie :: "string \<Rightarrow> string list \<Rightarrow> string option" where
  "first_cookie prefix [] = None"
| "first_cookie prefix (part # parts) =
     (case strip_prefix (str_trim part) prefix of
        Some v \<Rightarrow> if v \<noteq> [] \<and> length v \<le> MAX_HEADER_VALUE_LEN then Some v else first_cookie prefix parts
      | None \<Rightarrow> first_cookie prefix parts)"

definition extract_cookie_value :: "route_ctx \<Rightarrow> string \<Rightarrow> string option" where
  "extract_cookie_value ctx name =
     (case rx_headers ctx ''cookie'' of
        Some (Some cookie_str) \<Rightarrow> first_cookie (name @ ''='') (split_on (CHR '';'') cookie_str)
      | _ \<Rightarrow> None)"

definition extract_session_key :: "session_affinity \<Rightarrow> route_ctx \<Rightarrow> string option" where
  "extract_session_key affinity ctx =
     (case Option.bind (sa_header affinity) (\<lambda>name. Option.bind (rx_headers ctx name) (\<lambda>v. Option.bind v (\<lambda>raw.
             let s = str_trim raw in if s \<noteq> [] \<and> length s \<le> MAX_HEADER_VALUE_LEN then Some s else None))) of
        Some s \<Rightarrow> Some s
      | None \<Rightarrow> Option.bind (sa_cookie affinity) (extract_cookie_value ctx))"

text \<open>The lookup takes one clock reading; an expired binding is removed in a second critical section.\<close>

definition binding_read :: "session_affinity \<Rightarrow> string \<Rightarrow> nat \<Rightarrow> binding option \<times> bool" where
  "binding_read affinity key now =
     (case map_of (sa_bindings affinity) key of
        None \<Rightarrow> (None, False)
      | Some b \<Rightarrow> if bd_expires b < now then (None, True) else (Some b, False))"

definition binding_remove :: "session_affinity \<Rightarrow> string \<Rightarrow> session_affinity" where
  "binding_remove affinity key = affinity\<lparr>sa_bindings := AList.delete key (sa_bindings affinity)\<rparr>"

definition find_bound :: "route_candidate list \<Rightarrow> capability_kind \<Rightarrow> string \<Rightarrow> string \<Rightarrow> affinity_outcome" where
  "find_bound candidates kind name stable_id =
     (case find (\<lambda>c. rc_kind c = kind \<and> rc_name c = name \<and> rc_stable_id c = stable_id) candidates of
        None \<Rightarrow> Failover
      | Some c \<Rightarrow> if rc_admission_state c = Excluded then Failover else Reused c)"

definition lookup_binding ::
  "session_affinity \<Rightarrow> string \<Rightarrow> route_candidate list \<Rightarrow> capability_kind \<Rightarrow> string \<Rightarrow> nat \<Rightarrow>
   affinity_outcome \<times> session_affinity" where
  "lookup_binding affinity key candidates kind name now =
     (case binding_read affinity key now of
        (None, expired) \<Rightarrow> (New, if expired then binding_remove affinity key else affinity)
      | (Some b, _) \<Rightarrow> (find_bound candidates kind name (bd_stable_id b), affinity))"

definition resolve_affinity ::
  "session_affinity option \<Rightarrow> string option \<Rightarrow> route_candidate list \<Rightarrow> capability_kind \<Rightarrow> string \<Rightarrow> nat \<Rightarrow>
   affinity_outcome \<times> session_affinity option" where
  "resolve_affinity affinity session_key candidates kind name now =
     (case affinity of
        None \<Rightarrow> (Inactive, None)
      | Some aff \<Rightarrow>
          (case session_key of
             None \<Rightarrow> (NoKey, Some aff)
           | Some key \<Rightarrow> apsnd Some (lookup_binding aff key candidates kind name now)))"

definition evict_expired :: "session_affinity \<Rightarrow> nat \<Rightarrow> session_affinity" where
  "evict_expired affinity now =
     affinity\<lparr>sa_bindings := filter (\<lambda>(k, b). now < bd_expires b) (sa_bindings affinity)\<rparr>"

text \<open>The readings: for the eviction, and for the new expiry.\<close>

definition store_binding :: "session_affinity \<Rightarrow> string \<Rightarrow> string \<Rightarrow> nat \<Rightarrow> nat \<Rightarrow> session_affinity" where
  "store_binding affinity key stable_id now1 now2 =
     (let aff = (if MAX_BINDINGS \<le> length (sa_bindings affinity) then evict_expired affinity now1 else affinity)
      in if MAX_BINDINGS \<le> length (sa_bindings aff) then aff
         else aff\<lparr>sa_bindings := AList.update key \<lparr>bd_expires = now2 + sa_ttl aff, bd_stable_id = stable_id\<rparr> (sa_bindings aff)\<rparr>)"

subsection \<open>The decision\<close>

definition SELECTED_CANDIDATE_HEADER :: string where "SELECTED_CANDIDATE_HEADER = ''x-ai-routing-candidate''"
definition PROVIDER_HOP_REQUEST_ID_HEADER :: string where "PROVIDER_HOP_REQUEST_ID_HEADER = ''x-ai-routing-request-id''"
definition OVERLAY_REVISION_HEADER :: string where "OVERLAY_REVISION_HEADER = ''x-ai-routing-revision''"
definition PROVIDER_HEADER :: string where "PROVIDER_HEADER = ''x-praxis-ai-provider''"

fun join_commas :: "string list \<Rightarrow> string" where
  "join_commas [] = []"
| "join_commas [p] = p"
| "join_commas (p # ps) = p @ '','' @ join_commas ps"

definition set_optional_meta :: "route_api \<Rightarrow> string \<Rightarrow> string option \<Rightarrow> route_ctx \<Rightarrow> route_ctx" where
  "set_optional_meta api key v ctx = (case v of None \<Rightarrow> ctx | Some x \<Rightarrow> set_meta api key x ctx)"

definition record_selection_metadata :: "route_api \<Rightarrow> route_ctx \<Rightarrow> nat option \<Rightarrow> picker_policy \<Rightarrow> route_ctx" where
  "record_selection_metadata api ctx grp mode =
     (case grp of
        None \<Rightarrow> ctx
      | Some n \<Rightarrow>
          set_meta api ''intelligent_route.selection_mode'' (picker_as_str mode)
            (set_meta api ''intelligent_route.selection_group'' (show_nat n) ctx))"

definition record_route_decision :: "route_api \<Rightarrow> route_ctx \<Rightarrow> string \<Rightarrow> route_candidate \<Rightarrow> route_ctx" where
  "record_route_decision api ctx local_site c =
     (let c1 = set_meta api ''intelligent_route.admission_state'' (admission_as_str (rc_admission_state c)) ctx;
          c2 = set_meta api ''intelligent_route.cluster'' (rc_cluster c) c1;
          c3 = set_meta api ''intelligent_route.kind'' (kind_as_str (rc_kind c)) c2;
          c4 = set_meta api ''intelligent_route.local_site'' local_site c3;
          c5 = set_meta api ''intelligent_route.name'' (rc_name c) c4;
          c6 = set_meta api ''intelligent_route.site'' (rc_site c) c5;
          c7 = set_meta api ''intelligent_route.stable_id'' (rc_stable_id c) c6;
          c8 = (case rc_target_model c of
                  None \<Rightarrow> c7
                | Some target_model \<Rightarrow>
                    set_optional_meta api ''intelligent_route.target_paths'' (map_option join_commas (rc_paths c))
                      (set_meta api ''intelligent_route.target_model'' target_model c7));
          c9 = (case rc_provider c of
                  Some provider \<Rightarrow>
                    if rc_kind c = InferenceModel \<and> rl_header_value (ra_lib api) provider = Inr ()
                    then push_set PROVIDER_HEADER provider c8 else c8
                | None \<Rightarrow> c8);
          c10 = set_optional_meta api ''intelligent_route.rank'' (map_option show_nat (rc_rank c)) c9;
          c11 = set_optional_meta api ''intelligent_route.selection_tier'' (rc_selection_tier c) c10
      in c11\<lparr>rx_metadata := set_credential_metadata (ra_set_metadata api) (rx_metadata c11) (rc_credential c)\<rparr>)"

text \<open>What was pushed before an error stays pushed.\<close>

definition write_provider_context ::
  "route_api \<Rightarrow> route_ctx \<Rightarrow> route_candidate \<Rightarrow> string set \<Rightarrow> string option \<Rightarrow> string \<Rightarrow> (filter_error + unit) \<times> route_ctx" where
  "write_provider_context api ctx c provider_hop_clusters semantic_revision hop_request_id =
     (if rc_cluster c \<notin> provider_hop_clusters then (Inr (), ctx)
      else if is_blank (rc_stable_id c) \<or> MAX_HEADER_VALUE_LEN < length (rc_stable_id c)
      then (Inl (ir_error (''selected candidate ID must be 1-'' @ show_nat MAX_HEADER_VALUE_LEN @ '' non-blank bytes'')), ctx)
      else
        (case rl_header_value (ra_lib api) (rc_stable_id c) of
           Inl e \<Rightarrow> (Inl (ir_error (''selected candidate ID is not a valid header value: '' @ e)), ctx)
         | Inr _ \<Rightarrow>
             (case rl_header_value (ra_lib api) hop_request_id of
                Inl e \<Rightarrow> (Inl (ir_error (''generated provider-hop request ID is invalid: '' @ e)), ctx)
              | Inr _ \<Rightarrow>
                  (let ctx1 = push_set PROVIDER_HOP_REQUEST_ID_HEADER hop_request_id
                                (push_set SELECTED_CANDIDATE_HEADER (rc_stable_id c) ctx);
                       finish = set_meta api ''intelligent_route.provider_hop_request_id'' hop_request_id
                   in case semantic_revision of
                        None \<Rightarrow> (Inr (), finish ctx1)
                      | Some revision \<Rightarrow>
                          (case rl_header_value (ra_lib api) revision of
                             Inl e \<Rightarrow> (Inl (ir_error (''invalid serving overlay revision: '' @ e)), ctx1)
                           | Inr _ \<Rightarrow> (Inr (), finish (push_set OVERLAY_REVISION_HEADER revision ctx1)))))))"

definition apply_route ::
  "route_api \<Rightarrow> route_inputs \<Rightarrow> route_filter \<Rightarrow> route_ctx \<Rightarrow> route_candidate \<Rightarrow> nat option \<Rightarrow> (filter_error + unit) \<times> route_ctx" where
  "apply_route api inp flt ctx c selection_group =
     (let snap = rf_snapshot flt;
          ctx1 = record_route_decision api (ctx\<lparr>rx_cluster := Some (rc_cluster c)\<rparr>) (rs_local_site snap) c
      in case write_provider_context api ctx1 c (rf_provider_hop_clusters flt) (rs_semantic_revision snap) (ri_hop_id inp) of
           (Inl e, ctx2) \<Rightarrow> (Inl e, ctx2)
         | (Inr _, ctx2) \<Rightarrow> (Inr (), record_selection_metadata api ctx2 selection_group (rs_selection_mode snap)))"

definition session_meta :: "route_api \<Rightarrow> bool \<Rightarrow> bool \<Rightarrow> bool \<Rightarrow> route_ctx \<Rightarrow> route_ctx" where
  "session_meta api bound reused failover ctx =
     (let show = (\<lambda>b. if b then ''true'' else ''false'')
      in set_meta api ''intelligent_route.session.failover'' (show failover)
           (set_meta api ''intelligent_route.session.reused'' (show reused)
             (set_meta api ''intelligent_route.session.bound'' (show bound) ctx)))"

definition apply_reused ::
  "route_api \<Rightarrow> route_inputs \<Rightarrow> route_filter \<Rightarrow> route_ctx \<Rightarrow> route_candidate \<Rightarrow> (filter_error + filter_action) \<times> route_ctx" where
  "apply_reused api inp flt ctx c =
     (case apply_route api inp flt ctx c (rc_selection_group c) of
        (Inl e, ctx') \<Rightarrow> (Inl e, ctx')
      | (Inr _, ctx') \<Rightarrow> (Inr Continue, session_meta api True True False ctx'))"

definition record_session ::
  "route_api \<Rightarrow> route_inputs \<Rightarrow> session_affinity \<Rightarrow> route_ctx \<Rightarrow> string \<Rightarrow> string option \<Rightarrow> bool \<Rightarrow> session_affinity \<times> route_ctx" where
  "record_session api inp affinity ctx stable_id session_key failover =
     (case session_key of
        Some key \<Rightarrow> (store_binding affinity key stable_id (ri_clk inp 1) (ri_clk inp 2), session_meta api True False failover ctx)
      | None \<Rightarrow> (affinity, session_meta api False False failover ctx))"

definition select_and_route ::
  "route_api \<Rightarrow> route_inputs \<Rightarrow> route_filter \<Rightarrow> route_ctx \<Rightarrow> capability_kind \<Rightarrow> string \<Rightarrow>
   (filter_error + filter_action) \<times> route_ctx \<times> route_filter" where
  "select_and_route api inp flt ctx kind name =
     (let snap = rf_snapshot flt;
          session_key = Option.bind (rf_session_affinity flt) (\<lambda>a. extract_session_key a ctx)
      in case resolve_affinity (rf_session_affinity flt) session_key (rs_candidates snap) kind name (ri_clk inp 0) of
           (outcome, affinity) \<Rightarrow>
             (let flt1 = flt\<lparr>rf_session_affinity := affinity\<rparr>
              in case outcome of
                   Reused c \<Rightarrow> (case apply_reused api inp flt1 ctx c of (r, ctx') \<Rightarrow> (r, ctx', flt1))
                 | _ \<Rightarrow>
                     (case select_candidate (rs_candidates snap) (rs_group_index snap) kind name (rs_selection_mode snap) (ri_rng inp) of
                        (pick, index) \<Rightarrow>
                          (let flt2 = flt1\<lparr>rf_snapshot := snap\<lparr>rs_group_index := index\<rparr>\<rparr>
                           in case pick of
                                None \<Rightarrow> (Inr (Reject 404), ctx, flt2)
                              | Some (c, selection_group) \<Rightarrow>
                                  (case apply_route api inp flt1 ctx c selection_group of
                                     (Inl e, ctx') \<Rightarrow> (Inl e, ctx', flt2)
                                   | (Inr _, ctx') \<Rightarrow>
                                       (case affinity of
                                          None \<Rightarrow> (Inr Continue, ctx', flt2)
                                        | Some aff \<Rightarrow>
                                            (case record_session api inp aff ctx' (rc_stable_id c) session_key (outcome = Failover) of
                                               (aff', ctx'') \<Rightarrow>
                                                 (Inr Continue, ctx'', flt2\<lparr>rf_session_affinity := Some aff'\<rparr>))))))))"

subsection \<open>The handlers\<close>

definition route_on_request ::
  "route_api \<Rightarrow> route_inputs \<Rightarrow> route_filter \<Rightarrow> route_ctx \<Rightarrow> (filter_error + filter_action) \<times> route_ctx \<times> route_filter" where
  "route_on_request api inp flt ctx0 =
     (let ctx = ctx0\<lparr>rx_headers_to_remove := rx_headers_to_remove ctx0 @
            [SELECTED_CANDIDATE_HEADER, PROVIDER_HOP_REQUEST_ID_HEADER, OVERLAY_REVISION_HEADER, PROVIDER_HEADER]\<rparr>
      in case try_management_skip api flt ctx of
           Some (action, ctx') \<Rightarrow> (Inr action, ctx', flt)
         | None \<Rightarrow>
             if rx_cluster ctx \<noteq> None then (Inr Continue, ctx, flt)
             else if rf_body_authoritative flt \<and> rx_metadata ctx ''mcp.method'' = None then (Inr Continue, ctx, flt)
             else
               (case extract_lookup ctx (rf_model_header flt) of
                  Lookup_Route kind name \<Rightarrow> select_and_route api inp flt ctx kind name
                | Lookup_Skip \<Rightarrow> (Inr Continue, ctx, flt)
                | Lookup_Invalid \<Rightarrow> (Inr (Reject 400), ctx, flt)))"

definition rewrite_selected_model ::
  "route_api \<Rightarrow> route_ctx \<Rightarrow> bytes option \<Rightarrow> (filter_error + unit) \<times> route_ctx \<times> bytes option" where
  "rewrite_selected_model api ctx body =
     (case (body, rx_metadata ctx ''intelligent_route.target_model'') of
        (Some raw, Some target_model) \<Rightarrow>
          if (case rx_metadata ctx ''intelligent_route.target_paths'' of
                None \<Rightarrow> False | Some paths \<Rightarrow> rx_path ctx \<notin> set (split_on (CHR '','') paths))
          then (Inr (), ctx, body)
          else
            (case Option.bind (ra_from_slice api raw) json_as_object of
               None \<Rightarrow> (Inr (), ctx, body)
             | Some object \<Rightarrow>
                 (case Option.bind (map_of object ''model'') json_as_str of
                    None \<Rightarrow> (Inr (), ctx, body)
                  | Some client_model \<Rightarrow>
                      (let ctx' = set_meta api ''model_to_provider.client_model'' client_model ctx
                       in if client_model = target_model then (Inr (), ctx', body)
                          else
                            (case ra_to_vec api (JObject (AList.update ''model'' (JString target_model) object)) of
                               Inl e \<Rightarrow> (Inl (ir_error (''request serialization failed: '' @ e)), ctx', body)
                             | Inr bytes \<Rightarrow> (Inr (), ctx', Some bytes)))))
      | _ \<Rightarrow> (Inr (), ctx, body))"

definition body_lookup :: "route_api \<Rightarrow> route_filter \<Rightarrow> route_ctx \<Rightarrow> bytes option \<Rightarrow> lookup" where
  "body_lookup api flt ctx body =
     (if rf_body_authoritative flt \<and> rx_metadata ctx ''mcp.method'' = None then extract_body_model_lookup api body
      else
        (case extract_lookup ctx (rf_model_header flt) of
           Lookup_Skip \<Rightarrow> extract_body_model_lookup api body
         | other \<Rightarrow> other))"

definition route_on_request_body ::
  "route_api \<Rightarrow> route_inputs \<Rightarrow> route_filter \<Rightarrow> route_ctx \<Rightarrow> bytes option \<Rightarrow> bool \<Rightarrow>
   (filter_error + filter_action) \<times> route_ctx \<times> route_filter \<times> bytes option" where
  "route_on_request_body api inp flt ctx body end_of_stream =
     (if \<not> end_of_stream then (Inr Continue, ctx, flt, body)
      else
        (case try_management_skip api flt ctx of
           Some (action, ctx') \<Rightarrow> (Inr action, ctx', flt, body)
         | None \<Rightarrow>
             if rx_metadata ctx ''intelligent_route.management_skip'' = Some ''true'' then (Inr Continue, ctx, flt, body)
             else
               (let rewrite = (\<lambda>kind (action, ctx, flt).
                      if action = Continue \<and>
                         (kind = Some InferenceModel \<or> rx_metadata ctx ''intelligent_route.kind'' = Some ''inference_model'')
                      then (case rewrite_selected_model api ctx body of
                              (Inl e, ctx', body') \<Rightarrow> (Inl e, ctx', flt, body')
                            | (Inr _, ctx', body') \<Rightarrow> (Inr action, ctx', flt, body'))
                      else (Inr action, ctx, flt, body))
                in if rx_cluster ctx \<noteq> None then rewrite None (Continue, ctx, flt)
                   else
                     (case body_lookup api flt ctx body of
                        Lookup_Route kind name \<Rightarrow>
                          (case select_and_route api inp flt ctx kind name of
                             (Inl e, ctx', flt') \<Rightarrow> (Inl e, ctx', flt', body)
                           | (Inr action, ctx', flt') \<Rightarrow> rewrite (Some kind) (action, ctx', flt'))
                      | _ \<Rightarrow> (Inr Continue, ctx, flt, body)))))"

end
