(* ===== verification/Route_Sessions.thy ===== *)
theory Route_Sessions
  imports Intelligent_Route
begin

text \<open>
  What the intelligent route filter guarantees of its decisions: which candidates may serve a
  request, and that a session stays with its candidate. The states a filter can be in are those
  reached from its configuration by requests, bodies and reloads of the overlay.
\<close>

section \<open>What the helpers leave alone\<close>

lemma set_meta_frame [simp]:
  "rx_cluster (set_meta api k v ctx) = rx_cluster ctx" "rx_headers (set_meta api k v ctx) = rx_headers ctx"
  "rx_path (set_meta api k v ctx) = rx_path ctx" "rx_headers_to_remove (set_meta api k v ctx) = rx_headers_to_remove ctx"
  "rx_headers_to_set (set_meta api k v ctx) = rx_headers_to_set ctx"
  by (simp_all add: set_meta_def)

lemma set_optional_meta_frame [simp]:
  "rx_cluster (set_optional_meta api k v ctx) = rx_cluster ctx"
  "rx_headers_to_remove (set_optional_meta api k v ctx) = rx_headers_to_remove ctx"
  "rx_headers_to_set (set_optional_meta api k v ctx) = rx_headers_to_set ctx"
  by (cases v; simp add: set_optional_meta_def)+

lemma push_set_frame [simp]:
  "rx_cluster (push_set n v ctx) = rx_cluster ctx" "rx_headers_to_remove (push_set n v ctx) = rx_headers_to_remove ctx"
  "rx_headers_to_set (push_set n v ctx) = rx_headers_to_set ctx @ [(n, v)]"
  by (simp_all add: push_set_def)

lemma session_meta_frame [simp]:
  "rx_cluster (session_meta api b r f ctx) = rx_cluster ctx"
  "rx_headers_to_remove (session_meta api b r f ctx) = rx_headers_to_remove ctx"
  "rx_headers_to_set (session_meta api b r f ctx) = rx_headers_to_set ctx"
  by (simp_all add: session_meta_def Let_def)

lemma record_selection_metadata_frame [simp]:
  "rx_cluster (record_selection_metadata api ctx g m) = rx_cluster ctx"
  "rx_headers_to_remove (record_selection_metadata api ctx g m) = rx_headers_to_remove ctx"
  "rx_headers_to_set (record_selection_metadata api ctx g m) = rx_headers_to_set ctx"
  by (cases g; simp add: record_selection_metadata_def)+

text \<open>The provider marker is the only header the record of a decision sets.\<close>

definition provider_marker :: "route_api \<Rightarrow> route_candidate \<Rightarrow> (string \<times> string) list" where
  "provider_marker api c =
     (case rc_provider c of
        Some p \<Rightarrow> if rc_kind c = InferenceModel \<and> rl_header_value (ra_lib api) p = Inr () then [(PROVIDER_HEADER, p)] else []
      | None \<Rightarrow> [])"

lemma record_route_decision_frame [simp]:
  "rx_cluster (record_route_decision api ctx site c) = rx_cluster ctx"
  "rx_headers_to_remove (record_route_decision api ctx site c) = rx_headers_to_remove ctx"
  "rx_headers_to_set (record_route_decision api ctx site c) = rx_headers_to_set ctx @ provider_marker api c"
  by (cases "rc_target_model c"; cases "rc_provider c"; simp add: record_route_decision_def provider_marker_def Let_def)+

lemma write_provider_context_frame [simp]:
  "rx_cluster (snd (write_provider_context api ctx c hops revision hop)) = rx_cluster ctx"
  "rx_headers_to_remove (snd (write_provider_context api ctx c hops revision hop)) = rx_headers_to_remove ctx"
  by (auto simp: write_provider_context_def Let_def split: sum.splits option.splits)

lemma apply_route_frame [simp]:
  "rx_cluster (snd (apply_route api inp flt ctx c g)) = Some (rc_cluster c)"
  "rx_headers_to_remove (snd (apply_route api inp flt ctx c g)) = rx_headers_to_remove ctx"
proof -
  let ?w = "write_provider_context api (record_route_decision api (ctx\<lparr>rx_cluster := Some (rc_cluster c)\<rparr>)
      (rs_local_site (rf_snapshot flt)) c) c (rf_provider_hop_clusters flt) (rs_semantic_revision (rf_snapshot flt)) (ri_hop_id inp)"
  obtain e ctx1 where w: "?w = (e, ctx1)" by force
  have "rx_cluster (snd ?w) = Some (rc_cluster c)" "rx_headers_to_remove (snd ?w) = rx_headers_to_remove ctx" by simp_all
  then have "rx_cluster ctx1 = Some (rc_cluster c)" "rx_headers_to_remove ctx1 = rx_headers_to_remove ctx"
    unfolding w by simp_all
  then show "rx_cluster (snd (apply_route api inp flt ctx c g)) = Some (rc_cluster c)"
    "rx_headers_to_remove (snd (apply_route api inp flt ctx c g)) = rx_headers_to_remove ctx"
    using w by (cases e; simp add: apply_route_def Let_def)+
qed

section \<open>The choice\<close>

abbreviation session_key_of :: "route_filter \<Rightarrow> route_ctx \<Rightarrow> string option" where
  "session_key_of flt ctx \<equiv> Option.bind (rf_session_affinity flt) (\<lambda>a. extract_session_key a ctx)"

abbreviation affinity_of :: "route_inputs \<Rightarrow> route_filter \<Rightarrow> route_ctx \<Rightarrow> capability_kind \<Rightarrow> string \<Rightarrow> affinity_outcome \<times> session_affinity option" where
  "affinity_of inp flt ctx kind name \<equiv>
     resolve_affinity (rf_session_affinity flt) (session_key_of flt ctx) (rs_candidates (rf_snapshot flt)) kind name (ri_clk inp 0)"

abbreviation picked :: "route_inputs \<Rightarrow> route_filter \<Rightarrow> capability_kind \<Rightarrow> string \<Rightarrow> (route_candidate \<times> nat option) option \<times> group_index" where
  "picked inp flt kind name \<equiv>
     select_candidate (rs_candidates (rf_snapshot flt)) (rs_group_index (rf_snapshot flt)) kind name
       (rs_selection_mode (rf_snapshot flt)) (ri_rng inp)"

definition chosen :: "route_inputs \<Rightarrow> route_filter \<Rightarrow> route_ctx \<Rightarrow> capability_kind \<Rightarrow> string \<Rightarrow> route_candidate option" where
  "chosen inp flt ctx kind name =
     (case fst (affinity_of inp flt ctx kind name) of
        Reused c \<Rightarrow> Some c
      | _ \<Rightarrow> map_option fst (fst (picked inp flt kind name)))"

text \<open>The two ways a decision can go: a reused candidate, or a fresh pick with its binding.\<close>

lemma select_and_route_reused:
  assumes "affinity_of inp flt ctx kind name = (Reused c, aff)"
  shows "select_and_route api inp flt ctx kind name =
    (case apply_reused api inp (flt\<lparr>rf_session_affinity := aff\<rparr>) ctx c of (r, ctx') \<Rightarrow> (r, ctx', flt\<lparr>rf_session_affinity := aff\<rparr>))"
  using assms by (simp add: select_and_route_def Let_def)

lemma select_and_route_fresh:
  assumes "affinity_of inp flt ctx kind name = (outcome, aff)" "\<forall>c. outcome \<noteq> Reused c"
  shows "select_and_route api inp flt ctx kind name =
    (let flt1 = flt\<lparr>rf_session_affinity := aff\<rparr>;
         flt2 = flt1\<lparr>rf_snapshot := (rf_snapshot flt)\<lparr>rs_group_index := snd (picked inp flt kind name)\<rparr>\<rparr>
     in case fst (picked inp flt kind name) of
          None \<Rightarrow> (Inr (Reject 404), ctx, flt2)
        | Some (c, g) \<Rightarrow>
            (case apply_route api inp flt1 ctx c g of
               (Inl e, ctx') \<Rightarrow> (Inl e, ctx', flt2)
             | (Inr _, ctx') \<Rightarrow>
                 (case aff of
                    None \<Rightarrow> (Inr Continue, ctx', flt2)
                  | Some a \<Rightarrow>
                      (case record_session api inp a ctx' (rc_stable_id c) (session_key_of flt ctx) (outcome = Failover) of
                         (a', ctx'') \<Rightarrow> (Inr Continue, ctx'', flt2\<lparr>rf_session_affinity := Some a'\<rparr>)))))"
  using assms by (cases outcome; cases "picked inp flt kind name") (auto simp: select_and_route_def Let_def)

lemma record_session_frame [simp]:
  "rx_cluster (snd (record_session api inp a ctx s k f)) = rx_cluster ctx"
  "rx_headers_to_remove (snd (record_session api inp a ctx s k f)) = rx_headers_to_remove ctx"
  by (cases k; simp add: record_session_def)+

lemma select_and_route_chosen:
  assumes "select_and_route api inp flt ctx kind name = (r, ctx', flt')"
  shows "(case chosen inp flt ctx kind name of
            None \<Rightarrow> r = Inr (Reject 404) \<and> ctx' = ctx
          | Some c \<Rightarrow> rx_cluster ctx' = Some (rc_cluster c) \<and> (r = Inr Continue \<or> isl r)) \<and>
         rx_headers_to_remove ctx' = rx_headers_to_remove ctx"
proof (cases "\<exists>c. fst (affinity_of inp flt ctx kind name) = Reused c")
  case True
  then obtain c aff where a: "affinity_of inp flt ctx kind name = (Reused c, aff)" by (metis prod.collapse)
  obtain e ctx1 where ap: "apply_route api inp (flt\<lparr>rf_session_affinity := aff\<rparr>) ctx c (rc_selection_group c) = (e, ctx1)" by force
  then have "rx_cluster ctx1 = Some (rc_cluster c)" "rx_headers_to_remove ctx1 = rx_headers_to_remove ctx"
    by (metis apply_route_frame snd_conv)+
  with assms a ap show ?thesis
    by (auto simp: select_and_route_reused [OF a] apply_reused_def chosen_def split: sum.splits)
next
  case False
  then obtain outcome aff where a: "affinity_of inp flt ctx kind name = (outcome, aff)" and o: "\<forall>c. outcome \<noteq> Reused c"
    by (metis prod.collapse)
  then have ch: "chosen inp flt ctx kind name = map_option fst (fst (picked inp flt kind name))"
    by (cases outcome) (simp_all add: chosen_def)
  show ?thesis
  proof (cases "fst (picked inp flt kind name)")
    case None
    with assms ch show ?thesis by (simp add: select_and_route_fresh [OF a o] Let_def)
  next
    case (Some p)
    obtain c g where p: "p = (c, g)" by force
    obtain e ctx1 where ap: "apply_route api inp (flt\<lparr>rf_session_affinity := aff\<rparr>) ctx c g = (e, ctx1)" by force
    then have "rx_cluster ctx1 = Some (rc_cluster c)" "rx_headers_to_remove ctx1 = rx_headers_to_remove ctx"
      by (metis apply_route_frame snd_conv)+
    then show ?thesis
      using assms ch Some p ap by (auto simp: select_and_route_fresh [OF a o] Let_def split_beta split: sum.splits option.splits)
  qed
qed

section \<open>Reachable filters\<close>

definition servable :: "route_snapshot \<Rightarrow> bool" where
  "servable snap \<longleftrightarrow>
     index_ok (rs_candidates snap) (length (rs_candidates snap)) (rs_group_index snap) \<and>
     validate_selection_mode (rs_candidates snap) (rs_selection_mode snap) = Inr ()"

definition bindings_ok :: "session_affinity \<Rightarrow> bool" where
  "bindings_ok aff \<longleftrightarrow> distinct (map fst (sa_bindings aff)) \<and> length (sa_bindings aff) \<le> MAX_BINDINGS"

definition filter_ok :: "route_filter \<Rightarrow> bool" where
  "filter_ok flt \<longleftrightarrow> servable (rf_snapshot flt) \<and> pred_option bindings_ok (rf_session_affinity flt)"

inductive reachable :: "overlay_lib \<Rightarrow> route_api \<Rightarrow> intelligent_route_config \<Rightarrow> route_filter \<Rightarrow> bool" for lib api cfg where
  configured: "from_config lib spawn cfg = Inr flt \<Longrightarrow> reachable lib api cfg flt"
| request: "reachable lib api cfg flt \<Longrightarrow> rng_ok (ri_rng inp) \<Longrightarrow> route_on_request api inp flt ctx = (r, ctx', flt') \<Longrightarrow>
    reachable lib api cfg flt'"
| request_body: "reachable lib api cfg flt \<Longrightarrow> rng_ok (ri_rng inp) \<Longrightarrow>
    route_on_request_body api inp flt ctx body eos = (r, ctx', flt', body') \<Longrightarrow> reachable lib api cfg flt'"
| reload: "reachable lib api cfg flt \<Longrightarrow> rf_watched flt \<Longrightarrow>
    reachable lib api cfg (flt\<lparr>rf_snapshot := handle_overlay_reload lib (irc_expected_overlay_scope cfg) file (rf_snapshot flt)\<rparr>)"

lemma snapshot_of_servable: "snapshot_of lib doc format h schema revision = Inr snap \<Longrightarrow> servable snap"
  by (auto simp: snapshot_of_def res_bind_Inr_iff Let_def servable_def dest!: build_ok)

lemma from_overlay_servable: "from_overlay_with_scope lib content expected = Inr snap \<Longrightarrow> servable snap"
  by (auto simp: from_overlay_with_scope_def from_envelope_def from_legacy_def Let_def res_bind_Inr_iff
      split: if_splits dest!: snapshot_of_servable)

lemma reload_servable: "servable snap \<Longrightarrow> servable (handle_overlay_reload lib expected file snap)"
  using from_overlay_servable by (auto simp: handle_overlay_reload_def split: sum.splits)

lemma static_servable:
  assumes "build_static_snapshot lib raw site = Inr snap"
  shows "servable snap"
proof -
  from assms obtain cs s where cs: "validate_candidates_with_empty lib raw False = Inr cs" and snap: "snap = from_static cs s"
    and w: "\<not> list_ex (\<lambda>c. cc_traffic_weight c \<noteq> None) raw"
    by (auto simp: build_static_snapshot_def validate_candidates_def res_bind_Inr_iff split: if_splits)
  from validate_candidates_Inr(2) [OF cs] w have "\<forall>c \<in> set cs. rc_selection_group c = None \<and> rc_traffic_weight c = None"
    by (induction rule: list_all2_induct) (auto simp: taken_from_def)
  moreover from this have "index_ok cs (length cs) Map.empty" by (intro index_okI) (auto simp: members_def)
  ultimately show ?thesis by (auto simp: servable_def snap from_static_def validate_selection_mode_def list_ex_iff)
qed

lemma build_session_affinity_ok: "build_session_affinity lib cfg = Inr aff \<Longrightarrow> pred_option bindings_ok aff"
  by (auto simp: build_session_affinity_def res_bind_Inr_iff bindings_ok_def split: if_splits option.splits)

lemma from_config_ok:
  assumes "from_config lib spawn cfg = Inr flt"
  shows "filter_ok flt"
proof -
  from assms obtain w where b: "build_route_snapshot lib spawn cfg = Inr (rf_snapshot flt, w)"
    and a: "build_session_affinity (ol_route lib) (irc_session_affinity cfg) = Inr (rf_session_affinity flt)"
    by (auto simp: from_config_def res_bind_Inr_iff)
  from b have "servable (rf_snapshot flt)"
    by (auto simp: build_route_snapshot_def build_overlay_snapshot_def res_bind_Inr_iff split: if_splits option.splits
        dest!: from_overlay_servable static_servable)
  moreover from a have "pred_option bindings_ok (rf_session_affinity flt)" by (rule build_session_affinity_ok)
  ultimately show ?thesis by (simp add: filter_ok_def)
qed

lemma bindings_ok_remove: "bindings_ok aff \<Longrightarrow> bindings_ok (binding_remove aff key)"
  by (auto simp: bindings_ok_def binding_remove_def distinct_delete intro: le_trans [OF length_delete_le])

lemma bindings_ok_evict: "bindings_ok aff \<Longrightarrow> bindings_ok (evict_expired aff now)"
  by (auto simp: bindings_ok_def evict_expired_def intro: le_trans [OF length_filter_le] distinct_map_filter)

lemma length_alist_update: "length (AList.update k v xs) \<le> Suc (length xs)"
  by (induction xs) auto

lemma store_binding_cases:
  obtains aff' where "aff' = aff \<or> aff' = evict_expired aff n1" "store_binding aff key s n1 n2 = aff'" "MAX_BINDINGS \<le> length (sa_bindings aff')"
  | aff' where "aff' = aff \<or> aff' = evict_expired aff n1" "length (sa_bindings aff') < MAX_BINDINGS"
      "store_binding aff key s n1 n2 =
         aff'\<lparr>sa_bindings := AList.update key \<lparr>bd_expires = n2 + sa_ttl aff, bd_stable_id = s\<rparr> (sa_bindings aff')\<rparr>"
proof -
  let ?aff = "if MAX_BINDINGS \<le> length (sa_bindings aff) then evict_expired aff n1 else aff"
  have "sa_ttl ?aff = sa_ttl aff" by (simp add: evict_expired_def)
  then show thesis
    using that [of ?aff] by (cases "MAX_BINDINGS \<le> length (sa_bindings ?aff)") (simp_all add: store_binding_def Let_def)
qed

lemma bindings_ok_store: "bindings_ok aff \<Longrightarrow> bindings_ok (store_binding aff key s n1 n2)"
proof (cases rule: store_binding_cases [of aff n1 key s n2])
  case (1 aff')
  then show "bindings_ok aff \<Longrightarrow> ?thesis" using bindings_ok_evict by auto
next
  case (2 aff')
  then show "bindings_ok aff \<Longrightarrow> ?thesis"
    using bindings_ok_evict length_alist_update [of key "\<lparr>bd_expires = n2 + sa_ttl aff, bd_stable_id = s\<rparr>" "sa_bindings aff'"]
    by (auto simp: bindings_ok_def distinct_update)
qed

lemma bindings_ok_resolve:
  "resolve_affinity (Some aff) k cs kind name now = (outcome, aff') \<Longrightarrow> bindings_ok aff \<Longrightarrow> pred_option bindings_ok aff'"
  by (auto simp: resolve_affinity_def lookup_binding_def bindings_ok_remove split: option.splits prod.splits if_splits)

lemma select_and_route_ok:
  assumes ok: "filter_ok flt" and rng: "rng_ok (ri_rng inp)" and sel: "select_and_route api inp flt ctx kind name = (r, ctx', flt')"
  shows "filter_ok flt'"
proof -
  obtain outcome aff where a: "affinity_of inp flt ctx kind name = (outcome, aff)" by force
  have aff: "pred_option bindings_ok aff"
    using ok a bindings_ok_resolve by (cases "rf_session_affinity flt") (auto simp: filter_ok_def resolve_affinity_def)
  let ?snap = "(rf_snapshot flt)\<lparr>rs_group_index := snd (picked inp flt kind name)\<rparr>"
  have snap: "servable ?snap"
    using ok select_candidate_ok(2) [OF _ rng] by (simp add: filter_ok_def servable_def)
  have store: "bindings_ok (fst (record_session api inp x c s k f))" if "bindings_ok x" for x c s k f
    using that bindings_ok_store by (cases k) (simp_all add: record_session_def)
  show ?thesis
  proof (cases "\<exists>c. outcome = Reused c")
    case True
    with a sel ok aff show ?thesis
      by (auto simp: select_and_route_reused filter_ok_def split: prod.splits)
  next
    case False
    with sel snap aff store show ?thesis
      by (auto simp: select_and_route_fresh [OF a] Let_def filter_ok_def split_beta split: option.splits sum.splits)
  qed
qed

text \<open>A handler leaves the filter as it is, or makes one decision.\<close>

abbreviation stripped :: "route_ctx \<Rightarrow> route_ctx" where
  "stripped ctx \<equiv> ctx\<lparr>rx_headers_to_remove := rx_headers_to_remove ctx @
     [SELECTED_CANDIDATE_HEADER, PROVIDER_HOP_REQUEST_ID_HEADER, OVERLAY_REVISION_HEADER, PROVIDER_HEADER]\<rparr>"

definition managed :: "route_filter \<Rightarrow> route_ctx \<Rightarrow> bool" where
  "managed flt ctx \<longleftrightarrow>
     path_is_management (case rx_rewritten_path ctx of Some p \<Rightarrow> p | None \<Rightarrow> rx_path ctx) (rf_skip_paths flt)"

definition header_lookup :: "route_filter \<Rightarrow> route_ctx \<Rightarrow> lookup" where
  "header_lookup flt ctx =
     (if rf_body_authoritative flt \<and> rx_metadata ctx ''mcp.method'' = None then Lookup_Skip
      else extract_lookup ctx (rf_model_header flt))"

lemma skip_None: "try_management_skip api flt ctx = None \<longleftrightarrow> \<not> managed flt ctx"
  by (auto simp: try_management_skip_def managed_def Let_def split: option.splits)

lemma managed_stripped [simp]: "managed flt (ctx\<lparr>rx_headers_to_remove := hs\<rparr>) = managed flt ctx"
  by (simp add: managed_def split: option.split)

lemma extract_lookup_stripped [simp]: "extract_lookup (ctx\<lparr>rx_headers_to_remove := hs\<rparr>) h = extract_lookup ctx h"
  by (simp add: extract_lookup_def extract_mcp_lookup_def extract_model_lookup_def split: option.split)

lemma on_request_cases:
  assumes "\<not> managed flt ctx" "rx_cluster ctx = None"
  shows "route_on_request api inp flt ctx =
    (case header_lookup flt ctx of
       Lookup_Route kind name \<Rightarrow> select_and_route api inp flt (stripped ctx) kind name
     | Lookup_Skip \<Rightarrow> (Inr Continue, stripped ctx, flt)
     | Lookup_Invalid \<Rightarrow> (Inr (Reject 400), stripped ctx, flt))"
  using assms skip_None [of api flt "stripped ctx"]
  by (simp add: route_on_request_def Let_def header_lookup_def)

lemma on_request_ok:
  assumes "filter_ok flt" "rng_ok (ri_rng inp)" "route_on_request api inp flt ctx = (r, ctx', flt')"
  shows "filter_ok flt'"
  using assms select_and_route_ok [OF assms(1,2)]
  by (auto simp: route_on_request_def Let_def split: option.splits if_splits lookup.splits)

lemma rewrite_frame: "rewrite_selected_model api ctx body = (r, ctx', body') \<Longrightarrow> rx_cluster ctx' = rx_cluster ctx"
  by (auto simp: rewrite_selected_model_def Let_def split: option.splits if_splits sum.splits)

lemma on_request_body_ok:
  assumes "filter_ok flt" "rng_ok (ri_rng inp)" "route_on_request_body api inp flt ctx body eos = (r, ctx', flt', body')"
  shows "filter_ok flt'"
  using assms select_and_route_ok [OF assms(1,2)]
  by (auto simp: route_on_request_body_def Let_def split: option.splits if_splits lookup.splits sum.splits prod.splits)

lemma reachable_ok: "reachable lib api cfg flt \<Longrightarrow> filter_ok flt"
proof (induction rule: reachable.induct)
  case (configured spawn flt)
  then show ?case by (rule from_config_ok)
next
  case (request flt inp ctx r ctx' flt')
  then show ?case using on_request_ok by blast
next
  case (request_body flt inp ctx body eos r ctx' flt' body')
  then show ?case using on_request_body_ok by blast
next
  case (reload flt f)
  then show ?case using reload_servable by (simp add: filter_ok_def)
qed

section \<open>Admission\<close>

text \<open>The session of the request is bound, and not expired, to a candidate's identifier.\<close>

definition bound_to :: "route_filter \<Rightarrow> route_ctx \<Rightarrow> nat \<Rightarrow> string \<Rightarrow> bool" where
  "bound_to flt ctx now s \<longleftrightarrow>
     (case rf_session_affinity flt of
        None \<Rightarrow> False
      | Some aff \<Rightarrow>
          (case Option.bind (extract_session_key aff ctx) (map_of (sa_bindings aff)) of
             None \<Rightarrow> False
           | Some b \<Rightarrow> now \<le> bd_expires b \<and> bd_stable_id b = s))"

definition may_serve :: "route_filter \<Rightarrow> route_ctx \<Rightarrow> nat \<Rightarrow> capability \<Rightarrow> route_candidate \<Rightarrow> bool" where
  "may_serve flt ctx now cap c \<longleftrightarrow>
     c \<in> set (rs_candidates (rf_snapshot flt)) \<and> capability_of c = cap \<and>
     (rc_admission_state c = NewAndExisting \<or> rc_admission_state c = ExistingOnly \<and> bound_to flt ctx now (rc_stable_id c))"

lemma reused_bound:
  assumes "fst (affinity_of inp flt ctx kind name) = Reused c"
  shows "bound_to flt ctx (ri_clk inp 0) (rc_stable_id c) \<and> c \<in> set (rs_candidates (rf_snapshot flt)) \<and>
         capability_of c = (kind, name) \<and> rc_admission_state c \<noteq> Excluded"
  using assms
  by (auto simp: resolve_affinity_def lookup_binding_def binding_read_def find_bound_def bound_to_def capability_of_def
      find_Some_iff not_less split: option.splits if_splits)

lemma chosen_may_serve:
  assumes "filter_ok flt" "rng_ok (ri_rng inp)"
  shows "case chosen inp flt ctx kind name of
           None \<Rightarrow> viable (rs_candidates (rf_snapshot flt)) (kind, name) = []
         | Some c \<Rightarrow> may_serve flt ctx (ri_clk inp 0) (kind, name) c"
proof (cases "\<exists>c. fst (affinity_of inp flt ctx kind name) = Reused c")
  case True
  then obtain c where c: "fst (affinity_of inp flt ctx kind name) = Reused c" by blast
  from reused_bound [OF c] c show ?thesis
    by (cases "rc_admission_state c") (auto simp: chosen_def may_serve_def)
next
  case False
  then have "chosen inp flt ctx kind name = map_option fst (fst (picked inp flt kind name))"
    by (auto simp: chosen_def split: affinity_outcome.splits)
  moreover have "best_choice (rs_candidates (rf_snapshot flt)) (rs_selection_mode (rf_snapshot flt)) (kind, name)
      (fst (picked inp flt kind name))"
    using select_candidate_ok(1) assms by (simp add: filter_ok_def servable_def)
  ultimately show ?thesis
    by (auto simp: best_choice_def may_serve_def viable_def split: option.splits)
qed

definition decision_ok ::
  "route_filter \<Rightarrow> route_ctx \<Rightarrow> nat \<Rightarrow> lookup \<Rightarrow> filter_error + filter_action \<Rightarrow> string option \<Rightarrow> bool" where
  "decision_ok flt ctx now lk r cluster \<longleftrightarrow>
     (case lk of
        Lookup_Route kind name \<Rightarrow>
          (case cluster of
             None \<Rightarrow> r = Inr (Reject 404) \<and> viable (rs_candidates (rf_snapshot flt)) (kind, name) = []
           | Some cl \<Rightarrow> r \<noteq> Inr (Reject 404) \<and> (\<exists>c. rc_cluster c = cl \<and> may_serve flt ctx now (kind, name) c))
      | _ \<Rightarrow> cluster = None \<and> r \<noteq> Inr (Reject 404))"

lemma extract_session_key_stripped [simp]:
  "extract_session_key a (ctx\<lparr>rx_headers_to_remove := hs\<rparr>) = extract_session_key a ctx"
proof -
  have "extract_cookie_value (ctx\<lparr>rx_headers_to_remove := hs\<rparr>) = extract_cookie_value ctx"
    by (rule ext) (simp add: extract_cookie_value_def)
  moreover have "rx_headers (ctx\<lparr>rx_headers_to_remove := hs\<rparr>) = rx_headers ctx" by simp
  ultimately show ?thesis by (simp only: extract_session_key_def)
qed

lemma may_serve_stripped [simp]: "may_serve flt (ctx\<lparr>rx_headers_to_remove := hs\<rparr>) now cap c = may_serve flt ctx now cap c"
  by (simp add: may_serve_def bound_to_def split: option.split)

lemma select_and_route_decision:
  assumes "filter_ok flt" "rng_ok (ri_rng inp)" "rx_cluster ctx = None"
    and "select_and_route api inp flt ctx kind name = (r, ctx', flt')"
  shows "decision_ok flt ctx (ri_clk inp 0) (Lookup_Route kind name) r (rx_cluster ctx')"
  using select_and_route_chosen [OF assms(4)] chosen_may_serve [OF assms(1,2), where ctx = ctx and kind = kind and name = name] assms(3)
  by (auto simp: decision_ok_def split: option.splits)

lemma on_request_body_cases:
  assumes "\<not> managed flt ctx" "rx_cluster ctx = None" "rx_metadata ctx ''intelligent_route.management_skip'' \<noteq> Some ''true''"
  shows "case route_on_request_body api inp flt ctx body True of (r, ctx', flt', body') \<Rightarrow>
    (case body_lookup api flt ctx body of
       Lookup_Route kind name \<Rightarrow>
         (case select_and_route api inp flt ctx kind name of
            (r0, ctx0, flt0) \<Rightarrow> rx_cluster ctx' = rx_cluster ctx0 \<and> flt' = flt0 \<and> (r = r0 \<or> r0 = Inr Continue \<and> isl r))
     | _ \<Rightarrow> r = Inr Continue \<and> ctx' = ctx \<and> flt' = flt \<and> body' = body)"
  using assms skip_None [of api flt ctx]
  by (auto simp: route_on_request_body_def Let_def split: lookup.split prod.split sum.split dest!: rewrite_frame)

text \<open>
  C3. Requests are routed only where they are admitted. In every reachable state, a request that is not
  for a management path and has no cluster yet gets one, in either phase, only from a candidate of
  the serving snapshot for exactly the capability it names, and only if the candidate admits new
  requests, or admits existing ones and the session of the request is bound to it and has not
  expired. Excluded candidates serve nothing. It is turned away with 404 exactly if it names a
  capability and gets no candidate, and then no candidate of the capability admits new requests.
\<close>

theorem routed_only_where_admitted:
  assumes "reachable lib api cfg flt" and "rng_ok (ri_rng inp)" and "\<not> managed flt ctx" and "rx_cluster ctx = None"
    and "rx_metadata ctx ''intelligent_route.management_skip'' \<noteq> Some ''true''"
  shows "(case route_on_request api inp flt ctx of (r, ctx', flt') \<Rightarrow>
            decision_ok flt ctx (ri_clk inp 0) (header_lookup flt ctx) r (rx_cluster ctx')) \<and>
         (case route_on_request_body api inp flt ctx body True of (r, ctx', flt', body') \<Rightarrow>
            decision_ok flt ctx (ri_clk inp 0) (body_lookup api flt ctx body) r (rx_cluster ctx'))"
proof -
  note decision = select_and_route_decision [OF reachable_ok [OF assms(1)] assms(2)]
  have "decision_ok flt ctx now lk r cl = decision_ok flt (stripped ctx) now lk r cl" for now lk r cl
    by (simp add: decision_ok_def split: lookup.split option.split)
  then have "case route_on_request api inp flt ctx of (r, ctx', flt') \<Rightarrow>
      decision_ok flt ctx (ri_clk inp 0) (header_lookup flt ctx) r (rx_cluster ctx')"
    unfolding on_request_cases [OF assms(3,4)] using assms(4) decision [where ctx = "stripped ctx"]
    by (auto simp: decision_ok_def split: lookup.split prod.split)
  moreover have "case route_on_request_body api inp flt ctx body True of (r, ctx', flt', body') \<Rightarrow>
      decision_ok flt ctx (ri_clk inp 0) (body_lookup api flt ctx body) r (rx_cluster ctx')"
    using on_request_body_cases [OF assms(3,4,5), where api = api and inp = inp and body = body] assms(4) decision [OF assms(4)]
    by (force simp: decision_ok_def split: lookup.splits prod.splits option.splits)
  ultimately show ?thesis by blast
qed

section \<open>Sessions\<close>

text \<open>A session source with a binding of a key in its table.\<close>

definition holds :: "session_affinity \<Rightarrow> string \<Rightarrow> binding \<Rightarrow> session_affinity option \<Rightarrow> bool" where
  "holds src key b aff \<longleftrightarrow> (\<exists>bs. aff = Some (src\<lparr>sa_bindings := bs\<rparr>) \<and> map_of bs key = Some b)"

lemma session_key_source [simp]: "extract_session_key (src\<lparr>sa_bindings := bs\<rparr>) ctx = extract_session_key src ctx"
  by (simp add: extract_session_key_def split: option.split)

lemma holds_remove: "holds src key b (Some a) \<Longrightarrow> k \<noteq> key \<Longrightarrow> holds src key b (Some (binding_remove a k))"
  by (auto simp: holds_def binding_remove_def delete_conv')

lemma map_of_filter_keep: "map_of xs k = Some v \<Longrightarrow> P (k, v) \<Longrightarrow> map_of (filter P xs) k = Some v"
  by (induction xs) (auto split: if_splits)

lemma holds_store:
  assumes h: "holds src key b (Some a)" and "k \<noteq> key" "n1 < bd_expires b"
  shows "holds src key b (Some (store_binding a k s n1 n2))"
proof -
  have "holds src key b (Some (evict_expired a n1))"
    using h assms(3) by (auto simp: holds_def evict_expired_def intro!: map_of_filter_keep)
  then have keep: "holds src key b (Some a')" if "a' = a \<or> a' = evict_expired a n1" for a' using that h by auto
  show ?thesis
  proof (cases rule: store_binding_cases [of a n1 k s n2])
    case (1 a')
    then show ?thesis using keep by simp
  next
    case (2 a')
    from keep [OF 2(1)] obtain bs where "a' = src\<lparr>sa_bindings := bs\<rparr>" "map_of bs key = Some b" by (auto simp: holds_def)
    with assms(2) show ?thesis unfolding 2(3) holds_def by (auto simp: update_conv')
  qed
qed

lemma holds_route:
  assumes h: "holds src key b (rf_session_affinity flt)" and k: "extract_session_key src ctx \<noteq> Some key"
    and t: "ri_clk inp 1 < bd_expires b" and sel: "select_and_route api inp flt ctx kind name = (r, ctx', flt')"
  shows "holds src key b (rf_session_affinity flt')"
proof -
  obtain outcome aff where a: "affinity_of inp flt ctx kind name = (outcome, aff)" by force
  obtain a0 where a0: "rf_session_affinity flt = Some a0" using h by (auto simp: holds_def)
  then have key: "session_key_of flt ctx \<noteq> Some key" using h k by (auto simp: holds_def)
  have aff: "holds src key b aff"
    using a h key a0 holds_remove [of src key b a0]
    by (auto simp: resolve_affinity_def lookup_binding_def split: option.splits prod.splits if_splits)
  then have rec: "holds src key b (Some (fst (record_session api inp x c s (session_key_of flt ctx) f)))" if "aff = Some x" for x c s f
    using that key t holds_store by (cases "session_key_of flt ctx") (auto simp: record_session_def)
  show ?thesis
  proof (cases "\<exists>c. outcome = Reused c")
    case True
    with a sel aff show ?thesis by (auto simp: select_and_route_reused split: prod.splits)
  next
    case False
    with sel aff rec show ?thesis
      by (auto simp: select_and_route_fresh [OF a] Let_def split_beta split: option.splits sum.splits)
  qed
qed

text \<open>What can happen between two requests of a session.\<close>

datatype route_event =
  Other_Request route_inputs route_ctx | Other_Body route_inputs route_ctx "bytes option" bool | Swap route_snapshot

fun event_step :: "route_api \<Rightarrow> route_event \<Rightarrow> route_filter \<Rightarrow> route_filter" where
  "event_step api (Other_Request inp ctx) flt = snd (snd (route_on_request api inp flt ctx))"
| "event_step api (Other_Body inp ctx body eos) flt = fst (snd (snd (route_on_request_body api inp flt ctx body eos)))"
| "event_step api (Swap snap) flt = flt\<lparr>rf_snapshot := snap\<rparr>"

fun of_others :: "session_affinity \<Rightarrow> string \<Rightarrow> nat \<Rightarrow> route_event \<Rightarrow> bool" where
  "of_others src key expires (Other_Request inp ctx) \<longleftrightarrow> extract_session_key src ctx \<noteq> Some key \<and> ri_clk inp 1 < expires"
| "of_others src key expires (Other_Body inp ctx body eos) \<longleftrightarrow> extract_session_key src ctx \<noteq> Some key \<and> ri_clk inp 1 < expires"
| "of_others src key expires (Swap snap) \<longleftrightarrow> True"

definition same_policy :: "route_filter \<Rightarrow> route_filter \<Rightarrow> bool" where
  "same_policy flt flt' \<longleftrightarrow>
     rf_skip_paths flt' = rf_skip_paths flt \<and> rf_body_authoritative flt' = rf_body_authoritative flt \<and>
     rf_model_header flt' = rf_model_header flt"

lemma route_same_policy: "select_and_route api inp flt ctx kind name = (r, ctx', flt') \<Longrightarrow> same_policy flt flt'"
  by (auto simp: select_and_route_def same_policy_def Let_def split: prod.splits affinity_outcome.splits option.splits sum.splits)

lemma on_request_filter:
  assumes "route_on_request api inp flt ctx = (r, ctx', flt')"
  obtains "flt' = flt" | kind name where "select_and_route api inp flt (stripped ctx) kind name = (r, ctx', flt')"
  using assms by (auto simp: route_on_request_def Let_def split: option.splits if_splits lookup.splits)

lemma on_request_body_filter:
  assumes "route_on_request_body api inp flt ctx body eos = (r, ctx', flt', body')"
  obtains "flt' = flt" | r0 ctx0 kind name where "select_and_route api inp flt ctx kind name = (r0, ctx0, flt')"
  using assms
  by (auto simp: route_on_request_body_def Let_def split: option.splits if_splits lookup.splits prod.splits sum.splits)

lemma same_policy_refl [simp]: "same_policy flt flt"
  by (simp add: same_policy_def)

lemma event_keeps:
  assumes h: "holds src key b (rf_session_affinity flt)" and o: "of_others src key (bd_expires b) ev"
  shows "holds src key b (rf_session_affinity (event_step api ev flt)) \<and> same_policy flt (event_step api ev flt)"
proof (cases ev)
  case (Other_Request inp ctx)
  with o have o': "extract_session_key src (stripped ctx) \<noteq> Some key" "ri_clk inp 1 < bd_expires b" by simp_all
  obtain r ctx' flt' where e: "route_on_request api inp flt ctx = (r, ctx', flt')" by (metis prod.exhaust)
  from e have "holds src key b (rf_session_affinity flt') \<and> same_policy flt flt'"
    by (cases rule: on_request_filter) (use h holds_route [OF h o'] route_same_policy in \<open>simp, blast\<close>)
  with e Other_Request show ?thesis by simp
next
  case (Other_Body inp ctx body eos)
  with o have o': "extract_session_key src ctx \<noteq> Some key" "ri_clk inp 1 < bd_expires b" by simp_all
  obtain r ctx' flt' body' where e: "route_on_request_body api inp flt ctx body eos = (r, ctx', flt', body')" by (metis prod.exhaust)
  from e have "holds src key b (rf_session_affinity flt') \<and> same_policy flt flt'"
    by (cases rule: on_request_body_filter) (use h holds_route [OF h o'] route_same_policy in \<open>simp, blast\<close>)
  with e Other_Body show ?thesis by simp
next
  case (Swap snap)
  with h show ?thesis by (simp add: same_policy_def)
qed

lemma events_keep:
  "holds src key b (rf_session_affinity flt) \<Longrightarrow> list_all (of_others src key (bd_expires b)) es \<Longrightarrow>
   holds src key b (rf_session_affinity (fold (event_step api) es flt)) \<and> same_policy flt (fold (event_step api) es flt)"
proof (induction es arbitrary: flt)
  case (Cons ev es)
  from event_keeps [OF Cons.prems(1), of ev api] Cons.prems(2)
  have "holds src key b (rf_session_affinity (event_step api ev flt))" "same_policy flt (event_step api ev flt)" by simp_all
  with Cons.IH [OF this(1)] Cons.prems(2) show ?case by (simp add: same_policy_def)
qed simp

text \<open>A new session is bound to the candidate its first request is given.\<close>

lemma first_request_binds:
  assumes aff: "rf_session_affinity flt = Some src" "length (sa_bindings src) < MAX_BINDINGS"
    and key: "extract_session_key src ctx = Some key" "map_of (sa_bindings src) key = None"
    and sel: "select_and_route api inp flt ctx kind name = (Inr Continue, ctx', flt')"
  obtains c where "c \<in> fst ` set_option (fst (picked inp flt kind name))" "rx_cluster ctx' = Some (rc_cluster c)"
    "holds src key \<lparr>bd_expires = ri_clk inp 2 + sa_ttl src, bd_stable_id = rc_stable_id c\<rparr> (rf_session_affinity flt')"
proof -
  have a: "affinity_of inp flt ctx kind name = (New, Some src)"
    using aff key by (simp add: resolve_affinity_def lookup_binding_def binding_read_def)
  note fresh = select_and_route_fresh [OF a, of api]
  obtain c g where p: "fst (picked inp flt kind name) = Some (c, g)"
    using sel fresh by (cases "fst (picked inp flt kind name)") (auto simp: Let_def)
  obtain e ctx1 where ap: "apply_route api inp (flt\<lparr>rf_session_affinity := Some src\<rparr>) ctx c g = (e, ctx1)" by force
  then have cl: "rx_cluster ctx1 = Some (rc_cluster c)" by (metis apply_route_frame(1) snd_conv)
  have e: "\<not> isl e" using sel fresh p ap by (auto simp: Let_def isl_def)
  have "store_binding src key (rc_stable_id c) (ri_clk inp 1) (ri_clk inp 2) =
      src\<lparr>sa_bindings := AList.update key \<lparr>bd_expires = ri_clk inp 2 + sa_ttl src, bd_stable_id = rc_stable_id c\<rparr> (sa_bindings src)\<rparr>"
    using aff(2) by (simp add: store_binding_def)
  then have "ctx' = session_meta api True False False ctx1" and h: "holds src key
      \<lparr>bd_expires = ri_clk inp 2 + sa_ttl src, bd_stable_id = rc_stable_id c\<rparr> (rf_session_affinity flt')"
    using sel fresh p ap e aff key by (auto simp: Let_def record_session_def holds_def update_conv' split: sum.splits)
  then show thesis using that [of c] p cl h by simp
qed

lemma bound_request_reuses:
  assumes "holds src key b (rf_session_affinity flt)" "extract_session_key src ctx = Some key" "ri_clk inp 0 \<le> bd_expires b"
    and "find (\<lambda>d. rc_kind d = kind \<and> rc_name d = name \<and> rc_stable_id d = bd_stable_id b) (rs_candidates (rf_snapshot flt)) = Some c"
    and "rc_admission_state c \<noteq> Excluded"
  shows "chosen inp flt ctx kind name = Some c"
proof -
  obtain bs where bs: "rf_session_affinity flt = Some (src\<lparr>sa_bindings := bs\<rparr>)" "map_of bs key = Some b"
    using assms(1) by (auto simp: holds_def)
  then have "fst (affinity_of inp flt ctx kind name) = Reused c"
    using assms by (simp add: resolve_affinity_def lookup_binding_def binding_read_def find_bound_def not_less)
  then show ?thesis by (simp add: chosen_def)
qed

text \<open>
  C9. A session stays where it was sent. The first request of a session, in a table with room, is given
  a candidate; after any number of requests and bodies of other sessions, and any swaps of the
  snapshot, before the binding expires, the next request of the session for the same capability goes
  to the candidate of the then serving snapshot that has the identifier of the first one, unless there
  is none or it is excluded; also if that candidate no longer admits new requests.
\<close>

theorem session_sticks:
  assumes "rf_session_affinity flt = Some src" and "length (sa_bindings src) < MAX_BINDINGS"
    and "extract_session_key src ctx = Some key" and "map_of (sa_bindings src) key = None"
    and "\<not> managed flt ctx" and "rx_cluster ctx = None" and "header_lookup flt ctx = Lookup_Route kind name"
    and "route_on_request api inp flt ctx = (Inr Continue, ctx1, flt1)"
    and "list_all (of_others src key (ri_clk inp 2 + sa_ttl src)) es" and "flt2 = fold (event_step api) es flt1"
    and "extract_session_key src ctx2 = Some key" and "ri_clk inp2 0 \<le> ri_clk inp 2 + sa_ttl src"
    and "\<not> managed flt ctx2" and "rx_cluster ctx2 = None" and "header_lookup flt ctx2 = Lookup_Route kind name"
    and "route_on_request api inp2 flt2 ctx2 = (r, ctx3, flt3)"
  shows "\<exists>c. rx_cluster ctx1 = Some (rc_cluster c) \<and> c \<in> fst ` set_option (fst (picked inp flt kind name)) \<and>
           (\<forall>c2. find (\<lambda>d. rc_kind d = kind \<and> rc_name d = name \<and> rc_stable_id d = rc_stable_id c)
                    (rs_candidates (rf_snapshot flt2)) = Some c2 \<and> rc_admission_state c2 \<noteq> Excluded \<longrightarrow>
                 rx_cluster ctx3 = Some (rc_cluster c2))"
proof -
  have sel: "select_and_route api inp flt (stripped ctx) kind name = (Inr Continue, ctx1, flt1)"
    using assms(7,8) unfolding on_request_cases [OF assms(5,6)] by simp
  have "extract_session_key src (stripped ctx) = Some key" using assms(3) by simp
  from first_request_binds [OF assms(1,2) this assms(4) sel] obtain c where
    c: "c \<in> fst ` set_option (fst (picked inp flt kind name))" "rx_cluster ctx1 = Some (rc_cluster c)"
    and h: "holds src key \<lparr>bd_expires = ri_clk inp 2 + sa_ttl src, bd_stable_id = rc_stable_id c\<rparr> (rf_session_affinity flt1)" .
  from events_keep [OF h, of es api] assms(9,10)
  have h2: "holds src key \<lparr>bd_expires = ri_clk inp 2 + sa_ttl src, bd_stable_id = rc_stable_id c\<rparr> (rf_session_affinity flt2)"
    and "same_policy flt1 flt2" by simp_all
  with route_same_policy [OF sel] have same: "same_policy flt flt2" by (simp add: same_policy_def)
  have "managed flt2 ctx2 = managed flt ctx2" "header_lookup flt2 ctx2 = header_lookup flt ctx2"
    using same by (simp_all add: managed_def header_lookup_def same_policy_def)
  then have sel2: "select_and_route api inp2 flt2 (stripped ctx2) kind name = (r, ctx3, flt3)"
    using assms(13,15,16) on_request_cases [OF _ assms(14), of flt2] by simp
  have "rx_cluster ctx3 = Some (rc_cluster c2)"
    if "find (\<lambda>d. rc_kind d = kind \<and> rc_name d = name \<and> rc_stable_id d = rc_stable_id c) (rs_candidates (rf_snapshot flt2)) = Some c2"
      "rc_admission_state c2 \<noteq> Excluded" for c2
    using bound_request_reuses [OF h2, of "stripped ctx2" inp2 kind name c2] assms(11,12) that select_and_route_chosen [OF sel2]
    by simp
  with c show ?thesis by blast
qed

section \<open>Corner cases\<close>

text \<open>A model in the body that is blank or too long is not refused: the request goes on, unrouted.\<close>

lemma invalid_body_model_continues:
  assumes "\<not> managed flt ctx" "rx_cluster ctx = None" "rx_metadata ctx ''intelligent_route.management_skip'' \<noteq> Some ''true''"
    and "body_lookup api flt ctx body = Lookup_Invalid"
  shows "route_on_request_body api inp flt ctx body True = (Inr Continue, ctx, flt, body)"
  using assms skip_None [of api flt ctx] by (simp add: route_on_request_body_def)

text \<open>
  The removal of an expired binding does not look again: a binding that another request of the
  session stored after the check is lost.
\<close>

lemma stale_removal_drops_fresh_binding:
  "binding_read aff key now = (None, True) \<Longrightarrow>
   map_of (sa_bindings (binding_remove (store_binding aff key s n1 n2) key)) key = None"
  by (simp add: binding_remove_def delete_conv')

text \<open>With a table that stays full, a session that failed over keeps its old binding.\<close>

lemma full_table_keeps_old_binding:
  assumes "MAX_BINDINGS \<le> length (sa_bindings aff)" "\<forall>(k, b) \<in> set (sa_bindings aff). n1 < bd_expires b"
  shows "store_binding aff key s n1 n2 = aff"
proof -
  have "filter (\<lambda>(k, b). n1 < bd_expires b) (sa_bindings aff) = sa_bindings aff"
    using assms(2) by (intro filter_True) auto
  then have "evict_expired aff n1 = aff" by (simp add: evict_expired_def)
  with assms(1) show ?thesis by (simp add: store_binding_def Let_def)
qed

text \<open>The paths of a target model travel joined by commas: a path with a comma in it never matches.\<close>

lemma split_on_parts: "p \<in> set (split_on c s) \<Longrightarrow> c \<notin> set p"
  by (induction c s arbitrary: p rule: split_on.induct) (auto split: if_splits list.splits)

lemma comma_path_never_matches: "CHR '','' \<in> set p \<Longrightarrow> p \<notin> set (split_on (CHR '','') (join_commas ps))"
  using split_on_parts by blast

text \<open>Only one trailing slash is stripped from a management prefix.\<close>

lemma double_slash_prefix:
  "validate_skip_paths [''/v1/models//''] = Inr [''/v1/models/'']" "\<not> path_is_management ''/v1/models/x'' [''/v1/models/'']"
  by code_simp+

section \<open>Witnesses\<close>

definition demo_route_api :: route_api where
  "demo_route_api = \<lparr>ra_lib = demo_route_lib, ra_set_metadata = (\<lambda>m k v. m(k \<mapsto> v)), ra_from_slice = (\<lambda>b. None),
     ra_to_vec = (\<lambda>v. Inl ''unsupported'')\<rparr>"

definition demo_route_config :: intelligent_route_config where
  "demo_route_config = \<lparr>irc_candidates = None, irc_local_site = None, irc_model_header = ''X-Model'', irc_body_authoritative = False,
     irc_skip_paths = [''/health''], irc_management_cluster = None, irc_provider_hop_clusters = [],
     irc_expected_overlay_scope = None, irc_overlay_file = Some (''/o'', Inr [1]), irc_reload = None,
     irc_session_affinity = Some \<lparr>sac_cookie = None, sac_enabled = True, sac_header = Some ''X-Session'', sac_ttl_secs = 60\<rparr>\<rparr>"

definition demo_filter :: route_filter where
  "demo_filter = \<lparr>rf_provider_hop_clusters = {}, rf_model_header = ''x-model'', rf_body_authoritative = False,
     rf_skip_paths = [''/health''], rf_management_cluster = None, rf_watched = True,
     rf_session_affinity = Some \<lparr>sa_bindings = [], sa_cookie = None, sa_header = Some ''x-session'', sa_ttl = duration_from_secs 60\<rparr>,
     rf_snapshot = demo_snapshot [1]\<rparr>"

definition demo_route_ctx :: "string \<Rightarrow> route_ctx" where
  "demo_route_ctx session = \<lparr>rx_cluster = None, rx_metadata = Map.empty,
     rx_headers = (\<lambda>n. if n = ''x-model'' then Some (Some ''m'') else if n = ''x-session'' then Some (Some session) else None),
     rx_path = ''/v1/chat'', rx_rewritten_path = None, rx_headers_to_remove = [], rx_headers_to_set = []\<rparr>"

definition demo_inputs :: "nat \<Rightarrow> route_inputs" where
  "demo_inputs t = \<lparr>ri_clk = (\<lambda>_. t), ri_rng = (\<lambda>n. n - 1), ri_hop_id = ''hop''\<rparr>"

lemma demo_configured:
  assumes "validate_provider_hop_clusters cs = Inr hops"
  shows "reachable demo_overlay_lib demo_route_api (demo_route_config\<lparr>irc_provider_hop_clusters := cs\<rparr>)
           (demo_filter\<lparr>rf_provider_hop_clusters := hops\<rparr>)"
proof -
  have "read_overlay_bounded (Inr [1]) = Inr [1]" by code_simp
  moreover have "validate_model_header demo_route_lib ''X-Model'' = Inr ''x-model''" "validate_skip_paths [''/health''] = Inr [''/health'']"
    "build_session_affinity demo_route_lib (irc_session_affinity demo_route_config) = Inr (rf_session_affinity demo_filter)" by code_simp+
  moreover have "ol_route demo_overlay_lib = demo_route_lib" by (simp add: demo_overlay_lib_def)
  ultimately have "from_config demo_overlay_lib (Inr ()) (demo_route_config\<lparr>irc_provider_hop_clusters := cs\<rparr>) =
      Inr (demo_filter\<lparr>rf_provider_hop_clusters := hops\<rparr>)"
    using demo_overlay_accepted [of "[1]"] assms
    by (simp add: from_config_def build_route_snapshot_def build_overlay_snapshot_def validate_management_cluster_def
        demo_route_config_def demo_filter_def reload_default_def res_err_def)
  then show ?thesis by (rule reachable.configured)
qed

lemma demo_filter_reachable: "reachable demo_overlay_lib demo_route_api demo_route_config demo_filter"
  using demo_configured [of "[]" "{}"]
  by (simp add: validate_provider_hop_clusters_def demo_route_config_def demo_filter_def)

theorem routed_only_where_admitted_witness:
  "\<exists>c. rc_cluster c = ''c-a'' \<and> may_serve demo_filter (demo_route_ctx ''s1'') 5 (InferenceModel, ''m'') c"
proof -
  let ?ctx = "demo_route_ctx ''s1''"
  have h: "\<not> managed demo_filter ?ctx" "rx_cluster ?ctx = None" "rx_metadata ?ctx ''intelligent_route.management_skip'' \<noteq> Some ''true''"
    "header_lookup demo_filter ?ctx = Lookup_Route InferenceModel ''m''" by code_simp+
  have rng: "rng_ok (ri_rng (demo_inputs 5))" using demo_rng_ok by (simp add: demo_inputs_def)
  obtain r ctx' flt' where o: "route_on_request demo_route_api (demo_inputs 5) demo_filter ?ctx = (r, ctx', flt')"
    by (metis prod.exhaust)
  have "rx_cluster (fst (snd (route_on_request demo_route_api (demo_inputs 5) demo_filter ?ctx))) = Some ''c-a''" by code_simp
  then have "rx_cluster ctx' = Some ''c-a''" unfolding o by simp
  moreover have "ri_clk (demo_inputs 5) 0 = 5" by (simp add: demo_inputs_def)
  ultimately show ?thesis
    using routed_only_where_admitted [OF demo_filter_reachable rng h(1,2,3)] h(4) o by (simp add: decision_ok_def)
qed

text \<open>Between the two requests another session is served, and the first candidate stops admitting new ones.\<close>

definition demo_drained :: route_snapshot where
  "demo_drained = (demo_snapshot [1])\<lparr>rs_candidates := map (\<lambda>c. c\<lparr>rc_admission_state := ExistingOnly\<rparr>) (rs_candidates (demo_snapshot [1]))\<rparr>"

definition demo_first :: "(filter_error + filter_action) \<times> route_ctx \<times> route_filter" where
  "demo_first = route_on_request demo_route_api (demo_inputs 5) demo_filter (demo_route_ctx ''s1'')"

definition demo_between :: "route_event list" where
  "demo_between = [Other_Request (demo_inputs 6) (demo_route_ctx ''s2''), Swap demo_drained]"

definition demo_later :: route_filter where
  "demo_later = fold (event_step demo_route_api) demo_between (snd (snd demo_first))"

theorem session_sticks_witness:
  "rx_cluster (fst (snd (route_on_request demo_route_api (demo_inputs 7) demo_later (demo_route_ctx ''s1'')))) = Some ''c-a''"
proof -
  let ?src = "\<lparr>sa_bindings = [], sa_cookie = None, sa_header = Some ''x-session'', sa_ttl = duration_from_secs 60\<rparr> :: session_affinity"
  let ?ctx = "demo_route_ctx ''s1''"
  let ?again = "route_on_request demo_route_api (demo_inputs 7) demo_later ?ctx"
  have "fst demo_first = Inr Continue" by code_simp
  then have first: "route_on_request demo_route_api (demo_inputs 5) demo_filter ?ctx = (Inr Continue, fst (snd demo_first), snd (snd demo_first))"
    by (simp add: demo_first_def prod_eq_iff)
  have again: "?again = (fst ?again, fst (snd ?again), snd (snd ?again))" by simp
  have h: "rf_session_affinity demo_filter = Some ?src" "length (sa_bindings ?src) < MAX_BINDINGS"
    "extract_session_key ?src ?ctx = Some ''s1''" "map_of (sa_bindings ?src) ''s1'' = None"
    "\<not> managed demo_filter ?ctx" "rx_cluster ?ctx = None" "header_lookup demo_filter ?ctx = Lookup_Route InferenceModel ''m''"
    "list_all (of_others ?src ''s1'' (ri_clk (demo_inputs 5) 2 + sa_ttl ?src)) demo_between"
    "ri_clk (demo_inputs 7) 0 \<le> ri_clk (demo_inputs 5) 2 + sa_ttl ?src" by code_simp+
  obtain c where c: "c \<in> fst ` set_option (fst (picked (demo_inputs 5) demo_filter InferenceModel ''m''))"
    and later: "\<forall>c2. find (\<lambda>d. rc_kind d = InferenceModel \<and> rc_name d = ''m'' \<and> rc_stable_id d = rc_stable_id c)
        (rs_candidates (rf_snapshot demo_later)) = Some c2 \<and> rc_admission_state c2 \<noteq> Excluded \<longrightarrow>
        rx_cluster (fst (snd ?again)) = Some (rc_cluster c2)"
    using session_sticks [OF h(1-7) first h(8) demo_later_def h(3,9,5,6,7) again] by blast
  have "map_option (rc_stable_id \<circ> fst) (fst (picked (demo_inputs 5) demo_filter InferenceModel ''m'')) = Some ''inference_model/m/a/c-a''"
    by code_simp
  with c have "rc_stable_id c = ''inference_model/m/a/c-a''" by auto
  moreover have "map_option (\<lambda>d. (rc_cluster d, rc_admission_state d))
      (find (\<lambda>d. rc_kind d = InferenceModel \<and> rc_name d = ''m'' \<and> rc_stable_id d = ''inference_model/m/a/c-a'')
        (rs_candidates (rf_snapshot demo_later))) = Some (''c-a'', ExistingOnly)" by code_simp
  ultimately show ?thesis using later by auto
qed

end
