(* ===== verification/Provider_Route.thy ===== *)
theory Provider_Route
  imports Route_Sessions
begin

text \<open>
  The provider side of a hop between gateways, \<^verbatim>\<open>filters/src/routing/provider_route.rs\<close>: the filter validates the
  candidate the edge selected against its own policy and picks a local cluster. The last property
  composes the two gateways. How the proxy turns the removals and settings of a filter into the
  headers of the upstream request is a parameter.
\<close>

section \<open>Configuration\<close>

definition MAX_PROVIDER_ROUTES :: nat where "MAX_PROVIDER_ROUTES = 1024"
definition MAX_PATHS_PER_ROUTE :: nat where "MAX_PATHS_PER_ROUTE = 64"
definition MAX_VALUE_LEN :: nat where "MAX_VALUE_LEN = 256"

record provider_route_config =
  prc_candidate_id :: string
  prc_cluster :: string
  prc_credential :: "candidate_credential option"
  prc_model :: string
  prc_paths :: "string list"

record provider_filter_config =
  pfc_provider_id :: string
  pfc_model_header :: string
  pfc_routes :: "provider_route_config list"
  pfc_emit_demo_attribution :: bool

record provider_route =
  prt_cluster :: string
  prt_credential :: "candidate_credential option"
  prt_model :: string
  prt_paths :: "string list"

record provider_filter =
  pf_emit_demo_attribution :: bool
  pf_model_header :: string
  pf_provider_id :: string
  pf_routes :: "string \<rightharpoonup> provider_route"

definition pr_error :: "string \<Rightarrow> filter_error" where
  "pr_error msg = ''provider_route: '' @ msg"

definition validate_value :: "string \<Rightarrow> string \<Rightarrow> filter_error + unit" where
  "validate_value field v =
     res_guard (is_blank v \<or> MAX_VALUE_LEN < length v)
       (pr_error (field @ '' must be non-blank and at most '' @ show_nat MAX_VALUE_LEN @ '' bytes''))"

fun validate_route_paths :: "string set \<Rightarrow> string list \<Rightarrow> filter_error + unit" where
  "validate_route_paths seen [] = Inr ()"
| "validate_route_paths seen (path # paths) =
     (if \<not> starts_with path ''/'' \<or> MAX_VALUE_LEN < length path then Inl (pr_error ''paths must be absolute and bounded'')
      else if path \<in> seen then Inl (pr_error ''duplicate path'')
      else validate_route_paths (insert path seen) paths)"

definition validate_route :: "provider_route_config \<Rightarrow> filter_error + unit" where
  "validate_route route =
     res_bind (validate_value ''candidate_id'' (prc_candidate_id route)) (\<lambda>_.
     res_bind (validate_value ''cluster'' (prc_cluster route)) (\<lambda>_.
     res_bind (validate_value ''model'' (prc_model route)) (\<lambda>_.
     if prc_paths route = [] \<or> MAX_PATHS_PER_ROUTE < length (prc_paths route)
     then Inl (pr_error (''paths must contain 1-'' @ show_nat MAX_PATHS_PER_ROUTE @ '' entries''))
     else
       res_bind (validate_route_paths {} (prc_paths route)) (\<lambda>_.
       case prc_credential route of
         None \<Rightarrow> Inr ()
       | Some c \<Rightarrow>
           res_bind (validate_value ''credential.secretRef.name'' (cr_name (cd_secret_ref c))) (\<lambda>_.
           res_bind (validate_value ''credential.secretRef.namespace'' (cr_namespace (cd_secret_ref c))) (\<lambda>_.
           res_bind (validate_value ''credential.secretRef.key'' (cr_key (cd_secret_ref c))) (\<lambda>_.
             res_guard (\<not> is_supported_strategy (cd_strategy c)) (pr_error ''unsupported credential strategy''))))))))"

definition validate_attribution_cluster :: "route_lib \<Rightarrow> string \<Rightarrow> filter_error + unit" where
  "validate_attribution_cluster lib cluster =
     res_err (\<lambda>e. pr_error (''cluster must be a valid HTTP header value: '' @ e)) (rl_header_value lib cluster)"

fun build_routes_from ::
  "route_lib \<Rightarrow> bool \<Rightarrow> (string \<rightharpoonup> provider_route) \<Rightarrow> provider_route_config list \<Rightarrow> filter_error + (string \<rightharpoonup> provider_route)" where
  "build_routes_from lib emit routes [] = Inr routes"
| "build_routes_from lib emit routes (route # rest) =
     res_bind (validate_route route) (\<lambda>_.
     res_bind (if emit then validate_attribution_cluster lib (prc_cluster route) else Inr ()) (\<lambda>_.
     if routes (prc_candidate_id route) \<noteq> None then Inl (pr_error ''duplicate candidate_id'')
     else build_routes_from lib emit
       (routes(prc_candidate_id route \<mapsto>
          \<lparr>prt_cluster = prc_cluster route, prt_credential = prc_credential route, prt_model = prc_model route,
           prt_paths = prc_paths route\<rparr>)) rest))"

definition build_routes :: "route_lib \<Rightarrow> provider_route_config list \<Rightarrow> bool \<Rightarrow> filter_error + (string \<rightharpoonup> provider_route)" where
  "build_routes lib route_configs emit = build_routes_from lib emit Map.empty route_configs"

definition provider_from_config :: "route_lib \<Rightarrow> provider_filter_config \<Rightarrow> filter_error + provider_filter" where
  "provider_from_config lib cfg =
     res_bind (validate_value ''provider_id'' (pfc_provider_id cfg)) (\<lambda>_.
     res_bind (res_err (\<lambda>e. pr_error (''invalid provider_id header: '' @ e)) (rl_header_value lib (pfc_provider_id cfg))) (\<lambda>_.
     if pfc_routes cfg = [] \<or> MAX_PROVIDER_ROUTES < length (pfc_routes cfg)
     then Inl (pr_error (''routes must contain 1-'' @ show_nat MAX_PROVIDER_ROUTES @ '' entries''))
     else
       res_bind (validate_model_header lib (pfc_model_header cfg)) (\<lambda>model_header.
       res_bind (build_routes lib (pfc_routes cfg) (pfc_emit_demo_attribution cfg)) (\<lambda>routes.
       Inr \<lparr>pf_emit_demo_attribution = pfc_emit_demo_attribution cfg, pf_model_header = model_header,
            pf_provider_id = pfc_provider_id cfg, pf_routes = routes\<rparr>))))"

section \<open>Requests and responses\<close>

definition PROVIDER_ATTRIBUTION_HEADER :: string where "PROVIDER_ATTRIBUTION_HEADER = ''x-ai-provider-attribution''"
definition PROVIDER_REQUEST_ID_HEADER :: string where "PROVIDER_REQUEST_ID_HEADER = ''x-ai-provider-request-id''"
definition PROVIDER_OVERLAY_REVISION_HEADER :: string where "PROVIDER_OVERLAY_REVISION_HEADER = ''x-ai-provider-routing-revision''"
definition PROVIDER_ATTRIBUTION_RESPONSE_HEADER :: string where "PROVIDER_ATTRIBUTION_RESPONSE_HEADER = ''x-ai-demo-provider-gateway''"
definition PROVIDER_INFERENCE_RESPONSE_HEADER :: string where "PROVIDER_INFERENCE_RESPONSE_HEADER = ''x-ai-inference-provider''"

definition strip_edge_headers :: "route_ctx \<Rightarrow> route_ctx" where
  "strip_edge_headers ctx = ctx\<lparr>rx_headers_to_remove := rx_headers_to_remove ctx @
     [SELECTED_CANDIDATE_HEADER, PROVIDER_HOP_REQUEST_ID_HEADER, OVERLAY_REVISION_HEADER, PROVIDER_REQUEST_ID_HEADER,
      PROVIDER_OVERLAY_REVISION_HEADER, PROVIDER_ATTRIBUTION_HEADER, PROVIDER_INFERENCE_RESPONSE_HEADER,
      ''authorization'', ''x-api-key'']\<rparr>"

definition request_header_by_name :: "route_ctx \<Rightarrow> string \<Rightarrow> string option" where
  "request_header_by_name ctx name =
     (case rx_headers ctx name of
        Some (Some v) \<Rightarrow> if \<not> is_blank v \<and> length v \<le> MAX_VALUE_LEN then Some v else None
      | _ \<Rightarrow> None)"

text \<open>An invalid revision is \<open>Inl\<close>.\<close>

definition peer_overlay_revision :: "route_ctx \<Rightarrow> unit + string option" where
  "peer_overlay_revision ctx =
     (case rx_headers ctx OVERLAY_REVISION_HEADER of
        None \<Rightarrow> Inr None
      | Some None \<Rightarrow> Inl ()
      | Some (Some v) \<Rightarrow> if length v \<noteq> 64 \<or> \<not> list_all is_lower_hex v then Inl () else Inr (Some v))"

definition set_provider_headers ::
  "route_api \<Rightarrow> route_ctx \<Rightarrow> string \<Rightarrow> string \<Rightarrow> string option \<Rightarrow> (filter_error + unit) \<times> route_ctx" where
  "set_provider_headers api ctx provider_id request_id overlay_revision =
     (case rl_header_value (ra_lib api) request_id of
        Inl e \<Rightarrow> (Inl (pr_error (''invalid provider request ID: '' @ e)), ctx)
      | Inr _ \<Rightarrow>
          (let ctx1 = push_set PROVIDER_ATTRIBUTION_HEADER provider_id (push_set PROVIDER_REQUEST_ID_HEADER request_id ctx)
           in case overlay_revision of
                None \<Rightarrow> (Inr (), ctx1)
              | Some revision \<Rightarrow>
                  (case rl_header_value (ra_lib api) revision of
                     Inl e \<Rightarrow> (Inl (pr_error (''invalid provider overlay revision: '' @ e)), ctx1)
                   | Inr _ \<Rightarrow> (Inr (), push_set PROVIDER_OVERLAY_REVISION_HEADER revision ctx1))))"

definition accept_route ::
  "route_api \<Rightarrow> provider_filter \<Rightarrow> route_ctx \<Rightarrow> provider_route \<Rightarrow> string \<Rightarrow> string \<Rightarrow> string \<Rightarrow> string option \<Rightarrow>
   (filter_error + filter_action) \<times> route_ctx" where
  "accept_route api flt ctx route candidate_id request_id model overlay_revision =
     (let c1 = set_meta api ''provider_route.candidate_id'' candidate_id (ctx\<lparr>rx_cluster := Some (prt_cluster route)\<rparr>);
          c2 = set_meta api ''provider_route.cluster'' (prt_cluster route) c1;
          c3 = set_meta api ''provider_route.model'' model c2;
          c4 = set_meta api ''provider_route.provider_id'' (pf_provider_id flt) c3;
          c5 = set_meta api ''provider_route.request_id'' request_id c4;
          c6 = set_optional_meta api ''provider_route.overlay_revision'' overlay_revision c5;
          c7 = c6\<lparr>rx_metadata := set_credential_metadata (ra_set_metadata api) (rx_metadata c6) (prt_credential route)\<rparr>
      in case set_provider_headers api c7 (pf_provider_id flt) request_id overlay_revision of
           (Inl e, c8) \<Rightarrow> (Inl e, c8)
         | (Inr _, c8) \<Rightarrow> (Inr Continue, c8))"

definition provider_on_request ::
  "route_api \<Rightarrow> provider_filter \<Rightarrow> route_ctx \<Rightarrow> (filter_error + filter_action) \<times> route_ctx" where
  "provider_on_request api flt ctx0 =
     (let ctx = strip_edge_headers ctx0
      in case request_header_by_name ctx SELECTED_CANDIDATE_HEADER of
           None \<Rightarrow> (Inr (Reject 403), ctx)
         | Some candidate_id \<Rightarrow>
             (case request_header_by_name ctx PROVIDER_HOP_REQUEST_ID_HEADER of
                None \<Rightarrow> (Inr (Reject 403), ctx)
              | Some request_id \<Rightarrow>
                  (case peer_overlay_revision ctx of
                     Inl _ \<Rightarrow> (Inr (Reject 403), ctx)
                   | Inr overlay_revision \<Rightarrow>
                       (case request_header_by_name ctx (pf_model_header flt) of
                          None \<Rightarrow> (Inr (Reject 400), ctx)
                        | Some model \<Rightarrow>
                            (case pf_routes flt candidate_id of
                               None \<Rightarrow> (Inr (Reject 403), ctx)
                             | Some route \<Rightarrow>
                                 if prt_model route \<noteq> model \<or> rx_path ctx \<notin> set (prt_paths route) then (Inr (Reject 404), ctx)
                                 else accept_route api flt ctx route candidate_id request_id model overlay_revision)))))"

text \<open>A response: its headers if it has a head, and whether they were changed.\<close>

record provider_response =
  rp_metadata :: metadata
  rp_headers :: "(string \<rightharpoonup> string) option"
  rp_modified :: bool

definition provider_on_response ::
  "route_api \<Rightarrow> provider_filter \<Rightarrow> provider_response \<Rightarrow> (filter_error + filter_action) \<times> provider_response" where
  "provider_on_response api flt resp =
     (if \<not> pf_emit_demo_attribution flt then (Inr Continue, resp)
      else
        (let cluster = rp_metadata resp ''provider_route.cluster''
         in case (case cluster of None \<Rightarrow> Inr () | Some c \<Rightarrow> rl_header_value (ra_lib api) c) of
              Inl e \<Rightarrow> (Inl (pr_error (''invalid provider cluster header: '' @ e)), resp)
            | Inr _ \<Rightarrow>
                (case rp_headers resp of
                   None \<Rightarrow> (Inr Continue, resp)
                 | Some h \<Rightarrow>
                     (let h1 = h(PROVIDER_ATTRIBUTION_RESPONSE_HEADER \<mapsto> pf_provider_id flt);
                          h2 = (case cluster of None \<Rightarrow> h1 | Some c \<Rightarrow> h1(PROVIDER_INFERENCE_RESPONSE_HEADER \<mapsto> c))
                      in (Inr Continue, resp\<lparr>rp_headers := Some h2, rp_modified := True\<rparr>)))))"

section \<open>What the edge sends\<close>

definition revision_ok :: "string \<Rightarrow> bool" where
  "revision_ok v \<longleftrightarrow> length v = 64 \<and> list_all is_lower_hex v"

definition hop_ready :: "route_lib \<Rightarrow> route_snapshot \<Rightarrow> bool" where
  "hop_ready lib snap \<longleftrightarrow>
     (\<forall>c \<in> set (rs_candidates snap). stable_id_ok lib (rc_stable_id c)) \<and> pred_option revision_ok (rs_semantic_revision snap)"

lemma revision_header: "route_lib_laws lib \<Longrightarrow> revision_ok v \<Longrightarrow> rl_header_value lib v = Inr ()"
proof -
  assume laws: "route_lib_laws lib" and v: "revision_ok v"
  from v have "list_all is_lower_hex v" by (simp add: revision_ok_def)
  then have "list_all is_visible v"
    by (rule list.pred_mono_strong) (auto simp: is_lower_hex_def is_visible_def)
  with laws show ?thesis unfolding route_lib_laws_def by blast
qed

lemma snapshot_of_hop_ready:
  "snapshot_of lib doc format h schema revision = Inr snap \<Longrightarrow> route_lib_laws lib \<Longrightarrow> pred_option revision_ok revision \<Longrightarrow>
   hop_ready lib snap"
  using snapshot_of_Inr [of lib doc format h schema revision snap]
  by (auto simp: hop_ready_def snapshot_ok_def list_all_iff)

lemma from_overlay_hop_ready:
  assumes "from_overlay_with_scope lib content expected = Inr snap" "route_lib_laws (ol_route lib)"
  shows "hop_ready (ol_route lib) snap"
proof -
  have "revision_ok (rv_value f)" if "validate_revision_shape f n = Inr ()" for f n
    using that by (auto simp: validate_revision_shape_def validate_hex_value_def revision_ok_def split: if_splits)
  with assms show ?thesis
    by (auto simp: from_overlay_with_scope_def from_envelope_def from_legacy_def Let_def res_bind_Inr_iff
        split: if_splits dest!: snapshot_of_hop_ready)
qed

lemma static_hop_ready:
  assumes "build_static_snapshot lib raw site = Inr snap" "route_lib_laws lib"
  shows "hop_ready lib snap"
proof -
  from assms obtain cs s where cs: "validate_candidates_with_empty lib raw False = Inr cs" and snap: "snap = from_static cs s"
    by (auto simp: build_static_snapshot_def validate_candidates_def res_bind_Inr_iff split: if_splits)
  from validate_candidates_Inr(2) [OF cs] have "\<forall>c \<in> set cs. stable_id_ok lib (rc_stable_id c)"
    by (induction rule: list_all2_induct) (auto simp: taken_from_def default_stable_id_ok [OF assms(2)])
  then show ?thesis by (simp add: hop_ready_def snap from_static_def)
qed

lemma select_and_route_snapshot:
  "select_and_route api inp flt ctx kind name = (r, ctx', flt') \<Longrightarrow>
   rs_candidates (rf_snapshot flt') = rs_candidates (rf_snapshot flt) \<and>
   rs_semantic_revision (rf_snapshot flt') = rs_semantic_revision (rf_snapshot flt)"
  by (auto simp: select_and_route_def Let_def split: prod.splits affinity_outcome.splits option.splits sum.splits)

lemma reachable_hop_ready:
  "reachable lib api cfg flt \<Longrightarrow> route_lib_laws (ol_route lib) \<Longrightarrow> hop_ready (ol_route lib) (rf_snapshot flt)"
proof (induction rule: reachable.induct)
  case (configured spawn flt)
  then obtain w where "build_route_snapshot lib spawn cfg = Inr (rf_snapshot flt, w)"
    by (auto simp: from_config_def res_bind_Inr_iff)
  then show ?case
    using configured(2) from_overlay_hop_ready static_hop_ready
    by (fastforce simp: build_route_snapshot_def build_overlay_snapshot_def res_bind_Inr_iff split: if_splits option.splits)
next
  case (request flt inp ctx r ctx' flt')
  from request(3) show ?case
    by (cases rule: on_request_filter) (use request select_and_route_snapshot in \<open>auto simp: hop_ready_def\<close>)
next
  case (request_body flt inp ctx body eos r ctx' flt' body')
  from request_body(3) show ?case
    by (cases rule: on_request_body_filter) (use request_body select_and_route_snapshot in \<open>auto simp: hop_ready_def\<close>)
next
  case (reload flt f)
  then show ?case
    using from_overlay_hop_ready by (auto simp: handle_overlay_reload_def split: sum.splits)
qed

text \<open>The headers of a hop: the candidate, the generated identifier, and the revision if there is one.\<close>

definition hop_headers :: "route_candidate \<Rightarrow> string \<Rightarrow> string option \<Rightarrow> (string \<times> string) list" where
  "hop_headers c hop revision =
     [(SELECTED_CANDIDATE_HEADER, rc_stable_id c), (PROVIDER_HOP_REQUEST_ID_HEADER, hop)] @
     (case revision of None \<Rightarrow> [] | Some v \<Rightarrow> [(OVERLAY_REVISION_HEADER, v)])"

lemma write_provider_context_sends:
  assumes "rc_cluster c \<in> hops" "stable_id_ok (ra_lib api) (rc_stable_id c)" "rl_header_value (ra_lib api) hop = Inr ()"
    and "\<And>v. revision = Some v \<Longrightarrow> rl_header_value (ra_lib api) v = Inr ()"
  shows "\<exists>ctx'. write_provider_context api ctx c hops revision hop = (Inr (), ctx') \<and>
           rx_headers_to_set ctx' = rx_headers_to_set ctx @ hop_headers c hop revision"
  using assms
  by (cases revision) (auto simp: write_provider_context_def hop_headers_def stable_id_ok_def MAX_HEADER_VALUE_LEN_def Let_def)

lemma apply_route_sends:
  assumes "rc_cluster c \<in> rf_provider_hop_clusters flt" "stable_id_ok (ra_lib api) (rc_stable_id c)"
    and "rl_header_value (ra_lib api) (ri_hop_id inp) = Inr ()" "pred_option revision_ok (rs_semantic_revision (rf_snapshot flt))"
    and "route_lib_laws (ra_lib api)"
  shows "\<exists>ctx'. apply_route api inp flt ctx c g = (Inr (), ctx') \<and>
           rx_headers_to_set ctx' = rx_headers_to_set ctx @ provider_marker api c @
             hop_headers c (ri_hop_id inp) (rs_semantic_revision (rf_snapshot flt))"
proof -
  let ?snap = "rf_snapshot flt"
  let ?ctx = "record_route_decision api (ctx\<lparr>rx_cluster := Some (rc_cluster c)\<rparr>) (rs_local_site ?snap) c"
  have "rl_header_value (ra_lib api) v = Inr ()" if "rs_semantic_revision ?snap = Some v" for v
    using assms(4) that revision_header [OF assms(5), of v] by simp
  from write_provider_context_sends [OF assms(1-3) this, where ctx = ?ctx] obtain ctx1 where
    "write_provider_context api ?ctx c (rf_provider_hop_clusters flt) (rs_semantic_revision ?snap) (ri_hop_id inp) = (Inr (), ctx1)"
    "rx_headers_to_set ctx1 = rx_headers_to_set ?ctx @ hop_headers c (ri_hop_id inp) (rs_semantic_revision ?snap)"
    by blast
  then show ?thesis by (simp add: apply_route_def)
qed

lemma select_and_route_sends:
  assumes sel: "select_and_route api inp flt ctx kind name = (r, ctx', flt')" and c: "chosen inp flt ctx kind name = Some c"
    and hop: "rc_cluster c \<in> rf_provider_hop_clusters flt" "stable_id_ok (ra_lib api) (rc_stable_id c)"
      "rl_header_value (ra_lib api) (ri_hop_id inp) = Inr ()" "pred_option revision_ok (rs_semantic_revision (rf_snapshot flt))"
      "route_lib_laws (ra_lib api)"
  shows "r = Inr Continue \<and> rx_headers_to_set ctx' = rx_headers_to_set ctx @ provider_marker api c @
           hop_headers c (ri_hop_id inp) (rs_semantic_revision (rf_snapshot flt))"
proof -
  obtain outcome aff where a: "affinity_of inp flt ctx kind name = (outcome, aff)" by force
  let ?flt = "flt\<lparr>rf_session_affinity := aff\<rparr>"
  have sends: "\<exists>ctx1. apply_route api inp ?flt ctx c g = (Inr (), ctx1) \<and> rx_headers_to_set ctx1 = rx_headers_to_set ctx @
      provider_marker api c @ hop_headers c (ri_hop_id inp) (rs_semantic_revision (rf_snapshot flt))" for g
    using apply_route_sends [of c ?flt api inp ctx g] hop by simp
  show ?thesis
  proof (cases "\<exists>d. outcome = Reused d")
    case True
    with a c have "affinity_of inp flt ctx kind name = (Reused c, aff)" by (auto simp: chosen_def)
    with sel sends [of "rc_selection_group c"] show ?thesis
      by (auto simp: select_and_route_reused apply_reused_def)
  next
    case False
    with a c obtain g where "fst (picked inp flt kind name) = Some (c, g)"
      by (cases outcome) (auto simp: chosen_def)
    with sel sends [of g] False show ?thesis
      by (auto simp: select_and_route_fresh [OF a] Let_def record_session_def split: option.splits)
  qed
qed

section \<open>Two gateways\<close>

text \<open>
  The upstream request of a proxy, for the names of the hop contract: what its filters set replaces
  what they removed, the last setting of a name wins, and otherwise the header of the request
  passes. Nothing is assumed of other names: the proxy strips its reserved \<^verbatim>\<open>x-praxis-\<close> names, which is
  why \<^verbatim>\<open>metadata.rs\<close> keeps the contract out of that namespace.
\<close>

type_synonym headers = "string \<Rightarrow> string option option"

definition hop_names :: "string list" where
  "hop_names = [SELECTED_CANDIDATE_HEADER, PROVIDER_HOP_REQUEST_ID_HEADER, OVERLAY_REVISION_HEADER]"

definition forwards :: "(string list \<Rightarrow> (string \<times> string) list \<Rightarrow> headers \<Rightarrow> headers) \<Rightarrow> bool" where
  "forwards fwd \<longleftrightarrow>
     (\<forall>removed settings hs n. n \<in> set hop_names \<longrightarrow> fwd removed settings hs n =
        (case map_of (rev settings) n of
           Some v \<Rightarrow> Some (Some v)
         | None \<Rightarrow> if n \<in> set removed then None else hs n))"

lemma forwarded_hop:
  assumes "forwards fwd" "{SELECTED_CANDIDATE_HEADER, PROVIDER_HOP_REQUEST_ID_HEADER, OVERLAY_REVISION_HEADER} \<subseteq> set removed"
    and "OVERLAY_REVISION_HEADER \<notin> fst ` set before"
  shows "fwd removed (before @ hop_headers c hop revision) hs SELECTED_CANDIDATE_HEADER = Some (Some (rc_stable_id c))"
    "fwd removed (before @ hop_headers c hop revision) hs PROVIDER_HOP_REQUEST_ID_HEADER = Some (Some hop)"
    "fwd removed (before @ hop_headers c hop revision) hs OVERLAY_REVISION_HEADER = map_option Some revision"
proof -
  have n: "SELECTED_CANDIDATE_HEADER \<noteq> PROVIDER_HOP_REQUEST_ID_HEADER" "SELECTED_CANDIDATE_HEADER \<noteq> OVERLAY_REVISION_HEADER"
    "PROVIDER_HOP_REQUEST_ID_HEADER \<noteq> OVERLAY_REVISION_HEADER" by code_simp+
  have "map_of (rev before) OVERLAY_REVISION_HEADER = None" using assms(3) by (simp add: map_of_eq_None_iff)
  then show "fwd removed (before @ hop_headers c hop revision) hs SELECTED_CANDIDATE_HEADER = Some (Some (rc_stable_id c))"
    "fwd removed (before @ hop_headers c hop revision) hs PROVIDER_HOP_REQUEST_ID_HEADER = Some (Some hop)"
    "fwd removed (before @ hop_headers c hop revision) hs OVERLAY_REVISION_HEADER = map_option Some revision"
    using assms(1,2) n by (cases revision; auto simp: forwards_def hop_names_def hop_headers_def)+
qed

lemma accept_route_result:
  assumes "rl_header_value (ra_lib api) request_id = Inr ()" "route_lib_laws (ra_lib api)" "pred_option revision_ok revision"
  shows "fst (accept_route api flt ctx route candidate_id request_id model revision) = Inr Continue \<and>
         rx_cluster (snd (accept_route api flt ctx route candidate_id request_id model revision)) = Some (prt_cluster route)"
  using assms revision_header [OF assms(2)]
  by (cases revision) (simp_all add: accept_route_def set_provider_headers_def Let_def)

text \<open>What the policy of a provider says to a candidate, the model header it received and a path.\<close>

definition provider_answer ::
  "provider_filter \<Rightarrow> string \<Rightarrow> string option \<Rightarrow> string \<Rightarrow> filter_action \<times> string option" where
  "provider_answer flt candidate_id model path =
     (case model of
        None \<Rightarrow> (Reject 400, None)
      | Some m \<Rightarrow>
          (case pf_routes flt candidate_id of
             None \<Rightarrow> (Reject 403, None)
           | Some route \<Rightarrow>
               if prt_model route = m \<and> path \<in> set (prt_paths route) then (Continue, Some (prt_cluster route)) else (Reject 404, None)))"

lemma provider_reads_hop:
  assumes "rx_headers ctx SELECTED_CANDIDATE_HEADER = Some (Some candidate)" "stable_id_ok (ra_lib api) candidate"
    and "rx_headers ctx PROVIDER_HOP_REQUEST_ID_HEADER = Some (Some hop)" "stable_id_ok (ra_lib api) hop"
    and "rx_headers ctx OVERLAY_REVISION_HEADER = map_option Some revision" "pred_option revision_ok revision"
    and "rx_cluster ctx = None" "route_lib_laws (ra_lib api)"
    and "answer = provider_answer flt candidate (request_header_by_name ctx (pf_model_header flt)) (rx_path ctx)"
  shows "fst (provider_on_request api flt ctx) = Inr (fst answer) \<and> rx_cluster (snd (provider_on_request api flt ctx)) = snd answer"
proof -
  let ?ctx = "strip_edge_headers ctx"
  have "request_header_by_name ?ctx SELECTED_CANDIDATE_HEADER = Some candidate"
    "request_header_by_name ?ctx PROVIDER_HOP_REQUEST_ID_HEADER = Some hop"
    "request_header_by_name ?ctx (pf_model_header flt) = request_header_by_name ctx (pf_model_header flt)"
    using assms by (simp_all add: request_header_by_name_def strip_edge_headers_def stable_id_ok_def MAX_VALUE_LEN_def)
  moreover have "peer_overlay_revision ?ctx = Inr revision"
    using assms(5,6) by (cases revision) (simp_all add: peer_overlay_revision_def strip_edge_headers_def revision_ok_def)
  moreover have "rl_header_value (ra_lib api) hop = Inr ()" using assms(4) by (simp add: stable_id_ok_def)
  moreover have "rx_cluster ?ctx = None" "rx_path ?ctx = rx_path ctx" using assms(7) by (simp_all add: strip_edge_headers_def)
  ultimately show ?thesis
    using accept_route_result [OF _ assms(8,6)] assms(9)
    by (auto simp: provider_on_request_def provider_answer_def split: option.split)
qed

text \<open>
  C6. A hop between gateways carries the decision, whatever routing headers the client sends. Suppose
  the edge, in a reachable state, routes a request for a capability to a cluster that is a provider
  hop, the generated hop identifier fits a header, and the proxy between them treats the three hop
  headers as the filters ask. Then the provider gateway decides on the candidate that the edge's own
  selection chose, one of that cluster that may serve the request. It rejects with 400 if it receives
  no readable model header, with 403 if its policy does not know the candidate, and with 404 if
  model or path do not fit; otherwise it accepts the request for the cluster of its policy.
\<close>

theorem hop_carries_the_decision:
  assumes "reachable lib api cfg flt" and "ra_lib api = ol_route lib" and "route_lib_laws (ol_route lib)" and "rng_ok (ri_rng inp)"
    and "forwards fwd" and "stable_id_ok (ol_route lib) (ri_hop_id inp)"
    and "\<not> managed flt ctx" and "rx_cluster ctx = None" and "rx_headers_to_set ctx = []"
    and "header_lookup flt ctx = Lookup_Route kind name" and "route_on_request api inp flt ctx = (r, ctx', flt')"
    and "rx_cluster ctx' = Some cluster" and "cluster \<in> rf_provider_hop_clusters flt"
    and "rx_headers pctx = fwd (rx_headers_to_remove ctx') (rx_headers_to_set ctx') (rx_headers ctx)" and "rx_cluster pctx = None"
  shows "r = Inr Continue \<and>
         (\<exists>c answer. chosen inp flt (stripped ctx) kind name = Some c \<and> rc_cluster c = cluster \<and>
            may_serve flt ctx (ri_clk inp 0) (kind, name) c \<and>
            answer = provider_answer pflt (rc_stable_id c) (request_header_by_name pctx (pf_model_header pflt)) (rx_path pctx) \<and>
            fst (provider_on_request api pflt pctx) = Inr (fst answer) \<and>
            rx_cluster (snd (provider_on_request api pflt pctx)) = snd answer)"
proof -
  have laws: "route_lib_laws (ra_lib api)" using assms(2,3) by simp
  have sel: "select_and_route api inp flt (stripped ctx) kind name = (r, ctx', flt')"
    using assms(10,11) unfolding on_request_cases [OF assms(7,8)] by simp
  note ch = select_and_route_chosen [OF sel]
  then obtain c where c: "chosen inp flt (stripped ctx) kind name = Some c" "rc_cluster c = cluster"
    using assms(8,12) by (auto split: option.splits)
  have serve: "may_serve flt ctx (ri_clk inp 0) (kind, name) c"
    using chosen_may_serve [OF reachable_ok [OF assms(1)] assms(4), where ctx = "stripped ctx" and kind = kind and name = name] c
    by simp
  have ready: "stable_id_ok (ra_lib api) (rc_stable_id c)" "pred_option revision_ok (rs_semantic_revision (rf_snapshot flt))"
    using reachable_hop_ready [OF assms(1,3)] serve assms(2) by (simp_all add: hop_ready_def may_serve_def)
  have hop: "stable_id_ok (ra_lib api) (ri_hop_id inp)" using assms(2,6) by simp
  then have "r = Inr Continue" and sets: "rx_headers_to_set ctx' = provider_marker api c @
      hop_headers c (ri_hop_id inp) (rs_semantic_revision (rf_snapshot flt))"
    using select_and_route_sends [OF sel c(1) _ ready(1) _ ready(2) laws] assms(9,13) c(2) by (simp_all add: stable_id_ok_def)
  moreover have "OVERLAY_REVISION_HEADER \<notin> fst ` set (provider_marker api c)"
    by (auto simp: provider_marker_def OVERLAY_REVISION_HEADER_def PROVIDER_HEADER_def split: option.splits)
  moreover have "{SELECTED_CANDIDATE_HEADER, PROVIDER_HOP_REQUEST_ID_HEADER, OVERLAY_REVISION_HEADER} \<subseteq> set (rx_headers_to_remove ctx')"
    using ch by simp
  ultimately show ?thesis
    using forwarded_hop [OF assms(5)] provider_reads_hop [OF _ ready(1) _ hop _ ready(2) assms(15) laws refl]
      c serve assms(14) by (metis (no_types, lifting))
qed

section \<open>Witness\<close>

text \<open>A client that forges all routing headers, an edge with one provider hop, and its provider.\<close>

definition demo_provider_config :: provider_filter_config where
  "demo_provider_config = \<lparr>pfc_provider_id = ''p'', pfc_model_header = ''X-Model'',
     pfc_routes = [\<lparr>prc_candidate_id = ''inference_model/m/a/c-a'', prc_cluster = ''local'', prc_credential = None,
       prc_model = ''m'', prc_paths = [''/v1/chat'']\<rparr>], pfc_emit_demo_attribution = False\<rparr>"

definition demo_provider :: provider_filter where
  "demo_provider = \<lparr>pf_emit_demo_attribution = False, pf_model_header = ''x-model'', pf_provider_id = ''p'',
     pf_routes = [''inference_model/m/a/c-a'' \<mapsto> \<lparr>prt_cluster = ''local'', prt_credential = None, prt_model = ''m'', prt_paths = [''/v1/chat'']\<rparr>]\<rparr>"

definition demo_forward :: "string list \<Rightarrow> (string \<times> string) list \<Rightarrow> headers \<Rightarrow> headers" where
  "demo_forward removed settings hs n =
     (if starts_with n ''x-praxis-'' then None
      else case map_of (rev settings) n of Some v \<Rightarrow> Some (Some v) | None \<Rightarrow> if n \<in> set removed then None else hs n)"

definition demo_forger :: route_ctx where
  "demo_forger = (demo_route_ctx ''s1'')\<lparr>rx_headers := (\<lambda>n. if starts_with n ''x-ai-'' then Some (Some ''forged'')
     else rx_headers (demo_route_ctx ''s1'') n)\<rparr>"

definition demo_hop_filter :: route_filter where
  "demo_hop_filter = demo_filter\<lparr>rf_provider_hop_clusters := {''c-a''}\<rparr>"

definition demo_at_edge :: route_ctx where
  "demo_at_edge = fst (snd (route_on_request demo_route_api (demo_inputs 5) demo_hop_filter demo_forger))"

definition demo_at_provider :: route_ctx where
  "demo_at_provider = demo_forger\<lparr>rx_headers := demo_forward (rx_headers_to_remove demo_at_edge) (rx_headers_to_set demo_at_edge)
     (rx_headers demo_forger)\<rparr>"

lemma demo_provider_configured:
  "map_option pf_provider_id (case provider_from_config demo_route_lib demo_provider_config of Inr f \<Rightarrow> Some f | Inl _ \<Rightarrow> None) = Some ''p''"
  by code_simp

theorem hop_carries_the_decision_witness:
  "fst (provider_on_request demo_route_api demo_provider demo_at_provider) = Inr Continue \<and>
   rx_cluster (snd (provider_on_request demo_route_api demo_provider demo_at_provider)) = Some ''local''"
proof -
  let ?cfg = "demo_route_config\<lparr>irc_provider_hop_clusters := [''c-a'']\<rparr>"
  obtain r ctx' flt' where o: "route_on_request demo_route_api (demo_inputs 5) demo_hop_filter demo_forger = (r, ctx', flt')"
    by (metis prod.exhaust)
  then have edge: "demo_at_edge = ctx'" by (simp add: demo_at_edge_def)
  have "validate_provider_hop_clusters [''c-a''] = Inr {''c-a''}" by code_simp
  then have reach: "reachable demo_overlay_lib demo_route_api ?cfg demo_hop_filter"
    using demo_configured by (simp add: demo_hop_filter_def)
  have lib: "ra_lib demo_route_api = ol_route demo_overlay_lib" "ol_route demo_overlay_lib = demo_route_lib"
    by (simp_all add: demo_route_api_def demo_overlay_lib_def)
  have rng: "rng_ok (ri_rng (demo_inputs 5))" using demo_rng_ok by (simp add: demo_inputs_def)
  have "list_all (\<lambda>n. \<not> starts_with n ''x-praxis-'') hop_names" by code_simp
  then have fwd: "forwards demo_forward" by (auto simp: forwards_def demo_forward_def list_all_iff)
  have hop: "stable_id_ok demo_route_lib (ri_hop_id (demo_inputs 5))" by code_simp
  have h: "\<not> managed demo_hop_filter demo_forger" "rx_cluster demo_forger = None" "rx_headers_to_set demo_forger = []"
    "header_lookup demo_hop_filter demo_forger = Lookup_Route InferenceModel ''m''" by code_simp+
  have c: "rx_cluster demo_at_edge = Some ''c-a''" "''c-a'' \<in> rf_provider_hop_clusters demo_hop_filter" by code_simp+
  have p: "rx_headers demo_at_provider = demo_forward (rx_headers_to_remove ctx') (rx_headers_to_set ctx') (rx_headers demo_forger)"
    "rx_cluster demo_at_provider = None" using edge h(2) by (simp_all add: demo_at_provider_def)
  have m: "request_header_by_name demo_at_provider (pf_model_header demo_provider) = Some ''m''" by code_simp
  note hop_carries_the_decision [OF reach lib(1) _ rng fwd _ h(1-4) o _ c(2) p]
  then obtain d where d: "rc_cluster d = ''c-a''" "may_serve demo_hop_filter demo_forger (ri_clk (demo_inputs 5) 0) (InferenceModel, ''m'') d"
    and ans: "fst (provider_on_request demo_route_api demo_provider demo_at_provider) =
        Inr (fst (provider_answer demo_provider (rc_stable_id d) (Some ''m'') (rx_path demo_at_provider)))"
      "rx_cluster (snd (provider_on_request demo_route_api demo_provider demo_at_provider)) =
        snd (provider_answer demo_provider (rc_stable_id d) (Some ''m'') (rx_path demo_at_provider))"
    using lib(2) demo_route_lib_laws hop c(1) edge m by (metis (no_types, lifting))
  have "list_all (\<lambda>c. rc_cluster c = ''c-a'' \<longrightarrow> rc_stable_id c = ''inference_model/m/a/c-a'') (rs_candidates (rf_snapshot demo_hop_filter))"
    by code_simp
  with d have "rc_stable_id d = ''inference_model/m/a/c-a''" by (auto simp: list_all_iff may_serve_def)
  moreover have "provider_answer demo_provider ''inference_model/m/a/c-a'' (Some ''m'') (rx_path demo_at_provider) = (Continue, Some ''local'')"
    by code_simp
  ultimately show ?thesis using ans by simp
qed

end
