(* ===== verification/Spec2Isabelle.thy ===== *)
theory Spec2Isabelle
  imports Rate_Backend Weights Sse_Lines Event_Stream Store_Props A2a_Filter Provider_Route
begin

text \<open>
  A verification development for Praxis AI, a gateway in front of language-model providers. The
  gateway is a chain of request filters (\<^verbatim>\<open>src/filters\<close>), protocol translators and API handlers
  (\<^verbatim>\<open>src/apis\<close>), a persistence layer with exchangeable backends (\<^verbatim>\<open>src/store\<close>, \<^verbatim>\<open>src/store-backends\<close>) and a
  server around a proxy framework (\<^verbatim>\<open>src/server\<close>). The development models the parts that hold the
  gateway's own state or decode its wire formats; every definition is a translation of the function
  of the same name in the file its theory names.

  \<^bold>\<open>Vocabulary.\<close>
  \<^item> \<open>Prelude\<close>: 64-bit unsigned integers as natural numbers with saturating, wrapping and checked
    operations; \<^verbatim>\<open>Result\<close> as a sum type; association lists for hash maps whose iteration order is
    observable.
  \<^item> \<open>F64\<close>: IEEE binary64 over the rationals, rounding to nearest even, with the laws the token
    buckets and the weights need. \<open>Utf8\<close>: bytes, \<^verbatim>\<open>str::from_utf8\<close> and \<^verbatim>\<open>String::from_utf8_lossy\<close>.
    \<open>Strings\<close>: what the sources use of \<^verbatim>\<open>str\<close>, a string being the list of its bytes. \<open>Json\<close>: the values
    of \<^verbatim>\<open>serde_json\<close>.
  \<^item> \<open>Promotion\<close> models \<^verbatim>\<open>src/apis/src/promotion.rs\<close> and \<^verbatim>\<open>http_hop.rs\<close>: which header names and values may be
    taken from a request body. Both the agent filter and the routing filters use it.

  \<^bold>\<open>Token rate limiting\<close> (\<^verbatim>\<open>src/filters/src/token_rate_limit\<close>). A request reserves an estimate of its
  tokens against a key and is reconciled with the actual usage later, or times out.
  \<^item> \<open>Sliding_Ledger\<close> models \<^verbatim>\<open>ledger.rs\<close> (sliding windows), \<open>Bucket_Ledger\<close> models \<^verbatim>\<open>token_bucket_ledger.rs\<close>;
    \<open>Bookkeeping\<close> holds the invariant both share (who owns a reservation id, what the counters count).
    Each ledger operation runs under the lock of its key and is one step of the model.
  \<^item> \<open>Ledger_History\<close> runs the sliding-window ledger over any list of operations: a request is
    admitted only if everything charged to its key in the window leaves room for it, a window
    exceeds the capacity only by what requests used beyond their estimates, the counters agree with
    the maps, a reservation settles at most once, admission is exactly the budget test, and the
    retry hint is long enough.
  \<^item> \<open>Bucket_Ledger\<close> shows that balances stay within the capacity, that a burst cannot overdraw,
    that settlement corrects by exactly the difference and that cleanup is invisible; the statements
    on exact amounts are for counts up to \<open>2 ^ 53\<close>, which binary64 holds exactly.
  \<^item> \<open>Weights\<close> models \<^verbatim>\<open>weights.rs\<close>: typed token counts, overlays and the weighted cost; whole
    weights price every token once.
  \<^item> \<open>Rate_Backend\<close> models \<^verbatim>\<open>backend.rs\<close>: the backend trait is a record of operations, the locale
    \<open>rate_backend\<close> its contract, interpreted for both in-process backends; the reconciliation worker
    retries a bounded number of times and settles once.

  \<^bold>\<open>Stream decoders.\<close> \<open>Chunked\<close> holds \<open>feed\<close>, the delivery of a stream in chunks, and the locale
  \<open>chunked_parser\<close>: if two chunks in a row are worth their concatenation, the cut of a stream makes
  no difference. Both decoders are interpretations of it.
  \<^item> \<open>Sse_Frame\<close> and \<open>Sse_Lines\<close> model \<^verbatim>\<open>src/apis/src/openai/sse/frame.rs\<close>: chunking, agreement with a
    reference that reads the stream line by line, the buffer bound and exact event budgets.
  \<^item> \<open>Event_Stream\<close> models \<^verbatim>\<open>src/apis/src/bedrock/eventstream.rs\<close>: round trip with the encoder over any
    chunking, delivery of checked frames only, resumption after errors, the buffer bound. The
    checksum is a parameter of which nothing is assumed.

  \<^bold>\<open>Persistence.\<close> \<open>Memory_Store\<close> models \<^verbatim>\<open>src/store/src/memory.rs\<close>, \<^verbatim>\<open>types.rs\<close> and \<^verbatim>\<open>owner.rs\<close>: the store that the
  SQL backends are contract-tested against, one function per trait method. \<open>Store_Inv\<close> and
  \<open>Store_Runs\<close> define its runs and prove the invariant of its maps; \<open>Store_Props\<close> shows consistency
  of every run, isolation of owners, all-or-nothing and single-use approvals, that an append extends
  the replayed history by exactly its items, and that replay pages join.

  \<^bold>\<open>Agent-to-agent filter\<close> (\<^verbatim>\<open>src/filters/src/agentic/a2a\<close>). The filter classifies requests, learns from
  responses which cluster owns a task or a context, and sends later requests there.
  \<^item> \<open>A2a_Envelope\<close> models \<^verbatim>\<open>envelope.rs\<close> and \<^verbatim>\<open>config.rs\<close>: an accepted configuration promotes nothing into a
    transport, credential or foreign internal header.
  \<^item> \<open>A2a_Sse\<close> models \<^verbatim>\<open>sse.rs\<close>: the cut into non-empty chunks makes no difference, and exactly the events
    that fit the scratch limit are delivered.
  \<^item> \<open>A2a_Routes\<close> models \<^verbatim>\<open>task_routing.rs\<close>: under every interleaving of its critical sections the route
    store implements "last write wins until it expires", within its caps.
  \<^item> \<open>A2a_Capture\<close>, \<open>A2a_Ownership\<close> and \<open>A2a_Filter\<close> model \<^verbatim>\<open>mod.rs\<close>, whose working state lives in a string
    map: what is learnt is exactly what the whole body or the whole event stream says, and a later
    request for the task goes to the cluster that answered.

  \<^bold>\<open>Routing filters\<close> (\<^verbatim>\<open>src/filters/src/routing\<close>). An edge gateway picks a candidate for the model or tool a
  request names, from its configuration or from an overlay file; a provider gateway behind it checks
  the choice against its own policy.
  \<^item> \<open>Route_Candidates\<close> models \<^verbatim>\<open>descriptor.rs\<close> and the credential references of \<^verbatim>\<open>metadata.rs\<close>;
    \<open>Route_Groups\<close> models \<^verbatim>\<open>group_index.rs\<close> and \<^verbatim>\<open>picker.rs\<close>: the lowest group that admits serves, round
    robin is fair and weighted draws are exactly proportional.
  \<^item> \<open>Route_Overlay\<close> models \<^verbatim>\<open>overlay.rs\<close>: an accepted overlay has been verified, and whatever the
    file is changed to, the gateway serves the snapshot of an accepted content.
  \<^item> \<open>Intelligent_Route\<close> models \<^verbatim>\<open>intelligent_route.rs\<close>. \<open>Route_Sessions\<close> defines the reachable states of
    the filter and shows that requests go only where they are admitted and that sessions stick. One
    call of a handler is one step of a run there. The second critical section in which the source
    removes an expired binding is a definition of its own (\<open>binding_remove\<close>), and a lemma shows what
    another request in between can lose by it.
  \<^item> \<open>Provider_Route\<close> models \<^verbatim>\<open>provider_route.rs\<close> and composes the two gateways: the provider decides on
    the candidate the edge selected, whatever routing headers the client sent.

  \<^bold>\<open>Parameters.\<close> Code of other packages is an argument of the definitions: checksums, SHA-256, the
  parsers of JSON, header names, header values and timestamps, the setters of the proxy framework
  (the records \<open>serde\<close>, \<open>praxis_api\<close>, \<open>route_lib\<close>, \<open>overlay_lib\<close>, \<open>route_api\<close>), and how the proxy
  applies a filter's header changes (\<open>forwards\<close>). What a theorem needs of them is a named hypothesis,
  and its witness gives a concrete instance. Clock readings and random draws are arguments too.

  \<^bold>\<open>Bounds.\<close> No fuel is used: every loop is a structural recursion or has a termination proof (the
  event-stream loops by the length of the remaining bytes). Sizes are natural numbers; where a
  theorem needs that a 64-bit counter does not saturate, its hypothesis says so. The append of
  conversation items is partial, since the source aborts when a position overflows.

  \<^bold>\<open>Not modelled.\<close> The Valkey rate-limit backend and the SQL backends run scripts and statements in
  external servers. Metrics and log lines are output only. The rate-limit filter proper
  (configuration, key extraction, proxy callbacks), credential injection, the Model Context Protocol
  filters, the extraction of token usage, the Responses API with its agentic loop and the JSON to
  JSON translators between provider formats are not modelled. The threads, channels and timers of
  the overlay watcher are replaced by the sequence of its events. The build tasks, the server
  start-up and the clients of external services are outside the scope.
\<close>

end
